(* ===== verification/Lotta_Prelude.thy ===== *)
theory Lotta_Prelude
  imports Main "HOL-Library.Sublist" "HOL-Library.Char_ord"
begin

text \<open>
  Shared vocabulary of the development: the results of operations that may fail an
  \<^verbatim>\<open>assert\<close> or run into undefined behaviour, C strings, \<^verbatim>\<open>std::search\<close>,
  decimal rendering (\<^verbatim>\<open>std::to_string\<close>) and the lemma collections that the
  component theories extend.

  The library is built with \<^verbatim>\<open>assert\<close> enabled unless the build type says otherwise
  (\<^verbatim>\<open>src/CMakeLists.txt\<close> sets no build type), so a failing \<^verbatim>\<open>assert\<close> is a branch of
  every operation that has one: the process stops there.
\<close>

named_theorems res_simps \<open>evaluation of fault-or-result computations\<close>
named_theorems wf_intros \<open>well-formedness of component states\<close>
named_theorems view_simps \<open>what an operation does to the abstract view of its state\<close>

section \<open>Faults\<close>

datatype fault =
    AssertFail string  \<comment> \<open>an \<^verbatim>\<open>assert\<close> of the source is false\<close>
  | Undefined string   \<comment> \<open>the source would run into undefined behaviour\<close>

type_synonym 'a res = "fault + 'a"

definition assertR :: "bool \<Rightarrow> string \<Rightarrow> 'a res \<Rightarrow> 'a res" where
  "assertR P msg k = (if P then k else Inl (AssertFail msg))"

definition bindR :: "'a res \<Rightarrow> ('a \<Rightarrow> 'b res) \<Rightarrow> 'b res" where
  "bindR m k = (case m of Inl e \<Rightarrow> Inl e | Inr x \<Rightarrow> k x)"

definition derefR :: "'a option \<Rightarrow> string \<Rightarrow> ('a \<Rightarrow> 'b res) \<Rightarrow> 'b res" where
  "derefR p msg k = (case p of None \<Rightarrow> Inl (Undefined msg) | Some x \<Rightarrow> k x)"

lemma bindR_simps [simp, res_simps]:
  "bindR (Inl e) k = Inl e"
  "bindR (Inr x) k = k x"
  by (simp_all add: bindR_def)

lemma derefR_simps [simp, res_simps]:
  "derefR None msg k = Inl (Undefined msg)"
  "derefR (Some x) msg k = k x"
  by (simp_all add: derefR_def)

lemma assertR_simps [simp, res_simps]:
  "assertR True msg k = k"
  "assertR False msg k = Inl (AssertFail msg)"
  by (simp_all add: assertR_def)

lemma bindR_Inr_iff: "bindR m k = Inr y \<longleftrightarrow> (\<exists>x. m = Inr x \<and> k x = Inr y)"
  by (cases m) auto

lemma assertR_Inr_iff: "assertR P msg k = Inr y \<longleftrightarrow> P \<and> k = Inr y"
  by (simp add: assertR_def)

lemma derefR_Inr_iff: "derefR p msg k = Inr y \<longleftrightarrow> (\<exists>x. p = Some x \<and> k x = Inr y)"
  by (cases p) auto

lemmas res_iffs = bindR_Inr_iff assertR_Inr_iff derefR_Inr_iff

lemma bindR_assoc: "bindR (bindR m f) g = bindR m (\<lambda>x. bindR (f x) g)"
  by (cases m) auto

section \<open>C strings\<close>

text \<open>\<^verbatim>\<open>const char *\<close> arguments end at the first zero byte: \<^verbatim>\<open>strlen\<close> counts up to it.\<close>

definition nul :: char where
  "nul = CHR 0x00"

definition c_str :: "string \<Rightarrow> string" where
  "c_str s = takeWhile (\<lambda>c. c \<noteq> nul) s"

lemma c_str_id [simp]: "nul \<notin> set s \<Longrightarrow> c_str s = s"
  by (auto simp: c_str_def takeWhile_eq_all_conv)

lemma nul_not_in_c_str [simp]: "nul \<notin> set (c_str s)"
  by (auto simp: c_str_def dest: set_takeWhileD)

text \<open>
  \<^verbatim>\<open>strncmp(s, t, n) == 0\<close>: the first \<open>n\<close> characters agree, where the comparison stops
  at a difference or at a common zero byte. Running off the end of either array before the
  comparison is decided reads out of bounds.
\<close>

fun strncmp_eq :: "string \<Rightarrow> string \<Rightarrow> nat \<Rightarrow> bool res" where
  "strncmp_eq _ _ 0 = Inr True"
| "strncmp_eq (x # xs) (y # ys) (Suc n) =
     (if x \<noteq> y then Inr False else if x = nul then Inr True else strncmp_eq xs ys n)"
| "strncmp_eq _ _ (Suc n) = Inl (Undefined ''strncmp reads past the end'')"

lemma strncmp_eq_terminated:
  assumes "nul \<notin> set s" and "n \<le> length s" and "n \<le> length t"
  shows "strncmp_eq (s @ [nul]) t n = Inr (take n s = take n t)"
  using assms by (induction s t n rule: strncmp_eq.induct) auto

section \<open>Subsequence search\<close>

text \<open>
  \<^verbatim>\<open>std::search(first, last, pat, pat + n)\<close> as the distance of its result from
  \<^verbatim>\<open>first\<close>: the first position at which the pattern starts, and the length of the range
  (the end iterator) when there is none.
\<close>

fun std_search :: "'a list \<Rightarrow> 'a list \<Rightarrow> nat" where
  "std_search [] pat = 0"
| "std_search (x # xs) pat = (if prefix pat (x # xs) then 0 else Suc (std_search xs pat))"

lemma std_search_le: "std_search xs pat \<le> length xs"
  by (induction xs) auto

lemma std_search_found: "std_search xs pat < length xs \<Longrightarrow> prefix pat (drop (std_search xs pat) xs)"
  by (induction xs) auto

lemma std_search_before: "j < std_search xs pat \<Longrightarrow> \<not> prefix pat (drop j xs)"
proof (induction xs arbitrary: j)
  case (Cons x xs)
  then show ?case by (cases j) (auto split: if_splits)
qed simp

lemma std_search_fits:
  assumes "std_search xs pat < length xs"
  shows "std_search xs pat + length pat \<le> length xs"
proof -
  have "length pat \<le> length (drop (std_search xs pat) xs)"
    using std_search_found [OF assms] by (rule prefix_length_le)
  then show ?thesis using assms by simp
qed

lemma std_search_missing:
  assumes "pat \<noteq> []"
  shows "std_search xs pat = length xs \<longleftrightarrow> \<not> sublist pat xs"
  using assms
proof (induction xs)
  case (Cons x xs)
  have "sublist pat (x # xs) \<longleftrightarrow> prefix pat (x # xs) \<or> sublist pat xs"
    by (rule sublist_Cons_right)
  with Cons show ?case by (auto simp del: prefix_Cons)
qed simp

lemma std_search_split:
  assumes "pat \<noteq> []" and "std_search xs pat < length xs"
  shows "xs = take (std_search xs pat) xs @ pat @ drop (std_search xs pat + length pat) xs"
proof -
  obtain zs where "drop (std_search xs pat) xs = pat @ zs"
    using std_search_found [OF assms(2)] by (auto elim: prefixE)
  moreover from this have "zs = drop (std_search xs pat + length pat) xs"
    by (metis add.commute append_eq_conv_conj drop_drop)
  ultimately show ?thesis by (metis append_take_drop_id)
qed

lemma std_search_obtain:
  assumes "pat \<noteq> []" and "sublist pat xs"
  shows "\<exists>w rest. xs = w @ pat @ rest \<and> std_search xs pat = length w"
proof -
  have "std_search xs pat < length xs"
    using std_search_missing [OF assms(1), of xs] assms(2) std_search_le [of xs pat] by linarith
  with std_search_split [OF assms(1) this] show ?thesis
    by (metis length_take min.absorb4)
qed

text \<open>Searching for a single character, and for a two-character separator.\<close>

lemma std_search_char: "a \<notin> set w \<Longrightarrow> std_search (w @ a # rest) [a] = length w"
  by (induction w) auto

lemma std_search_pair:
  assumes "a \<noteq> b" and "\<not> sublist [a, b] w"
  shows "std_search (w @ a # b # rest) [a, b] = length w"
  using assms(2)
proof (induction w)
  case (Cons x w)
  have "\<not> prefix [a, b] (x # w) \<and> \<not> sublist [a, b] w"
    using Cons.prems by (simp add: sublist_Cons_right)
  moreover have "\<not> prefix [a, b] ((x # w) @ a # b # rest)" if "w = []"
    using that assms(1) by simp
  ultimately have "\<not> prefix [a, b] ((x # w) @ a # b # rest)"
    by (cases w) auto
  with Cons.IH \<open>\<not> prefix [a, b] (x # w) \<and> \<not> sublist [a, b] w\<close> show ?case by simp
qed simp

section \<open>Decimal rendering\<close>

definition digit_char :: "nat \<Rightarrow> char" where
  "digit_char d = char_of (48 + d)"

fun nat_to_string :: "nat \<Rightarrow> string" where
  "nat_to_string n =
     (if n < 10 then [digit_char n] else nat_to_string (n div 10) @ [digit_char (n mod 10)])"

declare nat_to_string.simps [simp del]

definition digit_value :: "char \<Rightarrow> nat" where
  "digit_value c = of_char c - 48"

definition decimal_value :: "string \<Rightarrow> nat" where
  "decimal_value s = foldl (\<lambda>v c. 10 * v + digit_value c) 0 s"

lemma digit_value_char [simp]: "d < 10 \<Longrightarrow> digit_value (digit_char d) = d"
  by (simp add: digit_value_def digit_char_def)

lemma decimal_value_snoc [simp]: "decimal_value (s @ [c]) = 10 * decimal_value s + digit_value c"
  by (simp add: decimal_value_def)

lemma decimal_value_to_string: "decimal_value (nat_to_string n) = n"
proof (induction n rule: nat_to_string.induct)
  case (1 n)
  show ?case
  proof (cases "n < 10")
    case True
    then show ?thesis by (subst nat_to_string.simps) (simp add: decimal_value_def)
  next
    case False
    with 1 show ?thesis by (subst nat_to_string.simps) simp
  qed
qed

lemma nat_to_string_inject [simp]: "nat_to_string m = nat_to_string n \<longleftrightarrow> m = n"
  by (metis decimal_value_to_string)

definition is_digit :: "char \<Rightarrow> bool" where
  "is_digit c \<longleftrightarrow> 48 \<le> (of_char c :: nat) \<and> (of_char c :: nat) < 58"

lemma is_digit_char: "d < 10 \<Longrightarrow> is_digit (digit_char d)"
  by (simp add: is_digit_def digit_char_def)

lemma nat_to_string_digits: "c \<in> set (nat_to_string n) \<Longrightarrow> is_digit c"
proof (induction n rule: nat_to_string.induct)
  case (1 n)
  then show ?case
    by (subst (asm) (2) nat_to_string.simps) (auto simp: is_digit_char split: if_splits)
qed

lemma nat_to_string_nonempty [simp]: "nat_to_string n \<noteq> []"
  by (subst nat_to_string.simps) simp

text \<open>A text, a separator that is not a digit, and a number: the number can be read off.\<close>

lemma first_separator_inject:
  "a \<notin> set xs \<Longrightarrow> a \<notin> set ys \<Longrightarrow> xs @ a # us = ys @ a # vs \<Longrightarrow> xs = ys \<and> us = vs"
proof (induction xs arbitrary: ys)
  case Nil
  then show ?case by (cases ys) auto
next
  case (Cons x xs)
  then show ?case by (cases ys) auto
qed

lemma digits_suffix_inject:
  assumes "u @ a # nat_to_string m = v @ a # nat_to_string n" and "\<not> is_digit a"
  shows "u = v \<and> m = n"
proof -
  have sep: "a \<notin> set (rev (nat_to_string k))" for k
    using assms(2) nat_to_string_digits by auto
  have "rev (nat_to_string m) @ a # rev u = rev (nat_to_string n) @ a # rev v"
    using arg_cong [OF assms(1), of rev] by simp
  from first_separator_inject [OF sep sep this] show ?thesis by simp
qed

section \<open>Wrap-around of \<^verbatim>\<open>size_t\<close>\<close>

definition size_max1 :: nat where
  "size_max1 = 18446744073709551616"

text \<open>Subtraction on 64-bit \<^verbatim>\<open>size_t\<close>, both operands below \<open>2 ^ 64\<close>.\<close>

definition size_sub :: "nat \<Rightarrow> nat \<Rightarrow> nat" where
  "size_sub a b = (a + size_max1 - b) mod size_max1"

lemma size_sub_le: "b \<le> a \<Longrightarrow> a < size_max1 \<Longrightarrow> size_sub a b = a - b"
  by (simp add: size_sub_def size_max1_def mod_if)

lemma size_sub_wraps:
  "a < b \<Longrightarrow> b < size_max1 \<Longrightarrow> size_sub a b = size_max1 - (b - a)"
  by (simp add: size_sub_def size_max1_def)

end
