(* ===== verification/Lotta_Channel.thy ===== *)
theory Lotta_Channel
  imports Lotta_Prelude "HOL-Library.Word"
begin

text \<open>
  \<^verbatim>\<open>Channel\<close> of \<^verbatim>\<open>include/lotta/channel.h\<close> and \<^verbatim>\<open>src/channel.cc\<close>: a file descriptor with
  its interest mask (\<^verbatim>\<open>events_\<close>), the mask the poller reported (\<^verbatim>\<open>revents_\<close>), its slot in
  the poll array (\<^verbatim>\<open>idxPoll_\<close>, negative before the first registration) and four optional
  callbacks. The callbacks are closures: values of a type \<open>'cb\<close> that a function \<open>run\<close>
  interprets on a world \<open>'w\<close>. The operations that end in \<^verbatim>\<open>update()\<close> are in the theory of
  the poller, which they call.
\<close>

unbundle bit_operations_syntax

section \<open>Event masks\<close>

text \<open>The bits of \<^verbatim>\<open><poll.h>\<close> on Linux, the only platform of the library.\<close>

abbreviation (input) POLLIN :: "32 word" where "POLLIN \<equiv> 1"
abbreviation (input) POLLPRI :: "32 word" where "POLLPRI \<equiv> 2"
abbreviation (input) POLLOUT :: "32 word" where "POLLOUT \<equiv> 4"
abbreviation (input) POLLERR :: "32 word" where "POLLERR \<equiv> 8"
abbreviation (input) POLLHUP :: "32 word" where "POLLHUP \<equiv> 16"
abbreviation (input) POLLNVAL :: "32 word" where "POLLNVAL \<equiv> 32"
abbreviation (input) POLLRDHUP :: "32 word" where "POLLRDHUP \<equiv> 8192"

definition kEmptyEvent :: "32 word" where
  "kEmptyEvent = 0"

definition kReadPollEvent :: "32 word" where
  "kReadPollEvent = POLLIN OR POLLPRI OR POLLRDHUP"

definition kWritePollEvent :: "32 word" where
  "kWritePollEvent = POLLOUT"

definition kErrorPollEvent :: "32 word" where
  "kErrorPollEvent = POLLERR OR POLLNVAL"

definition innerEventsString :: "32 word \<Rightarrow> string" where
  "innerEventsString e =
     (let ret = (if e AND POLLIN \<noteq> 0 then ''IN '' else [])
              @ (if e AND POLLPRI \<noteq> 0 then ''PRI '' else [])
              @ (if e AND POLLRDHUP \<noteq> 0 then ''RDHUP '' else [])
              @ (if e AND POLLOUT \<noteq> 0 then ''OUT '' else [])
              @ (if e AND POLLERR \<noteq> 0 then ''ERR '' else [])
              @ (if e AND POLLNVAL \<noteq> 0 then ''NVAL '' else [])
      in if ret = [] then ''NULL'' else ret)"

section \<open>The channel object\<close>

record 'cb channel =
  ch_fd :: int
  ch_events :: "32 word"
  ch_revents :: "32 word"
  ch_idxPoll :: int
  ch_readCb :: "'cb option"
  ch_writeCb :: "'cb option"
  ch_closeCb :: "'cb option"
  ch_errorCb :: "'cb option"

definition Channel_new :: "int \<Rightarrow> 'cb channel" where
  "Channel_new fd = \<lparr>ch_fd = fd, ch_events = 0, ch_revents = 0, ch_idxPoll = -1,
     ch_readCb = None, ch_writeCb = None, ch_closeCb = None, ch_errorCb = None\<rparr>"

definition Channel_setReadCallback :: "'cb \<Rightarrow> 'cb channel \<Rightarrow> 'cb channel" where
  "Channel_setReadCallback cb ch = ch\<lparr>ch_readCb := Some cb\<rparr>"

definition Channel_setWriteCallback :: "'cb \<Rightarrow> 'cb channel \<Rightarrow> 'cb channel" where
  "Channel_setWriteCallback cb ch = ch\<lparr>ch_writeCb := Some cb\<rparr>"

definition Channel_setCloseCallback :: "'cb \<Rightarrow> 'cb channel \<Rightarrow> 'cb channel" where
  "Channel_setCloseCallback cb ch = ch\<lparr>ch_closeCb := Some cb\<rparr>"

definition Channel_setErrorCallback :: "'cb \<Rightarrow> 'cb channel \<Rightarrow> 'cb channel" where
  "Channel_setErrorCallback cb ch = ch\<lparr>ch_errorCb := Some cb\<rparr>"

text \<open>The accessors that the poller uses; their equations are simplification rules.\<close>

definition Channel_fd :: "'cb channel \<Rightarrow> int" where
  [simp]: "Channel_fd ch = ch_fd ch"

definition Channel_events :: "'cb channel \<Rightarrow> 32 word" where
  [simp]: "Channel_events ch = ch_events ch"

definition Channel_setRevents :: "32 word \<Rightarrow> 'cb channel \<Rightarrow> 'cb channel" where
  [simp]: "Channel_setRevents revents ch = ch\<lparr>ch_revents := revents\<rparr>"

definition Channel_idxPoll :: "'cb channel \<Rightarrow> int" where
  [simp]: "Channel_idxPoll ch = ch_idxPoll ch"

definition Channel_setIdxPoll :: "int \<Rightarrow> 'cb channel \<Rightarrow> 'cb channel" where
  [simp]: "Channel_setIdxPoll idxPoll ch = ch\<lparr>ch_idxPoll := idxPoll\<rparr>"

definition Channel_isEmptyEvent :: "'cb channel \<Rightarrow> bool" where
  "Channel_isEmptyEvent ch \<longleftrightarrow> ch_events ch = kEmptyEvent"

definition Channel_isReading :: "'cb channel \<Rightarrow> bool" where
  "Channel_isReading ch \<longleftrightarrow> ch_events ch AND kReadPollEvent \<noteq> 0"

definition Channel_isWriting :: "'cb channel \<Rightarrow> bool" where
  "Channel_isWriting ch \<longleftrightarrow> ch_events ch AND kWritePollEvent \<noteq> 0"

definition Channel_eventsString :: "'cb channel \<Rightarrow> string" where
  "Channel_eventsString ch = innerEventsString (ch_events ch)"

definition Channel_reventsString :: "'cb channel \<Rightarrow> string" where
  "Channel_reventsString ch = innerEventsString (ch_revents ch)"

text \<open>The new interest mask of the four toggles and of \<^verbatim>\<open>disableEvents\<close>.\<close>

definition mask_enableReading :: "32 word \<Rightarrow> 32 word" where
  "mask_enableReading e = e OR kReadPollEvent"

definition mask_disableReading :: "32 word \<Rightarrow> 32 word" where
  "mask_disableReading e = e AND NOT kReadPollEvent"

definition mask_enableWriting :: "32 word \<Rightarrow> 32 word" where
  "mask_enableWriting e = e OR kWritePollEvent"

definition mask_disableWriting :: "32 word \<Rightarrow> 32 word" where
  "mask_disableWriting e = e AND NOT kWritePollEvent"

section \<open>Event dispatch\<close>

text \<open>
  \<^verbatim>\<open>handleEvent\<close> runs up to four callbacks. The object it runs on is read again for every
  guard, through \<open>self\<close>: a callback may have destroyed it, and then the next guard reads
  freed memory.
\<close>

definition Channel_fire ::
    "('cb \<Rightarrow> 'w \<Rightarrow> 'w res) \<Rightarrow> ('w \<Rightarrow> 'cb channel option) \<Rightarrow>
     ('cb channel \<Rightarrow> bool) \<Rightarrow> ('cb channel \<Rightarrow> 'cb option) \<Rightarrow> 'w \<Rightarrow> 'w res" where
  "Channel_fire run self guard cb w =
     derefR (self w) ''handleEvent on a destroyed channel'' (\<lambda>ch.
       if guard ch then (case cb ch of Some f \<Rightarrow> run f w | None \<Rightarrow> Inr w) else Inr w)"

definition revents_close :: "'cb channel \<Rightarrow> bool" where
  "revents_close ch \<longleftrightarrow> ch_revents ch AND POLLHUP \<noteq> 0 \<and> ch_revents ch AND POLLIN = 0"

definition revents_error :: "'cb channel \<Rightarrow> bool" where
  "revents_error ch \<longleftrightarrow> ch_revents ch AND kErrorPollEvent \<noteq> 0"

definition revents_read :: "'cb channel \<Rightarrow> bool" where
  "revents_read ch \<longleftrightarrow> ch_revents ch AND kReadPollEvent \<noteq> 0"

definition revents_write :: "'cb channel \<Rightarrow> bool" where
  "revents_write ch \<longleftrightarrow> ch_revents ch AND kWritePollEvent \<noteq> 0"

definition Channel_handleEvent ::
    "('cb \<Rightarrow> 'w \<Rightarrow> 'w res) \<Rightarrow> ('w \<Rightarrow> 'cb channel option) \<Rightarrow> 'w \<Rightarrow> 'w res" where
  "Channel_handleEvent run self w =
     bindR (Channel_fire run self revents_close ch_closeCb w) (\<lambda>w1.
     bindR (Channel_fire run self revents_error ch_errorCb w1) (\<lambda>w2.
     bindR (Channel_fire run self revents_read ch_readCb w2) (\<lambda>w3.
     Channel_fire run self revents_write ch_writeCb w3)))"

section \<open>Lemmas\<close>

text \<open>The masks the toggles can produce.\<close>

definition event_masks :: "(32 word) set" where
  "event_masks = {0, kReadPollEvent, kWritePollEvent, kReadPollEvent OR kWritePollEvent}"

lemmas event_defs = kEmptyEvent_def kReadPollEvent_def kWritePollEvent_def kErrorPollEvent_def

lemma event_masks_closed [wf_intros]:
  assumes "e \<in> event_masks"
  shows "mask_enableReading e \<in> event_masks" "mask_disableReading e \<in> event_masks"
    "mask_enableWriting e \<in> event_masks" "mask_disableWriting e \<in> event_masks" "0 \<in> event_masks"
  using assms
  by (auto simp: event_masks_def event_defs mask_enableReading_def mask_disableReading_def
      mask_enableWriting_def mask_disableWriting_def)

lemma event_masks_short:
  "e \<in> event_masks \<Longrightarrow> scast (ucast e :: 16 word) = e"
  by (auto simp: event_masks_def event_defs)

lemma mask_enableReading_bits:
  "mask_enableReading e AND kReadPollEvent \<noteq> 0"
  "mask_enableReading e AND kWritePollEvent = e AND kWritePollEvent"
  by (auto simp: mask_enableReading_def event_defs bit.conj_disj_distrib2)

lemma mask_disableReading_bits:
  "mask_disableReading e AND kReadPollEvent = 0"
  "mask_disableReading e AND kWritePollEvent = e AND kWritePollEvent"
  by (auto simp: mask_disableReading_def event_defs and.assoc)

lemma mask_enableWriting_bits:
  "mask_enableWriting e AND kWritePollEvent \<noteq> 0"
  "mask_enableWriting e AND kReadPollEvent = e AND kReadPollEvent"
  by (auto simp: mask_enableWriting_def event_defs bit.conj_disj_distrib2)

lemma mask_disableWriting_bits:
  "mask_disableWriting e AND kWritePollEvent = 0"
  "mask_disableWriting e AND kReadPollEvent = e AND kReadPollEvent"
  by (auto simp: mask_disableWriting_def event_defs and.assoc)

lemmas mask_bits = mask_enableReading_bits mask_disableReading_bits
  mask_enableWriting_bits mask_disableWriting_bits

lemma event_masks_empty:
  "e \<in> event_masks \<Longrightarrow>
     e = 0 \<longleftrightarrow> e AND kReadPollEvent = 0 \<and> e AND kWritePollEvent = 0"
  by (auto simp: event_masks_def event_defs)

text \<open>The callbacks one report triggers, in order, and a plain sequence of runs.\<close>

definition fired_callbacks :: "'cb channel \<Rightarrow> 'cb list" where
  "fired_callbacks ch =
     concat (map (\<lambda>(guard, cb). if guard then (case cb of None \<Rightarrow> [] | Some f \<Rightarrow> [f]) else [])
       [(revents_close ch, ch_closeCb ch), (revents_error ch, ch_errorCb ch),
        (revents_read ch, ch_readCb ch), (revents_write ch, ch_writeCb ch)])"

fun run_all :: "('cb \<Rightarrow> 'w \<Rightarrow> 'w res) \<Rightarrow> 'cb list \<Rightarrow> 'w \<Rightarrow> 'w res" where
  "run_all run [] w = Inr w"
| "run_all run (f # fs) w = bindR (run f w) (run_all run fs)"

lemma run_all_append: "run_all run (fs @ gs) w = bindR (run_all run fs w) (run_all run gs)"
proof (induction fs arbitrary: w)
  case (Cons f fs)
  then show ?case by (cases "run f w") simp_all
qed simp

lemma Channel_fire_alive:
  "self w = Some ch \<Longrightarrow>
   Channel_fire run self guard cb w =
     run_all run (if guard ch then (case cb ch of None \<Rightarrow> [] | Some f \<Rightarrow> [f]) else []) w"
  by (auto simp: Channel_fire_def bindR_def split: option.splits sum.splits)

lemma Channel_fire_dead:
  "self w = None \<Longrightarrow>
   Channel_fire run self guard cb w = Inl (Undefined ''handleEvent on a destroyed channel'')"
  by (simp add: Channel_fire_def)

text \<open>What a dispatch depends on: the report and the callbacks. Callbacks that leave this view of a
  live object alone may do with its interest mask what they like.\<close>

definition ch_view :: "'cb channel \<Rightarrow> 32 word \<times> 'cb option \<times> 'cb option \<times> 'cb option \<times> 'cb option" where
  "ch_view ch = (ch_revents ch, ch_closeCb ch, ch_errorCb ch, ch_readCb ch, ch_writeCb ch)"

definition keeps_view :: "('cb \<Rightarrow> 'w \<Rightarrow> 'w res) \<Rightarrow> ('w \<Rightarrow> 'cb channel option) \<Rightarrow> bool" where
  "keeps_view run self \<longleftrightarrow> (\<forall>f w w1. run f w = Inr w1 \<longrightarrow> self w \<noteq> None \<longrightarrow>
     self w1 \<noteq> None \<and> ch_view (the (self w1)) = ch_view (the (self w)))"

text \<open>More finely: \<open>Q fs\<close> holds while the callbacks \<open>fs\<close> are still to be run, and whenever it holds
  the object is alive with the view of \<open>ch\<close>.\<close>

definition runs_along :: "('cb list \<Rightarrow> 'w \<Rightarrow> bool) \<Rightarrow> ('cb \<Rightarrow> 'w \<Rightarrow> 'w res) \<Rightarrow> bool" where
  "runs_along Q run \<longleftrightarrow> (\<forall>f fs w w1. Q (f # fs) w \<longrightarrow> run f w = Inr w1 \<longrightarrow> Q fs w1)"

definition sees :: "('cb list \<Rightarrow> 'w \<Rightarrow> bool) \<Rightarrow> ('w \<Rightarrow> 'cb channel option) \<Rightarrow> 'cb channel \<Rightarrow> bool" where
  "sees Q self ch \<longleftrightarrow> (\<forall>fs w. Q fs w \<longrightarrow> (\<exists>ch1. self w = Some ch1 \<and> ch_view ch1 = ch_view ch))"

lemma fired_callbacks_view: "ch_view ch1 = ch_view ch \<Longrightarrow> fired_callbacks ch1 = fired_callbacks ch"
  by (simp add: ch_view_def fired_callbacks_def revents_close_def revents_error_def revents_read_def revents_write_def)

lemma run_all_along: "runs_along Q run \<Longrightarrow> Q (fs @ gs) w \<Longrightarrow> run_all run fs w = Inr w1 \<Longrightarrow> Q gs w1"
proof (induction fs arbitrary: w)
  case (Cons f fs)
  then obtain w2 where w2: "run f w = Inr w2" "run_all run fs w2 = Inr w1"
    by (auto simp: bindR_Inr_iff)
  have "Q (fs @ gs) w2" using Cons.prems(1,2) w2(1) by (simp add: runs_along_def)
  with Cons.IH [OF Cons.prems(1)] w2(2) show ?case by blast
qed simp

lemma bindR_fire:
  assumes along: "runs_along Q run" and sees: "sees Q self ch" and Q: "Q (fs @ gs) w"
    and view: "\<And>ch1. ch_view ch1 = ch_view ch \<Longrightarrow> guard ch1 = guard ch \<and> cb ch1 = cb ch"
  shows "bindR (run_all run fs w) (Channel_fire run self guard cb) =
         run_all run (fs @ (if guard ch then (case cb ch of None \<Rightarrow> [] | Some f \<Rightarrow> [f]) else [])) w"
proof (cases "run_all run fs w")
  case (Inr w1)
  then obtain ch1 where ch1: "self w1 = Some ch1" "ch_view ch1 = ch_view ch"
    using run_all_along [OF along Q] sees unfolding sees_def by blast
  from view [OF ch1(2)] have "guard ch1 = guard ch" "cb ch1 = cb ch" by simp_all
  with Inr ch1(1) show ?thesis by (simp add: run_all_append Channel_fire_alive)
qed (simp add: run_all_append)

lemma Channel_handleEvent_along:
  assumes along: "runs_along Q run" and sees: "sees Q self ch" and Q: "Q (fired_callbacks ch @ gs) w"
  shows "Channel_handleEvent run self w = run_all run (fired_callbacks ch) w"
proof -
  have view: "ch_view ch1 = ch_view ch \<Longrightarrow> revents_close ch1 = revents_close ch \<and> ch_closeCb ch1 = ch_closeCb ch"
    "ch_view ch1 = ch_view ch \<Longrightarrow> revents_error ch1 = revents_error ch \<and> ch_errorCb ch1 = ch_errorCb ch"
    "ch_view ch1 = ch_view ch \<Longrightarrow> revents_read ch1 = revents_read ch \<and> ch_readCb ch1 = ch_readCb ch"
    "ch_view ch1 = ch_view ch \<Longrightarrow> revents_write ch1 = revents_write ch \<and> ch_writeCb ch1 = ch_writeCb ch" for ch1
    by (simp_all add: ch_view_def revents_close_def revents_error_def revents_read_def revents_write_def)
  let ?cb = "\<lambda>guard cb. if guard ch then (case cb ch of None \<Rightarrow> [] | Some f \<Rightarrow> [f]) else []"
  let ?f1 = "?cb revents_close ch_closeCb" and ?f2 = "?cb revents_error ch_errorCb" and ?f3 = "?cb revents_read ch_readCb"
    and ?f4 = "?cb revents_write ch_writeCb"
  have fired: "fired_callbacks ch = ?f1 @ ?f2 @ ?f3 @ ?f4" by (simp add: fired_callbacks_def)
  have "Channel_handleEvent run self w =
     bindR (bindR (bindR (bindR (run_all run [] w) (Channel_fire run self revents_close ch_closeCb))
       (Channel_fire run self revents_error ch_errorCb))
       (Channel_fire run self revents_read ch_readCb))
       (Channel_fire run self revents_write ch_writeCb)"
    by (simp add: Channel_handleEvent_def bindR_assoc)
  also have "bindR (run_all run [] w) (Channel_fire run self revents_close ch_closeCb) = run_all run ([] @ ?f1) w"
    by (rule bindR_fire [where guard = revents_close and cb = ch_closeCb and fs = "[]" and gs = "?f1 @ ?f2 @ ?f3 @ ?f4 @ gs", OF along sees _ view(1)]) (use Q in \<open>simp add: fired\<close>)
  also have "bindR (run_all run ([] @ ?f1) w) (Channel_fire run self revents_error ch_errorCb) = run_all run (([] @ ?f1) @ ?f2) w"
    by (rule bindR_fire [where guard = revents_error and cb = ch_errorCb and fs = "[] @ ?f1" and gs = "?f2 @ ?f3 @ ?f4 @ gs", OF along sees _ view(2)]) (use Q in \<open>simp add: fired\<close>)
  also have "bindR (run_all run (([] @ ?f1) @ ?f2) w) (Channel_fire run self revents_read ch_readCb) =
      run_all run ((([] @ ?f1) @ ?f2) @ ?f3) w"
    by (rule bindR_fire [where guard = revents_read and cb = ch_readCb and fs = "([] @ ?f1) @ ?f2" and gs = "?f3 @ ?f4 @ gs", OF along sees _ view(3)]) (use Q in \<open>simp add: fired\<close>)
  also have "bindR (run_all run ((([] @ ?f1) @ ?f2) @ ?f3) w) (Channel_fire run self revents_write ch_writeCb) =
      run_all run (((([] @ ?f1) @ ?f2) @ ?f3) @ ?f4) w"
    by (rule bindR_fire [where guard = revents_write and cb = ch_writeCb and fs = "(([] @ ?f1) @ ?f2) @ ?f3" and gs = "?f4 @ gs", OF along sees _ view(4)]) (use Q in \<open>simp add: fired\<close>)
  also have "\<dots> = run_all run (fired_callbacks ch) w" by (simp add: fired)
  finally show ?thesis .
qed

lemma keeps_view_along:
  assumes "keeps_view run self"
  shows "runs_along (\<lambda>_ w. \<exists>ch1. self w = Some ch1 \<and> ch_view ch1 = v) run"
  using assms unfolding keeps_view_def runs_along_def by fastforce

lemma Channel_handleEvent_runs:
  assumes "keeps_view run self" and "self w = Some ch"
  shows "Channel_handleEvent run self w = run_all run (fired_callbacks ch) w"
  by (rule Channel_handleEvent_along [where gs = "[]", OF keeps_view_along [where v = "ch_view ch", OF assms(1)]])
    (simp_all add: sees_def assms(2))

section \<open>Properties\<close>

text \<open>One report runs, in this order, the close callback (hang-up without readable data),
  the error callback, the read callback and the write callback, each only if its bits are
  reported and it is set, and stops at the first that faults, provided the callbacks leave the
  channel object alive with its report and its callbacks (its interest mask they may change).\<close>

theorem handleEvent_order:
  assumes "keeps_view run self" and "self w = Some ch"
  shows "Channel_handleEvent run self w =
    run_all run
      ((if ch_revents ch AND 16 \<noteq> 0 \<and> ch_revents ch AND 1 = 0
        then (case ch_closeCb ch of None \<Rightarrow> [] | Some f \<Rightarrow> [f]) else []) @
       (if ch_revents ch AND 40 \<noteq> 0 then (case ch_errorCb ch of None \<Rightarrow> [] | Some f \<Rightarrow> [f]) else []) @
       (if ch_revents ch AND 8195 \<noteq> 0 then (case ch_readCb ch of None \<Rightarrow> [] | Some f \<Rightarrow> [f]) else []) @
       (if ch_revents ch AND 4 \<noteq> 0 then (case ch_writeCb ch of None \<Rightarrow> [] | Some f \<Rightarrow> [f]) else [])) w"
proof -
  have "Channel_handleEvent run self w = run_all run (fired_callbacks ch) w"
    using assms by (rule Channel_handleEvent_runs)
  then show ?thesis
    by (simp add: fired_callbacks_def revents_close_def revents_error_def revents_read_def
        revents_write_def event_defs)
qed

lemma handleEvent_order_witness:
  "Channel_handleEvent (\<lambda>f w. Inr (w @ [f]))
     (\<lambda>_. Some ((Channel_new 7)\<lparr>ch_revents := 8208, ch_readCb := Some ''read'', ch_closeCb := Some ''close''\<rparr>))
     [] = Inr [''close'', ''read'']"
proof -
  let ?ch = "(Channel_new 7)\<lparr>ch_revents := 8208, ch_readCb := Some ''read'',
      ch_closeCb := Some ''close''\<rparr>"
  show ?thesis
    using handleEvent_order [of "\<lambda>f w. Inr (w @ [f])" "\<lambda>_. Some ?ch" "[]" ?ch]
    by (simp add: Channel_new_def keeps_view_def)
qed

text \<open>A read callback that destroys its own channel makes \<^verbatim>\<open>handleEvent\<close> read freed memory:
  the guard of the write callback is evaluated after it.\<close>

theorem handleEvent_use_after_free:
  assumes "self w = Some ch" and "ch_revents ch AND 16 = 0" and "ch_revents ch AND 40 = 0"
    and "ch_revents ch AND 8195 \<noteq> 0" and "ch_readCb ch = Some f"
    and "run f w = Inr w1" and "self w1 = None"
  shows "Channel_handleEvent run self w = Inl (Undefined ''handleEvent on a destroyed channel'')"
  using assms
  by (simp add: Channel_handleEvent_def Channel_fire_def revents_close_def revents_error_def
      revents_read_def event_defs)

lemma handleEvent_use_after_free_witness:
  "Channel_handleEvent (\<lambda>_ _. Inr None) (\<lambda>w. w)
     (Some ((Channel_new 7)\<lparr>ch_revents := 1, ch_readCb := Some ()\<rparr>)) =
   Inl (Undefined ''handleEvent on a destroyed channel'')"
  by (rule handleEvent_use_after_free) (auto simp: Channel_new_def)

end
