(* ===== verification/Lotta_Timer_Queue.thy ===== *)
theory Lotta_Timer_Queue
  imports Lotta_Channel Complex_Main "HOL-Library.Multiset"
begin

text \<open>
  \<^verbatim>\<open>Timer\<close> and \<^verbatim>\<open>TimerQueue\<close> (\<^verbatim>\<open>src/timer.cc\<close>, \<^verbatim>\<open>src/timer_queue.cc\<close>) with the
  \<^verbatim>\<open>EventLoop\<close> operations in front of them (\<^verbatim>\<open>runAfter\<close>, \<^verbatim>\<open>runEvery\<close>, \<^verbatim>\<open>cancel\<close>).

  Times are the integer nanosecond ticks of \<^verbatim>\<open>steady_clock\<close>; an interval in seconds is a rational
  (the rounding of a \<^verbatim>\<open>double\<close> product is not modelled). \<^verbatim>\<open>clk\<close> is the stream of readings of
  \<^verbatim>\<open>clock::now()\<close>, \<open>tq_reads\<close> how many were taken. A timer object is an entry of the heap
  \<open>tq_heap\<close>; a \<^verbatim>\<open>weak_ptr\<close> can be locked as long as one of the maps, the running handler or a
  queued task holds the object. The \<^verbatim>\<open>timerfd\<close> is the log of what the code did with it. Callbacks act
  on any extension of the queue's record: in the theory of the reactor, on the whole loop.
\<close>

section \<open>Timers\<close>

definition duration_cast :: "rat \<Rightarrow> int" where
  "duration_cast seconds =
     (let ticks = seconds * 1000000000 in if ticks < 0 then \<lceil>ticks\<rceil> else \<lfloor>ticks\<rfloor>)"

record 'cb timer =
  tm_callback :: 'cb
  tm_when :: int
  tm_interval :: rat
  tm_repeat :: bool

definition Timer_new :: "'cb \<Rightarrow> int \<Rightarrow> rat \<Rightarrow> 'cb timer" where
  "Timer_new callback time interval =
     \<lparr>tm_callback = callback, tm_when = time, tm_interval = interval, tm_repeat = 0 < interval\<rparr>"

definition Timer_restart :: "'cb timer \<Rightarrow> 'cb timer" where
  "Timer_restart tm =
     (if tm_repeat tm then tm\<lparr>tm_when := tm_when tm + duration_cast (tm_interval tm)\<rparr> else tm)"

section \<open>The multimap of deadlines\<close>

type_synonym timer_entry = "int \<times> nat"

definition multimap_insert :: "timer_entry \<Rightarrow> timer_entry list \<Rightarrow> timer_entry list" where
  "multimap_insert e m =
     takeWhile (\<lambda>x. fst x \<le> fst e) m @ e # dropWhile (\<lambda>x. fst x \<le> fst e) m"

definition lower_bound :: "timer_entry list \<Rightarrow> int \<Rightarrow> nat" where
  "lower_bound m k = length (takeWhile (\<lambda>x. fst x < k) m)"

definition upper_bound :: "timer_entry list \<Rightarrow> int \<Rightarrow> nat" where
  "upper_bound m k = length (takeWhile (\<lambda>x. fst x \<le> k) m)"

definition multimap_erase :: "nat \<Rightarrow> timer_entry list \<Rightarrow> timer_entry list" where
  "multimap_erase i m = take i m @ drop (Suc i) m"

definition findTimer :: "timer_entry list \<Rightarrow> timer_entry \<Rightarrow> nat \<times> bool" where
  "findTimer m entry =
     (let lo = lower_bound m (fst entry); hi = upper_bound m (fst entry);
          it = lo + length (takeWhile (\<lambda>item. snd entry \<noteq> snd item) (take (hi - lo) (drop lo m)))
      in (it, hi \<noteq> it))"

section \<open>State\<close>

datatype timer_task = AddTask nat | CancelTask nat

datatype fd_event =
    SetTime int int int   \<comment> \<open>clock reading, \<^verbatim>\<open>tv_sec\<close>, \<^verbatim>\<open>tv_nsec\<close>\<close>
  | ReadFd

record 'cb timer_queue =
  tq_heap :: "nat \<rightharpoonup> 'cb timer"
  tq_next :: nat                          \<comment> \<open>identity of the next \<^verbatim>\<open>make_shared\<close>\<close>
  tq_timers :: "timer_entry list"         \<comment> \<open>\<^verbatim>\<open>timers_\<close>\<close>
  tq_doing :: bool                        \<comment> \<open>\<^verbatim>\<open>doingTimerCallback_\<close>\<close>
  tq_cancelled :: "timer_entry list"      \<comment> \<open>\<^verbatim>\<open>cancelledTimers_\<close>\<close>
  tq_expired :: "timer_entry list"        \<comment> \<open>the local \<^verbatim>\<open>expired\<close> of a running \<^verbatim>\<open>handleTimer\<close>\<close>
  tq_queued :: "timer_task list"          \<comment> \<open>tasks other threads left in \<^verbatim>\<open>funcQueue_\<close>\<close>
  tq_fdlog :: "fd_event list"
  tq_reads :: nat

definition TimerQueue_new :: "'cb timer_queue" where
  "TimerQueue_new = \<lparr>tq_heap = Map.empty, tq_next = 0, tq_timers = [], tq_doing = False,
     tq_cancelled = [], tq_expired = [], tq_queued = [], tq_fdlog = [], tq_reads = 0\<rparr>"

section \<open>Operations\<close>

fun task_timer :: "timer_task \<Rightarrow> nat" where
  "task_timer (AddTask t) = t"
| "task_timer (CancelTask t) = t"

text \<open>\<^verbatim>\<open>weak_ptr::lock\<close> succeeds as long as a \<^verbatim>\<open>shared_ptr\<close> to the timer exists.\<close>

definition Timer_alive :: "('cb, 'z) timer_queue_scheme \<Rightarrow> nat \<Rightarrow> bool" where
  "Timer_alive q t \<longleftrightarrow>
     t \<in> snd ` set (tq_timers q) \<union> snd ` set (tq_cancelled q) \<union> snd ` set (tq_expired q) \<union>
         task_timer ` set (tq_queued q)"

definition resetTimerFd :: "(nat \<Rightarrow> int) \<Rightarrow> int \<Rightarrow> ('cb, 'z) timer_queue_scheme \<Rightarrow> ('cb, 'z) timer_queue_scheme" where
  "resetTimerFd clk point q =
     (let now = clk (tq_reads q);
          nanoseconds = point - now;
          sec = sgn nanoseconds * (\<bar>nanoseconds\<bar> div 1000000000);
          nsec = sgn nanoseconds * (\<bar>nanoseconds\<bar> mod 1000000000)
      in q\<lparr>tq_reads := Suc (tq_reads q), tq_fdlog := tq_fdlog q @ [SetTime now sec nsec]\<rparr>)"

definition pushTimerToMap :: "nat \<Rightarrow> ('cb, 'z) timer_queue_scheme \<Rightarrow> (bool \<times> ('cb, 'z) timer_queue_scheme) res" where
  "pushTimerToMap t q = derefR (tq_heap q t) ''timer'' (\<lambda>tm.
     let pushedToFirst = (case tq_timers q of [] \<Rightarrow> True | e # _ \<Rightarrow> tm_when tm < fst e)
     in Inr (pushedToFirst, q\<lparr>tq_timers := multimap_insert (tm_when tm, t) (tq_timers q)\<rparr>))"

definition TimerQueue_addTask :: "(nat \<Rightarrow> int) \<Rightarrow> bool \<Rightarrow> nat \<Rightarrow> ('cb, 'z) timer_queue_scheme \<Rightarrow> ('cb, 'z) timer_queue_scheme res" where
  "TimerQueue_addTask clk inLoop t q = assertR inLoop ''isTheSameThread()'' (
     derefR (tq_heap q t) ''timer'' (\<lambda>tm.
       let time = tm_when tm in
       bindR (pushTimerToMap t q) (\<lambda>(pushedToFirst, q1).
         Inr (if pushedToFirst then resetTimerFd clk time q1 else q1))))"

definition TimerQueue_cancelTask :: "bool \<Rightarrow> nat \<Rightarrow> ('cb, 'z) timer_queue_scheme \<Rightarrow> ('cb, 'z) timer_queue_scheme res" where
  "TimerQueue_cancelTask inLoop t q = assertR inLoop ''isTheSameThread()'' (
     derefR (tq_heap q t) ''timer'' (\<lambda>tm.
       let (it, isFound) = findTimer (tq_timers q) (tm_when tm, t) in
       Inr (if isFound then q\<lparr>tq_timers := multimap_erase it (tq_timers q)\<rparr>
            else if tq_doing q
              then q\<lparr>tq_cancelled := multimap_insert (tm_when tm, t) (tq_cancelled q)\<rparr>
            else q)))"

definition TimerQueue_addTimer ::
  "(nat \<Rightarrow> int) \<Rightarrow> bool \<Rightarrow> 'cb \<Rightarrow> int \<Rightarrow> rat \<Rightarrow> ('cb, 'z) timer_queue_scheme \<Rightarrow> (nat \<times> ('cb, 'z) timer_queue_scheme) res" where
  "TimerQueue_addTimer clk inLoop callback time interval q =
     (let t = tq_next q;
          q1 = q\<lparr>tq_heap := (tq_heap q)(t \<mapsto> Timer_new callback time interval), tq_next := Suc t\<rparr>
      in if inLoop
         then bindR (TimerQueue_addTask clk inLoop t q1) (\<lambda>q2. Inr (t, q2))
         else Inr (t, q1\<lparr>tq_queued := tq_queued q @ [AddTask t]\<rparr>))"

definition TimerQueue_cancel :: "bool \<Rightarrow> nat \<Rightarrow> ('cb, 'z) timer_queue_scheme \<Rightarrow> ('cb, 'z) timer_queue_scheme res" where
  "TimerQueue_cancel inLoop t q = assertR (Timer_alive q t) ''timer != nullptr'' (
     if inLoop then TimerQueue_cancelTask inLoop t q
     else Inr (q\<lparr>tq_queued := tq_queued q @ [CancelTask t]\<rparr>))"

definition EventLoop_runAfter ::
  "(nat \<Rightarrow> int) \<Rightarrow> bool \<Rightarrow> 'cb \<Rightarrow> rat \<Rightarrow> ('cb, 'z) timer_queue_scheme \<Rightarrow> (nat \<times> ('cb, 'z) timer_queue_scheme) res" where
  "EventLoop_runAfter clk inLoop func interval q =
     (let point = duration_cast (of_int (clk (tq_reads q)) / 1000000000 + interval)
      in TimerQueue_addTimer clk inLoop func point 0 (q\<lparr>tq_reads := Suc (tq_reads q)\<rparr>))"

definition EventLoop_runEvery ::
  "(nat \<Rightarrow> int) \<Rightarrow> bool \<Rightarrow> 'cb \<Rightarrow> rat \<Rightarrow> ('cb, 'z) timer_queue_scheme \<Rightarrow> (nat \<times> ('cb, 'z) timer_queue_scheme) res" where
  "EventLoop_runEvery clk inLoop func interval q =
     (let point = duration_cast (of_int (clk (tq_reads q)) / 1000000000 + interval)
      in TimerQueue_addTimer clk inLoop func point interval (q\<lparr>tq_reads := Suc (tq_reads q)\<rparr>))"

definition EventLoop_cancel :: "bool \<Rightarrow> nat \<Rightarrow> ('cb, 'z) timer_queue_scheme \<Rightarrow> ('cb, 'z) timer_queue_scheme res" where
  "EventLoop_cancel inLoop t q = TimerQueue_cancel inLoop t q"

text \<open>What \<^verbatim>\<open>doFuncQueue\<close> does with one task another thread left in the queue.\<close>

definition TimerQueue_runTask :: "(nat \<Rightarrow> int) \<Rightarrow> ('cb, 'z) timer_queue_scheme \<Rightarrow> ('cb, 'z) timer_queue_scheme res" where
  "TimerQueue_runTask clk q = (case tq_queued q of
     [] \<Rightarrow> Inr q
   | AddTask t # rest \<Rightarrow> TimerQueue_addTask clk True t (q\<lparr>tq_queued := rest\<rparr>)
   | CancelTask t # rest \<Rightarrow> TimerQueue_cancelTask True t (q\<lparr>tq_queued := rest\<rparr>))"

definition expireTimers :: "int \<Rightarrow> ('cb, 'z) timer_queue_scheme \<Rightarrow> (timer_entry list \<times> ('cb, 'z) timer_queue_scheme) res" where
  "expireTimers now q =
     (let expiredEnd = lower_bound (tq_timers q) now
      in assertR (expiredEnd = length (tq_timers q) \<or> now < fst (tq_timers q ! expiredEnd))
           ''expiredEnd == timers_.end() || now < expiredEnd->first''
           (Inr (take expiredEnd (tq_timers q), q\<lparr>tq_timers := drop expiredEnd (tq_timers q)\<rparr>)))"

fun run_expired ::
  "('cb \<Rightarrow> ('cb, 'z) timer_queue_scheme \<Rightarrow> ('cb, 'z) timer_queue_scheme res) \<Rightarrow> timer_entry list \<Rightarrow> ('cb, 'z) timer_queue_scheme \<Rightarrow> ('cb, 'z) timer_queue_scheme res" where
  "run_expired run [] q = Inr q"
| "run_expired run (item # items) q = derefR (tq_heap q (snd item)) ''timer'' (\<lambda>tm.
     bindR (run (tm_callback tm) q) (run_expired run items))"

fun restart_expired :: "timer_entry list \<Rightarrow> ('cb, 'z) timer_queue_scheme \<Rightarrow> ('cb, 'z) timer_queue_scheme res" where
  "restart_expired [] q = Inr q"
| "restart_expired (entry # entries) q = derefR (tq_heap q (snd entry)) ''timer'' (\<lambda>tm.
     let (_, isCancelledWhenCallback) = findTimer (tq_cancelled q) entry in
     if tm_repeat tm \<and> \<not> isCancelledWhenCallback
     then bindR (pushTimerToMap (snd entry)
                   (q\<lparr>tq_heap := (tq_heap q)(snd entry \<mapsto> Timer_restart tm)\<rparr>))
            (\<lambda>(_, q1). restart_expired entries q1)
     else restart_expired entries q)"

definition resetTimers :: "(nat \<Rightarrow> int) \<Rightarrow> int \<Rightarrow> timer_entry list \<Rightarrow> ('cb, 'z) timer_queue_scheme \<Rightarrow> ('cb, 'z) timer_queue_scheme res" where
  "resetTimers clk now expired q = bindR (restart_expired expired q) (\<lambda>q1.
     Inr (case tq_timers q1 of
            [] \<Rightarrow> q1
          | e # _ \<Rightarrow> if now < fst e then resetTimerFd clk (fst e) q1 else q1))"

definition TimerQueue_handleTimer ::
  "(nat \<Rightarrow> int) \<Rightarrow> ('cb \<Rightarrow> ('cb, 'z) timer_queue_scheme \<Rightarrow> ('cb, 'z) timer_queue_scheme res) \<Rightarrow> bool \<Rightarrow> ('cb, 'z) timer_queue_scheme \<Rightarrow> ('cb, 'z) timer_queue_scheme res" where
  "TimerQueue_handleTimer clk run inLoop q = assertR inLoop ''isTheSameThread()'' (
     let now = clk (tq_reads q);
         q1 = q\<lparr>tq_reads := Suc (tq_reads q), tq_fdlog := tq_fdlog q @ [ReadFd]\<rparr>
     in bindR (expireTimers now q1) (\<lambda>(expired, q2).
        bindR (run_expired run expired
                 (q2\<lparr>tq_expired := expired, tq_doing := True, tq_cancelled := []\<rparr>)) (\<lambda>q3.
        bindR (resetTimers clk now expired (q3\<lparr>tq_doing := False\<rparr>)) (\<lambda>q4.
        Inr (q4\<lparr>tq_expired := []\<rparr>)))))"

text \<open>User callbacks as data: the timer calls a callback makes, in order.\<close>

datatype timer_cmd =
    RunAfter "timer_cmd list" rat
  | RunEvery "timer_cmd list" rat
  | Cancel nat

fun run_cmd :: "(nat \<Rightarrow> int) \<Rightarrow> timer_cmd \<Rightarrow> (timer_cmd list, 'z) timer_queue_scheme \<Rightarrow> (timer_cmd list, 'z) timer_queue_scheme res" where
  "run_cmd clk (RunAfter cb d) q = bindR (EventLoop_runAfter clk True cb d q) (\<lambda>(_, q1). Inr q1)"
| "run_cmd clk (RunEvery cb d) q = bindR (EventLoop_runEvery clk True cb d q) (\<lambda>(_, q1). Inr q1)"
| "run_cmd clk (Cancel t) q = EventLoop_cancel True t q"

fun run_cmds :: "(nat \<Rightarrow> int) \<Rightarrow> timer_cmd list \<Rightarrow> (timer_cmd list, 'z) timer_queue_scheme \<Rightarrow> (timer_cmd list, 'z) timer_queue_scheme res" where
  "run_cmds clk [] q = Inr q"
| "run_cmds clk (c # cs) q = bindR (run_cmd clk c q) (run_cmds clk cs)"

section \<open>Lemmas on the multimap\<close>

abbreviation deadlines_sorted :: "timer_entry list \<Rightarrow> bool" where
  "deadlines_sorted m \<equiv> sorted (map fst m)"

lemma mset_multimap_insert [simp]: "mset (multimap_insert e m) = add_mset e (mset m)"
proof -
  have "mset m = mset (takeWhile (\<lambda>x. fst x \<le> fst e) m) + mset (dropWhile (\<lambda>x. fst x \<le> fst e) m)"
    by (metis mset_append takeWhile_dropWhile_id)
  then show ?thesis by (simp add: multimap_insert_def)
qed

lemma set_multimap_insert [simp]: "set (multimap_insert e m) = insert e (set m)"
  by (metis mset_multimap_insert set_mset_add_mset_insert set_mset_mset)

lemma sorted_takeWhile_le:
  "deadlines_sorted m \<Longrightarrow> x \<in> set (dropWhile (\<lambda>x. fst x \<le> k) m) \<Longrightarrow> k < fst x"
  by (induction m) (auto split: if_splits)

lemma sorted_dropWhile_less:
  "deadlines_sorted m \<Longrightarrow> x \<in> set (dropWhile (\<lambda>x. fst x < k) m) \<Longrightarrow> k \<le> fst x"
  by (induction m) (auto split: if_splits)

lemma sorted_split:
  assumes "deadlines_sorted m"
  shows "deadlines_sorted (takeWhile P m)" and "deadlines_sorted (dropWhile P m)"
  using assms by (metis map_append sorted_append takeWhile_dropWhile_id)+

lemma sorted_multimap_insert [intro]:
  assumes "deadlines_sorted m"
  shows "deadlines_sorted (multimap_insert e m)"
proof -
  let ?A = "takeWhile (\<lambda>x. fst x \<le> fst e) m" and ?B = "dropWhile (\<lambda>x. fst x \<le> fst e) m"
  have A: "\<forall>x \<in> set ?A. fst x \<le> fst e" by (auto dest: set_takeWhileD)
  have B: "\<forall>x \<in> set ?B. fst e < fst x" using sorted_takeWhile_le [OF assms] by blast
  show ?thesis
    unfolding multimap_insert_def using A B sorted_split [OF assms, of "\<lambda>x. fst x \<le> fst e"]
    by (fastforce simp: sorted_append)
qed

lemma sorted_range:
  assumes "deadlines_sorted m"
  obtains L E G where "m = L @ E @ G" "length L = lower_bound m k" "length (L @ E) = upper_bound m k"
    "\<forall>x \<in> set L. fst x < k" "\<forall>x \<in> set E. fst x = k" "\<forall>x \<in> set G. k < fst x"
proof
  let ?L = "takeWhile (\<lambda>x. fst x < k) m" and ?D = "dropWhile (\<lambda>x. fst x < k) m"
  let ?E = "takeWhile (\<lambda>x. fst x \<le> k) ?D" and ?G = "dropWhile (\<lambda>x. fst x \<le> k) ?D"
  show "m = ?L @ ?E @ ?G" by simp
  show "length ?L = lower_bound m k" by (simp add: lower_bound_def)
  have "takeWhile (\<lambda>x. fst x \<le> k) m = takeWhile (\<lambda>x. fst x \<le> k) (?L @ ?D)" by simp
  also have "\<dots> = ?L @ ?E" by (rule takeWhile_append2) (auto dest: set_takeWhileD)
  finally show "length (?L @ ?E) = upper_bound m k" by (simp add: upper_bound_def)
  show "\<forall>x \<in> set ?L. fst x < k" by (auto dest: set_takeWhileD)
  show "\<forall>x \<in> set ?E. fst x = k"
    using sorted_dropWhile_less [OF assms, of _ k] by (fastforce dest: set_takeWhileD)
  show "\<forall>x \<in> set ?G. k < fst x"
    using sorted_takeWhile_le [of ?D _ k] sorted_split [OF assms] by blast
qed

lemma findTimer_split:
  assumes "deadlines_sorted m"
  obtains A B where "findTimer m (k, t) = (length A, (k, t) \<in> set m)"
    "m = A @ B" "(k, t) \<in> set m \<Longrightarrow> \<exists>B'. B = (k, t) # B'"
proof -
  obtain L E G where m: "m = L @ E @ G" and lo: "length L = lower_bound m k"
    and hi: "length (L @ E) = upper_bound m k" and parts: "\<forall>x \<in> set L. fst x < k"
    "\<forall>x \<in> set E. fst x = k" "\<forall>x \<in> set G. k < fst x"
    using assms by (rule sorted_range)
  let ?A = "takeWhile (\<lambda>item. t \<noteq> snd item) E" and ?B = "dropWhile (\<lambda>item. t \<noteq> snd item) E"
  have range: "take (upper_bound m k - lower_bound m k) (drop (lower_bound m k) m) = E"
    unfolding hi [symmetric] lo [symmetric] by (subst m) simp
  have mem: "(k, t) \<in> set m \<longleftrightarrow> (\<exists>x \<in> set E. t = snd x)"
    using parts by (subst m) force
  have "?A = E \<longleftrightarrow> (k, t) \<notin> set m" unfolding mem by (auto simp: takeWhile_eq_all_conv)
  moreover have "length ?A = length E \<longleftrightarrow> ?A = E"
    by (metis append.right_neutral append_eq_conv_conj takeWhile_dropWhile_id takeWhile_eq_take)
  ultimately have "findTimer m (k, t) = (length (L @ ?A), (k, t) \<in> set m)"
    using hi lo by (auto simp: findTimer_def Let_def range)
  moreover have "m = (L @ ?A) @ (?B @ G)" by (subst m) simp
  moreover have "\<exists>B'. ?B @ G = (k, t) # B'" if "(k, t) \<in> set m"
  proof -
    have ne: "?B \<noteq> []" using that unfolding mem by (auto simp: dropWhile_eq_Nil_conv)
    then have "t = snd (hd ?B)" using hd_dropWhile [OF ne] by blast
    moreover have "hd ?B \<in> set E" using ne by (metis hd_in_set set_dropWhileD)
    ultimately have "hd ?B = (k, t)" using parts(2) by (simp add: prod_eq_iff)
    with ne show ?thesis by (cases ?B) auto
  qed
  ultimately show thesis by (rule that)
qed

lemma findTimer_found: "deadlines_sorted m \<Longrightarrow> snd (findTimer m (k, t)) \<longleftrightarrow> (k, t) \<in> set m"
  by (metis findTimer_split snd_conv)

lemma findTimer_erase:
  assumes "deadlines_sorted m" "findTimer m (k, t) = (it, True)"
  shows "(k, t) \<in> set m" and "mset (multimap_erase it m) = mset m - {#(k, t)#}"
    and "deadlines_sorted (multimap_erase it m)"
proof -
  obtain A B where *: "findTimer m (k, t) = (length A, (k, t) \<in> set m)"
    "m = A @ B" "(k, t) \<in> set m \<Longrightarrow> \<exists>B'. B = (k, t) # B'"
    using findTimer_split [OF assms(1), of k t] by blast
  with assms(2) show mem: "(k, t) \<in> set m" by simp
  with * obtain B' where m: "m = A @ (k, t) # B'" by blast
  from * assms(2) have it: "it = length A" by simp
  show "mset (multimap_erase it m) = mset m - {#(k, t)#}"
    unfolding multimap_erase_def it m by simp
  show "deadlines_sorted (multimap_erase it m)"
    using assms(1) unfolding multimap_erase_def it m by (auto simp: sorted_append)
qed

lemma distinct_multimap_erase:
  "distinct (map snd m) \<Longrightarrow> distinct (map snd (multimap_erase i m))"
  unfolding multimap_erase_def map_append take_map [symmetric] drop_map [symmetric]
  by (simp add: set_take_disj_set_drop_if_distinct)

lemma findTimer_missing: "deadlines_sorted m \<Longrightarrow> findTimer m (k, t) = (it, False) \<Longrightarrow> (k, t) \<notin> set m"
  using findTimer_found [of m k t] by simp

section \<open>Invariant\<close>

definition added_ids :: "timer_task list \<Rightarrow> nat list" where
  "added_ids ts = concat (map (\<lambda>x. case x of AddTask t \<Rightarrow> [t] | CancelTask t \<Rightarrow> []) ts)"

lemma added_ids_simps [simp]:
  "added_ids [] = []" "added_ids (AddTask t # ts) = t # added_ids ts"
  "added_ids (CancelTask t # ts) = added_ids ts" "added_ids (ts @ us) = added_ids ts @ added_ids us"
  by (simp_all add: added_ids_def)

definition entry_ok :: "('cb, 'z) timer_queue_scheme \<Rightarrow> timer_entry \<Rightarrow> bool" where
  "entry_ok q e \<longleftrightarrow> (\<exists>tm. tq_heap q (snd e) = Some tm \<and> tm_when tm = fst e)"

text \<open>\<open>held\<close> are the entries a running \<^verbatim>\<open>handleTimer\<close> has taken out and not put back yet.\<close>

definition tq_inv :: "timer_entry list \<Rightarrow> ('cb, 'z) timer_queue_scheme \<Rightarrow> bool" where
  "tq_inv held q \<longleftrightarrow>
     deadlines_sorted (tq_timers q) \<and> deadlines_sorted (tq_cancelled q) \<and>
     distinct (map snd (tq_timers q) @ map snd held @ added_ids (tq_queued q)) \<and>
     (\<forall>e \<in> set (tq_timers q) \<union> set held \<union> set (tq_cancelled q). entry_ok q e) \<and>
     (\<forall>t. tq_heap q t \<noteq> None \<longleftrightarrow> t < tq_next q) \<and>
     (\<forall>k \<in> set (tq_queued q). task_timer k < tq_next q)"

abbreviation tq_wf :: "('cb, 'z) timer_queue_scheme \<Rightarrow> bool" where
  "tq_wf q \<equiv> tq_inv (tq_expired q) q"

definition tq_idle :: "('cb, 'z) timer_queue_scheme \<Rightarrow> bool" where
  "tq_idle q \<longleftrightarrow> tq_inv [] q \<and> tq_expired q = [] \<and> \<not> tq_doing q"

lemma tq_idle_new [simp, wf_intros]: "tq_idle TimerQueue_new"
  by (simp add: tq_idle_def tq_inv_def TimerQueue_new_def)

lemma tq_inv_heap: "tq_inv held q \<Longrightarrow> t < tq_next q \<Longrightarrow> \<exists>tm. tq_heap q t = Some tm"
  by (auto simp: tq_inv_def)

lemma tq_inv_known: "tq_inv held q \<Longrightarrow> tq_heap q t = Some tm \<Longrightarrow> t < tq_next q"
  unfolding tq_inv_def by (metis option.distinct(1))

lemma added_ids_in: "t \<in> set (added_ids ts) \<Longrightarrow> AddTask t \<in> set ts"
  by (auto simp: added_ids_def split: timer_task.splits)

text \<open>What the loop's own operations leave alone.\<close>

definition tq_frame :: "('cb, 'z) timer_queue_scheme \<Rightarrow> ('cb, 'z) timer_queue_scheme \<Rightarrow> bool" where
  "tq_frame q q' \<longleftrightarrow> tq_expired q' = tq_expired q \<and> tq_doing q' = tq_doing q \<and>
     tq_next q \<le> tq_next q' \<and> (\<forall>t < tq_next q. tq_heap q' t = tq_heap q t)"

lemma tq_frame_refl [simp]: "tq_frame q q"
  by (simp add: tq_frame_def)

lemma tq_frame_trans: "tq_frame q q1 \<Longrightarrow> tq_frame q1 q2 \<Longrightarrow> tq_frame q q2"
  by (auto simp: tq_frame_def)

lemma resetTimerFd_fields [simp]:
  "tq_heap (resetTimerFd clk p q) = tq_heap q" "tq_next (resetTimerFd clk p q) = tq_next q"
  "tq_timers (resetTimerFd clk p q) = tq_timers q" "tq_doing (resetTimerFd clk p q) = tq_doing q"
  "tq_cancelled (resetTimerFd clk p q) = tq_cancelled q"
  "tq_expired (resetTimerFd clk p q) = tq_expired q"
  "tq_queued (resetTimerFd clk p q) = tq_queued q"
  by (simp_all add: resetTimerFd_def Let_def)

lemma tq_inv_cong:
  assumes "tq_inv held q" and "tq_heap q' = tq_heap q" "tq_next q' = tq_next q"
    "tq_timers q' = tq_timers q" "tq_cancelled q' = tq_cancelled q" "tq_queued q' = tq_queued q"
  shows "tq_inv held q'"
  using assms by (simp add: tq_inv_def entry_ok_def)

lemma tq_inv_reset [simp]: "tq_inv held (resetTimerFd clk p q) \<longleftrightarrow> tq_inv held q"
  by (auto elim: tq_inv_cong)

lemma addTask_result:
  assumes "tq_heap q t = Some tm"
  shows "\<exists>q1. TimerQueue_addTask clk True t q = Inr q1 \<and>
     tq_timers q1 = multimap_insert (tm_when tm, t) (tq_timers q) \<and>
     (q1 = q\<lparr>tq_timers := tq_timers q1\<rparr> \<or>
      q1 = resetTimerFd clk (tm_when tm) (q\<lparr>tq_timers := tq_timers q1\<rparr>))"
  using assms by (auto simp: TimerQueue_addTask_def pushTimerToMap_def Let_def split: if_splits)

lemma addTask_inv:
  assumes inv: "tq_inv held q" and heap: "tq_heap q t = Some tm"
    and new: "t \<notin> set (map snd (tq_timers q) @ map snd held @ added_ids (tq_queued q))"
  shows "\<exists>q1. TimerQueue_addTask clk True t q = Inr q1 \<and> tq_inv held q1 \<and> tq_frame q q1 \<and>
     tq_timers q1 = multimap_insert (tm_when tm, t) (tq_timers q)"
proof -
  let ?q = "q\<lparr>tq_timers := multimap_insert (tm_when tm, t) (tq_timers q)\<rparr>"
  have "distinct (map snd (multimap_insert (tm_when tm, t) (tq_timers q)))"
    using inv new unfolding tq_inv_def
    by (metis (no_types, lifting) Un_iff distinct.simps(2) distinct_append mset_eq_imp_distinct_iff
        mset_map mset_multimap_insert list.simps(9) mset.simps(2) set_append snd_conv)
  then have "tq_inv held ?q"
    using inv heap new by (auto simp: tq_inv_def entry_ok_def image_iff)
  then show ?thesis
    using addTask_result [OF heap, of clk] by (auto simp: tq_frame_def)
qed

lemma tq_inv_fewer:
  assumes inv: "tq_inv held q" and sub: "set m \<subseteq> set (tq_timers q)"
    and sorted: "deadlines_sorted m" and dist: "distinct (map snd m)"
  shows "tq_inv held (q\<lparr>tq_timers := m\<rparr>)"
proof -
  have ids: "snd ` set m \<subseteq> snd ` set (tq_timers q)" using sub by blast
  let ?rest = "map snd held @ added_ids (tq_queued q)"
  have "distinct (map snd (tq_timers q) @ ?rest)" using inv by (simp add: tq_inv_def)
  then have rest: "distinct ?rest" "snd ` set (tq_timers q) \<inter> set ?rest = {}"
    unfolding distinct_append by auto
  then have "set (map snd m) \<inter> set ?rest = {}" using ids unfolding set_map by blast
  then have "distinct (map snd m @ ?rest)" using dist rest(1) by (simp only: distinct_append)
  moreover have "\<forall>e \<in> set (tq_timers q) \<union> set held \<union> set (tq_cancelled q). entry_ok q e"
    using inv by (simp add: tq_inv_def)
  then have "\<forall>e \<in> set m \<union> set held \<union> set (tq_cancelled q). entry_ok q e" using sub by blast
  ultimately show ?thesis
    using inv sorted unfolding tq_inv_def entry_ok_def by simp
qed

lemma cancelTask_inv:
  assumes inv: "tq_inv held q" and heap: "tq_heap q t = Some tm"
  shows "\<exists>q1. TimerQueue_cancelTask True t q = Inr q1 \<and> tq_inv held q1 \<and> tq_frame q q1 \<and>
     mset (tq_timers q1) = mset (tq_timers q) - {#(tm_when tm, t)#} \<and>
     tq_fdlog q1 = tq_fdlog q \<and> tq_reads q1 = tq_reads q \<and> tq_queued q1 = tq_queued q"
proof -
  obtain it found where find: "findTimer (tq_timers q) (tm_when tm, t) = (it, found)" by fastforce
  have sorted: "deadlines_sorted (tq_timers q)" "deadlines_sorted (tq_cancelled q)"
    using inv by (simp_all add: tq_inv_def)
  show ?thesis
  proof (cases found)
    case True
    with find have "findTimer (tq_timers q) (tm_when tm, t) = (it, True)" by simp
    note erase = findTimer_erase [OF sorted(1) this]
    let ?m = "multimap_erase it (tq_timers q)"
    have mem: "set ?m \<subseteq> set (tq_timers q)"
      by (auto simp: multimap_erase_def dest: in_set_takeD in_set_dropD)
    have "distinct (map snd (tq_timers q))" using inv by (simp add: tq_inv_def)
    then have "distinct (map snd ?m)" by (rule distinct_multimap_erase)
    then have "tq_inv held (q\<lparr>tq_timers := ?m\<rparr>)"
      by (rule tq_inv_fewer [OF inv mem erase(3)])
    then show ?thesis
      using heap find True erase by (simp add: TimerQueue_cancelTask_def tq_frame_def)
  next
    case False
    then have "(tm_when tm, t) \<notin># mset (tq_timers q)" using findTimer_missing sorted(1) find by auto
    moreover have "tq_inv held (q\<lparr>tq_cancelled := multimap_insert (tm_when tm, t) (tq_cancelled q)\<rparr>)"
      using inv heap by (auto simp: tq_inv_def entry_ok_def)
    ultimately show ?thesis
      using heap find False inv by (simp add: TimerQueue_cancelTask_def tq_frame_def)
  qed
qed

lemma tq_inv_fresh: "tq_inv held q \<Longrightarrow> tq_next q \<notin> set (map snd (tq_timers q) @ map snd held @ added_ids (tq_queued q))"
  by (auto simp: tq_inv_def entry_ok_def dest!: added_ids_in) (metis UnCI less_irrefl option.distinct(1) snd_conv)+

lemma addTimer_inv:
  assumes inv: "tq_inv held q"
  shows "\<exists>q1. TimerQueue_addTimer clk inLoop cb time interval q = Inr (tq_next q, q1) \<and>
     tq_inv held q1 \<and> tq_frame q q1"
proof -
  let ?t = "tq_next q" and ?tm = "Timer_new cb time interval"
  let ?q = "q\<lparr>tq_heap := (tq_heap q)(?t \<mapsto> ?tm), tq_next := Suc ?t\<rparr>"
  have known: "entry_ok ?q e" if "entry_ok q e" for e
    using that tq_inv_known [OF inv, of "snd e"] by (auto simp: entry_ok_def)
  have held: "tq_inv held ?q"
    using inv known by (auto simp: tq_inv_def less_Suc_eq)
  note new = tq_inv_fresh [OF inv]
  show ?thesis
  proof (cases inLoop)
    case True
    then show ?thesis
      using addTask_inv [OF held, of ?t ?tm clk] new
      by (auto simp: TimerQueue_addTimer_def Let_def tq_frame_def less_Suc_eq)
  next
    case False
    have "tq_inv held (?q\<lparr>tq_queued := tq_queued q @ [AddTask ?t]\<rparr>)"
      using held new by (auto simp: tq_inv_def entry_ok_def)
    with False show ?thesis by (simp add: TimerQueue_addTimer_def Let_def tq_frame_def)
  qed
qed

lemma Timer_alive_known:
  assumes inv: "tq_wf q" and alive: "Timer_alive q t"
  shows "\<exists>tm. tq_heap q t = Some tm"
proof (cases "t \<in> task_timer ` set (tq_queued q)")
  case True
  then show ?thesis using inv unfolding tq_inv_def by auto
next
  case False
  with alive obtain e where "e \<in> set (tq_timers q) \<union> set (tq_expired q) \<union> set (tq_cancelled q)"
    and e: "t = snd e"
    unfolding Timer_alive_def by blast
  moreover have "\<forall>e \<in> set (tq_timers q) \<union> set (tq_expired q) \<union> set (tq_cancelled q). entry_ok q e"
    using inv by (simp add: tq_inv_def)
  ultimately show ?thesis unfolding entry_ok_def e by blast
qed

lemma cancel_inv:
  assumes inv: "tq_wf q"
  shows "(\<not> Timer_alive q t \<and> TimerQueue_cancel inLoop t q = Inl (AssertFail ''timer != nullptr'')) \<or>
     (\<exists>q1. TimerQueue_cancel inLoop t q = Inr q1 \<and> tq_wf q1 \<and> tq_frame q q1)"
proof (cases "Timer_alive q t")
  case True
  then obtain tm where tm: "tq_heap q t = Some tm" using Timer_alive_known [OF inv] by blast
  show ?thesis
  proof (cases inLoop)
    case True
    then show ?thesis
      using cancelTask_inv [OF inv tm] \<open>Timer_alive q t\<close>
      by (auto simp: TimerQueue_cancel_def tq_frame_def)
  next
    case False
    have "tq_wf (q\<lparr>tq_queued := tq_queued q @ [CancelTask t]\<rparr>)"
      using inv tq_inv_known [OF inv tm] by (auto simp: tq_inv_def entry_ok_def)
    with False \<open>Timer_alive q t\<close> show ?thesis by (simp add: TimerQueue_cancel_def tq_frame_def)
  qed
qed (simp add: TimerQueue_cancel_def)

lemma addTimer_frame_wf:
  assumes "tq_wf q" "TimerQueue_addTimer clk inLoop cb time interval q = Inr (t, q1)"
  shows "tq_wf q1 \<and> tq_frame q q1"
  using addTimer_inv [OF assms(1), of clk inLoop cb time interval] assms(2)
  by (auto simp: tq_frame_def)

lemma run_cmd_wf:
  assumes "tq_wf q" "run_cmd clk c q = Inr q1"
  shows "tq_wf q1 \<and> tq_frame q q1"
proof -
  have reads: "tq_wf (q\<lparr>tq_reads := Suc (tq_reads q)\<rparr>)" using assms(1) by (auto elim: tq_inv_cong)
  have frame: "tq_frame (q\<lparr>tq_reads := Suc (tq_reads q)\<rparr>) q1 \<longleftrightarrow> tq_frame q q1"
    by (simp add: tq_frame_def)
  show ?thesis
  proof (cases c)
    case (Cancel t)
    then show ?thesis
      using cancel_inv [OF assms(1), of t True] assms(2) by (auto simp: EventLoop_cancel_def)
  qed (use assms(2) addTimer_frame_wf [OF reads] frame in
        \<open>auto simp: EventLoop_runAfter_def EventLoop_runEvery_def res_iffs Let_def\<close>)
qed

lemma run_cmds_wf: "tq_wf q \<Longrightarrow> run_cmds clk cs q = Inr q1 \<Longrightarrow> tq_wf q1 \<and> tq_frame q q1"
proof (induction cs arbitrary: q)
  case (Cons c cs)
  then obtain q2 where "run_cmd clk c q = Inr q2" "run_cmds clk cs q2 = Inr q1"
    by (auto simp: res_iffs)
  with Cons show ?case using run_cmd_wf tq_frame_trans by metis
qed simp

section \<open>Expiry\<close>

definition due :: "int \<Rightarrow> timer_entry list \<Rightarrow> timer_entry list" where
  "due now m = filter (\<lambda>e. fst e < now) m"

definition rearmed :: "('cb, 'z) timer_queue_scheme \<Rightarrow> timer_entry list \<Rightarrow> timer_entry list" where
  "rearmed q es = map (\<lambda>(w, t). (w + duration_cast (tm_interval (the (tq_heap q t))), t))
     (filter (\<lambda>(w, t). tm_repeat (the (tq_heap q t)) \<and> (w, t) \<notin> set (tq_cancelled q)) es)"

lemma lower_bound_due:
  assumes "deadlines_sorted m"
  shows "take (lower_bound m now) m = due now m"
    and "drop (lower_bound m now) m = filter (\<lambda>e. now \<le> fst e) m"
proof -
  have "take (lower_bound m now) m = takeWhile (\<lambda>x. fst x < now) m"
    "drop (lower_bound m now) m = dropWhile (\<lambda>x. fst x < now) m"
    unfolding lower_bound_def by (simp_all add: takeWhile_eq_take [symmetric] dropWhile_eq_drop)
  moreover have "takeWhile (\<lambda>x. fst x < now) m = due now m"
    "dropWhile (\<lambda>x. fst x < now) m = filter (\<lambda>e. now \<le> fst e) m"
    using assms unfolding due_def
    by (induction m) (force intro!: filter_False [symmetric] filter_True [symmetric])+
  ultimately show "take (lower_bound m now) m = due now m"
    "drop (lower_bound m now) m = filter (\<lambda>e. now \<le> fst e) m" by simp_all
qed

lemma expireTimers_sorted:
  assumes sorted: "deadlines_sorted (tq_timers q)"
  shows "expireTimers now q = assertR (now \<notin> fst ` set (tq_timers q))
     ''expiredEnd == timers_.end() || now < expiredEnd->first''
     (Inr (due now (tq_timers q), q\<lparr>tq_timers := filter (\<lambda>e. now < fst e) (tq_timers q)\<rparr>))"
proof -
  let ?m = "tq_timers q" and ?n = "lower_bound (tq_timers q) now"
  note split = lower_bound_due [OF sorted, of now]
  have le: "?n \<le> length ?m" by (simp add: lower_bound_def length_takeWhile_le)
  have "(?n = length ?m \<or> now < fst (?m ! ?n)) \<longleftrightarrow> now \<notin> fst ` set ?m"
  proof (cases "drop ?n ?m")
    case Nil
    then have "?n = length ?m" using le by simp
    moreover have "\<forall>e \<in> set ?m. \<not> now \<le> fst e" using Nil split(2) by (simp add: filter_empty_conv)
    ultimately show ?thesis by force
  next
    case (Cons e rest)
    then have nth: "?n < length ?m" "?m ! ?n = e"
      using le by (metis drop_eq_Nil leI list.distinct(1), metis hd_drop_conv_nth list.sel(1) drop_eq_Nil leI list.distinct(1))
    have members: "set (e # rest) = {x \<in> set ?m. now \<le> fst x}"
      using Cons split(2) by (metis set_filter)
    then have e: "now \<le> fst e" "e \<in> set ?m" by auto
    have later: "fst e \<le> fst x" if "x \<in> set ?m" "now \<le> fst x" for x
    proof -
      have "x \<in> set (e # rest)" using that members by blast
      moreover have "deadlines_sorted (e # rest)"
        using sorted Cons by (metis drop_map sorted_wrt_drop)
      ultimately show ?thesis by auto
    qed
    then show ?thesis using nth e by force
  qed
  moreover have "filter (\<lambda>e. now \<le> fst e) ?m = filter (\<lambda>e. now < fst e) ?m" if "now \<notin> fst ` set ?m"
    using that by (intro filter_cong) force+
  ultimately show ?thesis
    unfolding expireTimers_def Let_def split by (simp add: assertR_def)
qed

lemma tq_inv_entry:
  "tq_inv held q \<Longrightarrow> e \<in> set (tq_timers q) \<union> set held \<union> set (tq_cancelled q) \<Longrightarrow> entry_ok q e"
  unfolding tq_inv_def by blast

lemma rearmed_cong:
  assumes "\<forall>e \<in> set es. tq_heap q' (snd e) = tq_heap q (snd e)" "tq_cancelled q' = tq_cancelled q"
  shows "rearmed q' es = rearmed q es"
  using assms(1) by (induction es) (auto simp: rearmed_def assms(2))

lemma restart_expired_spec:
  assumes "tq_inv es q"
  shows "\<exists>q1. restart_expired es q = Inr q1 \<and> tq_inv [] q1 \<and>
     mset (tq_timers q1) = mset (tq_timers q) + mset (rearmed q es) \<and>
     tq_expired q1 = tq_expired q \<and> tq_doing q1 = tq_doing q \<and> tq_cancelled q1 = tq_cancelled q \<and>
     tq_queued q1 = tq_queued q \<and> tq_fdlog q1 = tq_fdlog q \<and> tq_reads q1 = tq_reads q"
  using assms
proof (induction es arbitrary: q)
  case Nil
  then show ?case by (simp add: rearmed_def)
next
  case (Cons e es)
  obtain w t where e: "e = (w, t)" by fastforce
  obtain tm where tm: "tq_heap q t = Some tm" "tm_when tm = w"
    using Cons.prems by (auto simp: tq_inv_def entry_ok_def e)
  have dist: "t \<notin> snd ` set (tq_timers q)" "t \<notin> snd ` set es" "t \<notin> set (added_ids (tq_queued q))"
    using Cons.prems by (auto simp: tq_inv_def e)
  have sorted: "deadlines_sorted (tq_cancelled q)" using Cons.prems by (simp add: tq_inv_def)
  have found: "snd (findTimer (tq_cancelled q) (w, t)) \<longleftrightarrow> (w, t) \<in> set (tq_cancelled q)"
    using sorted by (rule findTimer_found)
  show ?case
  proof (cases "tm_repeat tm \<and> (w, t) \<notin> set (tq_cancelled q)")
    case False
    have "tq_inv es q" using Cons.prems by (auto simp: tq_inv_def)
    moreover have "restart_expired (e # es) q = restart_expired es q" "rearmed q (e # es) = rearmed q es"
      using False tm found by (auto simp: e rearmed_def split: prod.splits)
    ultimately show ?thesis using Cons.IH by simp
  next
    case True
    let ?tm = "Timer_restart tm" and ?w = "w + duration_cast (tm_interval tm)"
    let ?q = "q\<lparr>tq_heap := (tq_heap q)(t \<mapsto> ?tm), tq_timers := multimap_insert (?w, t) (tq_timers q)\<rparr>"
    have w: "tm_when ?tm = ?w" using True tm by (simp add: Timer_restart_def)
    have step: "restart_expired (e # es) q = restart_expired es ?q"
      using True tm found w by (auto simp: e pushTimerToMap_def Let_def split: prod.splits)
    have "t \<notin> snd ` set (tq_cancelled q)"
    proof
      assume "t \<in> snd ` set (tq_cancelled q)"
      then obtain v where "(v, t) \<in> set (tq_cancelled q)" by force
      moreover from this have "entry_ok q (v, t)" using tq_inv_entry [OF Cons.prems] by blast
      then have "v = w" using tm by (simp add: entry_ok_def)
      ultimately show False using True by blast
    qed
    with dist have other: "snd x \<noteq> t" if "x \<in> set (tq_timers q) \<union> set es \<union> set (tq_cancelled q)" for x
      using that by force
    have ok: "entry_ok ?q x" if "x \<in> insert (?w, t) (set (tq_timers q)) \<union> set es \<union> set (tq_cancelled q)" for x
      using that tq_inv_entry [OF Cons.prems, of x] other [of x] w
      by (cases "x = (?w, t)") (auto simp: entry_ok_def)
    have "mset (map snd (tq_timers ?q)) = mset (t # map snd (tq_timers q))" by simp
    then have "distinct (map snd (tq_timers ?q))"
      using dist Cons.prems unfolding tq_inv_def
      by (metis distinct.simps(2) distinct_append mset_eq_imp_distinct_iff set_map)
    then have inv: "tq_inv es ?q"
      using Cons.prems tm ok dist by (auto simp: tq_inv_def e)
    have "rearmed q (e # es) = (?w, t) # rearmed q es" using True tm by (simp add: e rearmed_def)
    moreover have "rearmed ?q es = rearmed q es"
      by (rule rearmed_cong) (use dist(2) in auto)
    ultimately show ?thesis using Cons.IH [OF inv] step by auto
  qed
qed

lemma expire_inv:
  assumes inv: "tq_inv [] q" and now: "now \<notin> fst ` set (tq_timers q)"
  shows "tq_inv (due now (tq_timers q))
    (q\<lparr>tq_timers := filter (\<lambda>e. now < fst e) (tq_timers q), tq_cancelled := []\<rparr>)"
proof -
  let ?m = "tq_timers q"
  have dist: "distinct (map snd ?m)" "snd ` set ?m \<inter> set (added_ids (tq_queued q)) = {}"
    "distinct (added_ids (tq_queued q))" and sorted: "deadlines_sorted ?m"
    using inv by (auto simp: tq_inv_def)
  then have inj: "inj_on snd (set ?m)" by (simp add: distinct_map)
  have parts: "distinct (map snd (filter P ?m))" for P using dist(1) by (rule distinct_map_filter)
  have "snd x \<noteq> snd y" if "x \<in> set ?m" "y \<in> set ?m" "now < fst x" "fst y < now" for x y
    using that inj_onD [OF inj, of x y] by auto
  then have "distinct (map snd (filter (\<lambda>e. now < fst e) ?m) @ map snd (due now ?m) @ added_ids (tq_queued q))"
    using parts dist(2,3) unfolding due_def by fastforce
  moreover have "deadlines_sorted (filter (\<lambda>e. now < fst e) ?m)" using sorted by (rule sorted_filter)
  ultimately show ?thesis
    using inv by (auto simp: tq_inv_def entry_ok_def due_def)
qed

lemma resetTimers_spec:
  assumes "tq_inv es q"
  shows "\<exists>q1. resetTimers clk now es q = Inr q1 \<and> tq_inv [] q1 \<and>
     mset (tq_timers q1) = mset (tq_timers q) + mset (rearmed q es) \<and>
     tq_expired q1 = tq_expired q \<and> tq_doing q1 = tq_doing q \<and> tq_queued q1 = tq_queued q \<and>
     tq_cancelled q1 = tq_cancelled q \<and>
     tq_fdlog q1 = (if tq_timers q1 \<noteq> [] \<and> now < fst (hd (tq_timers q1))
        then tq_fdlog (resetTimerFd clk (fst (hd (tq_timers q1))) q) else tq_fdlog q)"
proof -
  obtain q0 where q0: "restart_expired es q = Inr q0" "tq_inv [] q0"
    "mset (tq_timers q0) = mset (tq_timers q) + mset (rearmed q es)"
    "tq_expired q0 = tq_expired q" "tq_doing q0 = tq_doing q" "tq_cancelled q0 = tq_cancelled q"
    "tq_queued q0 = tq_queued q" "tq_fdlog q0 = tq_fdlog q" "tq_reads q0 = tq_reads q"
    using restart_expired_spec [OF assms] by blast
  then show ?thesis
    by (cases "tq_timers q0") (simp_all add: resetTimers_def resetTimerFd_def Let_def tq_inv_def entry_ok_def)
qed

text \<open>
  Callbacks run inside \<^verbatim>\<open>handleTimer\<close>. All the queue needs of them is that they use it only
  through its operations, so that they keep the invariant and the running handler's entries.
\<close>

locale timer_callbacks =
  fixes run :: "'cb \<Rightarrow> ('cb, 'z) timer_queue_scheme \<Rightarrow> ('cb, 'z) timer_queue_scheme res"
  assumes run_keeps: "tq_wf q \<Longrightarrow> run cb q = Inr q1 \<Longrightarrow> tq_wf q1 \<and> tq_frame q q1"
begin

lemma run_expired_keeps: "tq_wf q \<Longrightarrow> run_expired run items q = Inr q1 \<Longrightarrow> tq_wf q1 \<and> tq_frame q q1"
proof (induction items arbitrary: q)
  case (Cons item items)
  then obtain tm q2 where "tq_heap q (snd item) = Some tm" "run (tm_callback tm) q = Inr q2"
    "run_expired run items q2 = Inr q1"
    by (auto simp: res_iffs)
  with Cons show ?case using run_keeps tq_frame_trans by metis
qed simp

lemma handleTimer_idle:
  assumes idle: "tq_idle q" and step: "TimerQueue_handleTimer clk run True q = Inr q1"
  shows "tq_idle q1 \<and> (\<exists>q3 :: ('cb, 'z) timer_queue_scheme. tq_timers q1 \<noteq> [] \<and> clk (tq_reads q) < fst (hd (tq_timers q1)) \<longrightarrow>
     tq_fdlog q1 = tq_fdlog (resetTimerFd clk (fst (hd (tq_timers q1))) q3))"
proof -
  let ?now = "clk (tq_reads q)"
  let ?q1 = "q\<lparr>tq_reads := Suc (tq_reads q), tq_fdlog := tq_fdlog q @ [ReadFd]\<rparr>"
  let ?es = "due ?now (tq_timers q)"
  have inv: "tq_inv [] ?q1" using idle by (auto simp: tq_idle_def elim: tq_inv_cong)
  have "deadlines_sorted (tq_timers ?q1)" using inv by (simp add: tq_inv_def)
  note expire = expireTimers_sorted [OF this, of ?now]
  obtain q3 q4 where now: "?now \<notin> fst ` set (tq_timers q)"
    and q3: "run_expired run ?es (?q1\<lparr>tq_timers := filter (\<lambda>e. ?now < fst e) (tq_timers q),
          tq_expired := ?es, tq_doing := True, tq_cancelled := []\<rparr>) = Inr q3"
    and q4: "resetTimers clk ?now ?es (q3\<lparr>tq_doing := False\<rparr>) = Inr q4"
    and q1: "q1 = q4\<lparr>tq_expired := []\<rparr>"
    using step expire unfolding TimerQueue_handleTimer_def Let_def by (auto simp: res_iffs)
  have "tq_inv ?es (?q1\<lparr>tq_timers := filter (\<lambda>e. ?now < fst e) (tq_timers q), tq_cancelled := []\<rparr>)"
    using expire_inv [OF inv] now by simp
  then have "tq_wf (?q1\<lparr>tq_timers := filter (\<lambda>e. ?now < fst e) (tq_timers q),
      tq_expired := ?es, tq_doing := True, tq_cancelled := []\<rparr>)" by (auto elim: tq_inv_cong)
  from run_expired_keeps [OF this q3] have "tq_inv ?es q3" by (auto simp: tq_frame_def)
  then have "tq_inv ?es (q3\<lparr>tq_doing := False\<rparr>)" by (auto elim: tq_inv_cong)
  from resetTimers_spec [OF this, of clk ?now] q4 q1 have "tq_idle q1"
    "tq_timers q1 \<noteq> [] \<and> ?now < fst (hd (tq_timers q1)) \<longrightarrow>
     tq_fdlog q1 = tq_fdlog (resetTimerFd clk (fst (hd (tq_timers q1))) (q3\<lparr>tq_doing := False\<rparr>))"
    by (auto simp: tq_idle_def elim: tq_inv_cong)
  then show ?thesis by blast
qed

lemma run_expired_all:
  "tq_wf q \<Longrightarrow> \<forall>e \<in> set items. snd e < tq_next q \<Longrightarrow>
   run_expired run items q = run_all run (map (\<lambda>e. tm_callback (the (tq_heap q (snd e)))) items) q"
proof (induction items arbitrary: q)
  case (Cons item items)
  obtain tm where tm: "tq_heap q (snd item) = Some tm"
    using Cons.prems tq_inv_heap [of "tq_expired q" q "snd item"] by auto
  show ?case
  proof (cases "run (tm_callback tm) q")
    case (Inr q1)
    from run_keeps [OF Cons.prems(1) Inr] have keeps: "tq_wf q1" "tq_frame q q1" by simp_all
    then have "\<forall>e \<in> set items. tq_heap q1 (snd e) = tq_heap q (snd e) \<and> snd e < tq_next q1"
      using Cons.prems(2) by (auto simp: tq_frame_def)
    with Cons.IH [OF keeps(1)] Inr tm show ?thesis by (simp cong: map_cong)
  qed (simp add: tm)
qed simp

lemma handleTimer_eq:
  assumes idle: "tq_idle q" and now: "now = clk (tq_reads q)"
  shows "TimerQueue_handleTimer clk run True q =
    (if now \<in> fst ` set (tq_timers q)
     then Inl (AssertFail ''expiredEnd == timers_.end() || now < expiredEnd->first'')
     else bindR (run_all run (map (\<lambda>e. tm_callback (the (tq_heap q (snd e)))) (due now (tq_timers q)))
            (q\<lparr>tq_reads := Suc (tq_reads q), tq_fdlog := tq_fdlog q @ [ReadFd],
               tq_timers := filter (\<lambda>e. now < fst e) (tq_timers q), tq_expired := due now (tq_timers q),
               tq_doing := True, tq_cancelled := []\<rparr>)) (\<lambda>q3.
          bindR (resetTimers clk now (due now (tq_timers q)) (q3\<lparr>tq_doing := False\<rparr>)) (\<lambda>q4.
          Inr (q4\<lparr>tq_expired := []\<rparr>))))"
proof -
  let ?q1 = "q\<lparr>tq_reads := Suc (tq_reads q), tq_fdlog := tq_fdlog q @ [ReadFd]\<rparr>"
  let ?es = "due now (tq_timers q)"
  have inv: "tq_inv [] ?q1" using idle by (auto simp: tq_idle_def elim: tq_inv_cong)
  have "deadlines_sorted (tq_timers ?q1)" using inv by (simp add: tq_inv_def)
  note expire = expireTimers_sorted [OF this, of now]
  show ?thesis
  proof (cases "now \<in> fst ` set (tq_timers q)")
    case True
    with expire show ?thesis by (simp add: TimerQueue_handleTimer_def Let_def now [symmetric] assertR_def)
  next
    case False
    let ?q2 = "q\<lparr>tq_reads := Suc (tq_reads q), tq_fdlog := tq_fdlog q @ [ReadFd],
               tq_timers := filter (\<lambda>e. now < fst e) (tq_timers q), tq_expired := ?es,
               tq_doing := True, tq_cancelled := []\<rparr>"
    have "tq_inv ?es (?q1\<lparr>tq_timers := filter (\<lambda>e. now < fst e) (tq_timers q), tq_cancelled := []\<rparr>)"
      using expire_inv [OF inv, of now] False by simp
    then have "tq_wf ?q2" by (auto elim: tq_inv_cong)
    moreover have "\<forall>e \<in> set ?es. snd e < tq_next ?q2"
    proof
      fix e assume "e \<in> set ?es"
      then have "entry_ok ?q1 e" using tq_inv_entry [OF inv, of e] by (simp add: due_def)
      then show "snd e < tq_next ?q2" using tq_inv_known [OF inv, of "snd e"] by (auto simp: entry_ok_def)
    qed
    ultimately have "run_expired run ?es ?q2 =
        run_all run (map (\<lambda>e. tm_callback (the (tq_heap q (snd e)))) ?es) ?q2"
      using run_expired_all [of ?q2 ?es] by simp
    with False expire show ?thesis
      by (simp add: TimerQueue_handleTimer_def Let_def now [symmetric])
  qed
qed

end


lemma run_all_quiet [simp]: "run_all (\<lambda>_ q. Inr q) cbs q = Inr q"
  by (induction cbs) auto

lemma run_cmds_append: "run_cmds clk (cs @ ds) q = bindR (run_cmds clk cs q) (run_cmds clk ds)"
proof (induction cs arbitrary: q)
  case (Cons c cs)
  then show ?case by (cases "run_cmd clk c q") simp_all
qed simp

lemma run_all_cmds: "run_all (run_cmds clk) css q = run_cmds clk (concat css) q"
proof (induction css arbitrary: q)
  case (Cons cs css)
  then show ?case by (cases "run_cmds clk cs q") (simp_all add: run_cmds_append)
qed simp

interpretation timer_cmds: timer_callbacks "run_cmds clk" for clk
  by unfold_locales (rule run_cmds_wf)

section \<open>Histories\<close>

datatype timer_event =
    EvRunAfter bool "timer_cmd list" rat
  | EvRunEvery bool "timer_cmd list" rat
  | EvCancel bool nat
  | EvTask
  | EvFire

fun tq_step :: "(nat \<Rightarrow> int) \<Rightarrow> timer_event \<Rightarrow> (timer_cmd list, 'z) timer_queue_scheme \<Rightarrow> (timer_cmd list, 'z) timer_queue_scheme res" where
  "tq_step clk (EvRunAfter inLoop cb d) q = bindR (EventLoop_runAfter clk inLoop cb d q) (\<lambda>(_, q1). Inr q1)"
| "tq_step clk (EvRunEvery inLoop cb d) q = bindR (EventLoop_runEvery clk inLoop cb d q) (\<lambda>(_, q1). Inr q1)"
| "tq_step clk (EvCancel inLoop t) q = EventLoop_cancel inLoop t q"
| "tq_step clk EvTask q = TimerQueue_runTask clk q"
| "tq_step clk EvFire q = TimerQueue_handleTimer clk (run_cmds clk) True q"

fun tq_run :: "(nat \<Rightarrow> int) \<Rightarrow> timer_event list \<Rightarrow> (timer_cmd list, 'z) timer_queue_scheme \<Rightarrow> (timer_cmd list, 'z) timer_queue_scheme res" where
  "tq_run clk [] q = Inr q"
| "tq_run clk (ev # evs) q = bindR (tq_step clk ev q) (tq_run clk evs)"

lemma idle_frame: "tq_idle q \<Longrightarrow> tq_wf q1 \<Longrightarrow> tq_frame q q1 \<Longrightarrow> tq_idle q1"
  by (simp add: tq_idle_def tq_frame_def)

lemma runTask_idle:
  assumes idle: "tq_idle q"
  shows "\<exists>q1. TimerQueue_runTask clk q = Inr q1 \<and> tq_idle q1"
proof (cases "tq_queued q")
  case Nil
  with idle show ?thesis by (simp add: TimerQueue_runTask_def)
next
  case (Cons k rest)
  let ?q = "q\<lparr>tq_queued := rest\<rparr>"
  have inv: "tq_inv [] ?q" and idle': "tq_idle ?q" and k: "task_timer k < tq_next q"
    using idle Cons by (cases k; auto simp: tq_idle_def tq_inv_def entry_ok_def)+
  from k inv obtain tm where tm: "tq_heap ?q (task_timer k) = Some tm"
    using tq_inv_heap [OF inv] by auto
  show ?thesis
  proof (cases k)
    case (AddTask t)
    then have "t \<notin> set (map snd (tq_timers ?q) @ map snd [] @ added_ids (tq_queued ?q))"
      using idle Cons by (auto simp: tq_idle_def tq_inv_def)
    from addTask_inv [OF inv tm, of clk] this AddTask Cons idle' show ?thesis
      by (auto simp: TimerQueue_runTask_def tq_idle_def tq_frame_def)
  next
    case (CancelTask t)
    with cancelTask_inv [OF inv tm] Cons idle' show ?thesis
      by (auto simp: TimerQueue_runTask_def tq_idle_def tq_frame_def)
  qed
qed

lemma tq_idle_reads [simp]: "tq_idle (q\<lparr>tq_reads := n\<rparr>) \<longleftrightarrow> tq_idle q"
  by (simp add: tq_idle_def tq_inv_def entry_ok_def)

lemma addTimer_idle:
  assumes idle: "tq_idle q" and "TimerQueue_addTimer clk inLoop cb time interval q = Inr (t, q1)"
  shows "tq_idle q1"
proof -
  have "tq_wf q" using idle by (simp add: tq_idle_def)
  from addTimer_frame_wf [OF this assms(2)] show ?thesis using idle_frame [OF idle] by blast
qed

lemma run_later_cases:
  assumes "bindR (EventLoop_runAfter clk inLoop cb d q) (\<lambda>(_, q1). Inr q1) = Inr q1 \<or>
    bindR (EventLoop_runEvery clk inLoop cb d q) (\<lambda>(_, q1). Inr q1) = Inr q1"
  obtains t time interval where
    "TimerQueue_addTimer clk inLoop cb time interval (q\<lparr>tq_reads := Suc (tq_reads q)\<rparr>) = Inr (t, q1)"
  using assms by (auto simp: EventLoop_runAfter_def EventLoop_runEvery_def res_iffs Let_def)

lemma tq_step_idle: "tq_idle q \<Longrightarrow> tq_step clk ev q = Inr q1 \<Longrightarrow> tq_idle q1"
proof (cases ev)
  case (EvRunAfter inLoop cb d)
  assume "tq_idle q" and "tq_step clk ev q = Inr q1"
  with EvRunAfter show "tq_idle q1" by (auto elim!: run_later_cases [OF disjI1] dest!: addTimer_idle [rotated])
next
  case (EvRunEvery inLoop cb d)
  assume "tq_idle q" and "tq_step clk ev q = Inr q1"
  with EvRunEvery show "tq_idle q1" by (auto elim!: run_later_cases [OF disjI2] dest!: addTimer_idle [rotated])
next
  case (EvCancel inLoop t)
  assume "tq_idle q" and "tq_step clk ev q = Inr q1"
  with EvCancel show "tq_idle q1"
    using cancel_inv [of q t inLoop] idle_frame by (auto simp: EventLoop_cancel_def tq_idle_def)
next
  case EvTask
  assume "tq_idle q" and "tq_step clk ev q = Inr q1"
  with EvTask show "tq_idle q1" using runTask_idle [of q clk] by auto
next
  case EvFire
  assume "tq_idle q" and "tq_step clk ev q = Inr q1"
  with EvFire show "tq_idle q1" by (metis timer_cmds.handleTimer_idle tq_step.simps(5))
qed

lemma tq_run_idle: "tq_idle q \<Longrightarrow> tq_run clk evs q = Inr q1 \<Longrightarrow> tq_idle q1"
  by (induction evs arbitrary: q) (auto simp: res_iffs intro: tq_step_idle)

section \<open>What the timerfd will do\<close>

text \<open>
  \<^verbatim>\<open>timerfd_settime(2)\<close> with a relative value: zero disarms, a negative field is refused with
  \<^verbatim>\<open>EINVAL\<close> and leaves the timer as it was. \<open>pending_expiry\<close> is the time of the expiry that has
  not been read yet.
\<close>

fun fd_after :: "int option \<Rightarrow> fd_event \<Rightarrow> int option" where
  "fd_after p ReadFd = None"
| "fd_after p (SetTime now sec nsec) =
     (if sec = 0 \<and> nsec = 0 then None
      else if sec < 0 \<or> nsec < 0 then p
      else Some (now + sec * 1000000000 + nsec))"

definition pending_expiry :: "fd_event list \<Rightarrow> int option" where
  "pending_expiry evs = foldl fd_after None evs"

lemma pending_expiry_snoc [simp]: "pending_expiry (evs @ [e]) = fd_after (pending_expiry evs) e"
  by (simp add: pending_expiry_def)

fun in_future :: "fd_event \<Rightarrow> bool" where
  "in_future ReadFd = True"
| "in_future (SetTime now sec nsec) \<longleftrightarrow> 0 \<le> sec \<and> 0 \<le> nsec \<and> 0 < sec + nsec"

lemma resetTimerFd_log:
  "\<exists>sec nsec. tq_fdlog (resetTimerFd clk p q) = tq_fdlog q @ [SetTime (clk (tq_reads q)) sec nsec] \<and>
     clk (tq_reads q) + sec * 1000000000 + nsec = p \<and> \<bar>nsec\<bar> < 1000000000 \<and>
     (clk (tq_reads q) < p \<longleftrightarrow> in_future (SetTime (clk (tq_reads q)) sec nsec)) \<and>
     (p = clk (tq_reads q) \<longleftrightarrow> sec = 0 \<and> nsec = 0) \<and> (p < clk (tq_reads q) \<longleftrightarrow> sec < 0 \<or> nsec < 0)"
proof -
  let ?n = "p - clk (tq_reads q)"
  let ?s = "sgn ?n * (\<bar>?n\<bar> div 1000000000)" and ?r = "sgn ?n * (\<bar>?n\<bar> mod 1000000000)"
  have sum: "?s * 1000000000 + ?r = ?n"
    by (metis (no_types) div_mult_mod_eq distrib_left mult.assoc sgn_mult_abs)
  have r: "\<bar>?r\<bar> < 1000000000" by (simp add: abs_mult sgn_if)
  have signs: "0 \<le> ?n \<longrightarrow> 0 \<le> ?s \<and> 0 \<le> ?r" "?n \<le> 0 \<longrightarrow> ?s \<le> 0 \<and> ?r \<le> 0"
    by (simp_all add: sgn_if pos_imp_zdiv_nonneg_iff)
  define sec nsec where "sec = ?s" and "nsec = ?r"
  have "clk (tq_reads q) < p \<longleftrightarrow> 0 \<le> sec \<and> 0 \<le> nsec \<and> 0 < sec + nsec"
    "p = clk (tq_reads q) \<longleftrightarrow> sec = 0 \<and> nsec = 0" "p < clk (tq_reads q) \<longleftrightarrow> sec < 0 \<or> nsec < 0"
    using sum signs unfolding sec_def [symmetric] nsec_def [symmetric] by linarith+
  moreover have "clk (tq_reads q) + sec * 1000000000 + nsec = p" "\<bar>nsec\<bar> < 1000000000"
    using sum r unfolding sec_def [symmetric] nsec_def [symmetric] by linarith+
  moreover have "tq_fdlog (resetTimerFd clk p q) = tq_fdlog q @ [SetTime (clk (tq_reads q)) sec nsec]"
    by (simp add: resetTimerFd_def Let_def sec_def nsec_def)
  ultimately show ?thesis by auto
qed

lemma resetTimerFd_pending:
  assumes "in_future (last (tq_fdlog (resetTimerFd clk p q)))"
  shows "pending_expiry (tq_fdlog (resetTimerFd clk p q)) = Some p"
  using resetTimerFd_log [of clk p q] assms by (auto split: if_splits)

lemma resetTimerFd_late:
  assumes "p \<le> clk (tq_reads q)" "pending_expiry (tq_fdlog q) = None"
  shows "pending_expiry (tq_fdlog (resetTimerFd clk p q)) = None"
  using resetTimerFd_log [of clk p q] assms by auto

definition armed :: "('cb, 'z) timer_queue_scheme \<Rightarrow> bool" where
  "armed q \<longleftrightarrow> (\<forall>e \<in> set (tq_timers q). \<exists>d. pending_expiry (tq_fdlog q) = Some d \<and> d \<le> fst e)"

lemma armed_queued [simp]: "armed (q\<lparr>tq_queued := ts\<rparr>) \<longleftrightarrow> armed q"
  by (simp add: armed_def)

lemma addTask_armed:
  assumes heap: "tq_heap q t = Some tm" and sorted: "deadlines_sorted (tq_timers q)"
    and armed: "armed q" and step: "TimerQueue_addTask clk True t q = Inr q1"
    and future: "\<forall>x \<in> set (tq_fdlog q1). in_future x"
  shows "armed q1"
proof (cases "case tq_timers q of [] \<Rightarrow> True | e # _ \<Rightarrow> tm_when tm < fst e")
  case True
  let ?q = "q\<lparr>tq_timers := multimap_insert (tm_when tm, t) (tq_timers q)\<rparr>"
  have q1: "q1 = resetTimerFd clk (tm_when tm) ?q"
    using True step heap by (simp add: TimerQueue_addTask_def pushTimerToMap_def Let_def)
  have "tq_fdlog q1 \<noteq> []" using resetTimerFd_log [of clk "tm_when tm" ?q] q1 by auto
  then have "in_future (last (tq_fdlog q1))" using future by simp
  then have "pending_expiry (tq_fdlog q1) = Some (tm_when tm)"
    unfolding q1 by (rule resetTimerFd_pending)
  moreover have "tm_when tm \<le> fst e" if "e \<in> set (tq_timers q)" for e
    using True sorted that by (auto split: list.splits)
  ultimately show ?thesis by (auto simp: armed_def q1)
next
  case False
  then obtain e es where m: "tq_timers q = e # es" "fst e \<le> tm_when tm" by (auto split: list.splits)
  have "q1 = q\<lparr>tq_timers := multimap_insert (tm_when tm, t) (tq_timers q)\<rparr>"
    using False step heap by (simp add: TimerQueue_addTask_def pushTimerToMap_def Let_def)
  then show ?thesis using armed m by (fastforce simp: armed_def)
qed

lemma addTimer_armed:
  assumes inv: "tq_idle q" and armed: "armed q"
    and step: "TimerQueue_addTimer clk inLoop cb time interval q = Inr (t, q1)"
    and future: "\<forall>x \<in> set (tq_fdlog q1). in_future x"
  shows "armed q1"
proof (cases inLoop)
  case True
  let ?q = "q\<lparr>tq_heap := (tq_heap q)(tq_next q \<mapsto> Timer_new cb time interval), tq_next := Suc (tq_next q)\<rparr>"
  have "TimerQueue_addTask clk True (tq_next q) ?q = Inr q1"
    using step True by (auto simp: TimerQueue_addTimer_def Let_def res_iffs)
  then show ?thesis
    using addTask_armed [of ?q "tq_next q" "Timer_new cb time interval" clk q1] inv armed future
    by (simp add: tq_idle_def tq_inv_def armed_def)
next
  case False
  with step have "tq_timers q1 = tq_timers q" "tq_fdlog q1 = tq_fdlog q"
    by (auto simp: TimerQueue_addTimer_def Let_def)
  then show ?thesis using armed by (simp add: armed_def)
qed

lemma cancelTask_armed:
  assumes "tq_inv held q" "tq_heap q t = Some tm" "armed q" "TimerQueue_cancelTask True t q = Inr q1"
  shows "armed q1"
proof -
  have "mset (tq_timers q1) \<subseteq># mset (tq_timers q)" "tq_fdlog q1 = tq_fdlog q"
    using cancelTask_inv [OF assms(1,2)] assms(4) by auto
  then show ?thesis using assms(3) by (metis armed_def set_mset_mono set_mset_mset subsetD)
qed

section \<open>Properties\<close>

text \<open>C9. Whatever timers the loop's thread and other threads add and cancel, and whatever timer
  calls the callbacks make, between two handlers the queue is sorted by deadline, holds no timer
  twice, files every timer under its own deadline, and is not marked as running callbacks.\<close>

theorem timer_queue_invariant:
  assumes "tq_run clk evs TimerQueue_new = Inr q"
  shows "sorted (map fst (tq_timers q)) \<and> distinct (map snd (tq_timers q)) \<and>
     (\<forall>(w, t) \<in> set (tq_timers q). map_option tm_when (tq_heap q t) = Some w) \<and>
     \<not> tq_doing q \<and> tq_expired q = []"
  using tq_run_idle [OF tq_idle_new assms]
  by (auto simp: tq_idle_def tq_inv_def entry_ok_def dest!: bspec)

lemma timer_queue_invariant_witness:
  "\<exists>q. tq_run (\<lambda>n. int n * 600000000)
     [EvRunEvery True [RunAfter [] 2] 1, EvRunAfter True [] 3,
      EvFire, EvCancel True 1, EvRunAfter False [] 1, EvTask, EvFire]
     TimerQueue_new = Inr q \<and> tq_timers q \<noteq> [] \<and> distinct (map snd (tq_timers q))"
proof -
  let ?run = "tq_run (\<lambda>n. int n * 600000000)
     [EvRunEvery True [RunAfter [] 2] 1, EvRunAfter True [] 3,
      EvFire, EvCancel True 1, EvRunAfter False [] 1, EvTask, EvFire] TimerQueue_new"
  have "case ?run of Inl _ \<Rightarrow> False | Inr q \<Rightarrow> tq_timers q \<noteq> []" by code_simp
  then obtain q where q: "?run = Inr q" "tq_timers q \<noteq> []" by (auto split: sum.splits)
  with timer_queue_invariant [OF q(1)] show ?thesis by blast
qed

text \<open>C22. When the timerfd fires, the handler either finds a timer due exactly at the time it reads
  and stops at its assert, or runs the callbacks of exactly the timers whose deadline has passed,
  in the order of their deadlines, and then resets the queue.\<close>

theorem handleTimer_fires:
  assumes "tq_idle q"
  shows "TimerQueue_handleTimer clk (run_cmds clk) True q =
    (let now = clk (tq_reads q); es = due now (tq_timers q) in
     if now \<in> fst ` set (tq_timers q)
     then Inl (AssertFail ''expiredEnd == timers_.end() || now < expiredEnd->first'')
     else bindR (run_cmds clk (concat (map (\<lambda>e. tm_callback (the (tq_heap q (snd e)))) es))
            (q\<lparr>tq_reads := Suc (tq_reads q), tq_fdlog := tq_fdlog q @ [ReadFd],
               tq_timers := filter (\<lambda>e. now < fst e) (tq_timers q), tq_expired := es,
               tq_doing := True, tq_cancelled := []\<rparr>)) (\<lambda>q3.
          bindR (resetTimers clk now es (q3\<lparr>tq_doing := False\<rparr>)) (\<lambda>q4.
          Inr (q4\<lparr>tq_expired := []\<rparr>)))) \<and>
     sorted (map fst (due (clk (tq_reads q)) (tq_timers q)))"
proof -
  have "sorted (map fst (due (clk (tq_reads q)) (tq_timers q)))"
    using assms unfolding due_def tq_idle_def tq_inv_def by (simp add: sorted_filter)
  then show ?thesis
    using timer_cmds.handleTimer_eq [OF assms refl, of clk clk] unfolding run_all_cmds Let_def by blast
qed

definition one_timer :: "int \<Rightarrow> rat \<Rightarrow> timer_cmd list timer_queue" where
  "one_timer w d = \<lparr>tq_heap = [0 \<mapsto> Timer_new [] w d], tq_next = 1, tq_timers = [(w, 0)], tq_doing = False,
     tq_cancelled = [], tq_expired = [], tq_queued = [], tq_fdlog = [SetTime 0 w 0], tq_reads = 0\<rparr>"

lemma one_timer_idle: "tq_idle (one_timer w d)"
  by (simp add: one_timer_def tq_idle_def tq_inv_def entry_ok_def Timer_new_def)

lemma handleTimer_fires_witness:
  "TimerQueue_handleTimer (\<lambda>_. 5) (run_cmds (\<lambda>_. 5)) True (one_timer 5 0) =
     Inl (AssertFail ''expiredEnd == timers_.end() || now < expiredEnd->first'')"
  using handleTimer_fires [OF one_timer_idle, of "\<lambda>_. 5" 5 0]
  by (simp add: one_timer_def)

text \<open>C23. After the callbacks, the reset puts back exactly the expired timers that repeat and were
  not cancelled by a callback, each one interval after the deadline it had, keeps everything the
  callbacks added, and sets the timerfd to the new earliest deadline when that is still ahead.\<close>

theorem resetTimers_rearms:
  assumes "tq_inv es q"
  shows "\<exists>q1. resetTimers clk now es q = Inr q1 \<and>
     mset (tq_timers q1) = mset (tq_timers q) +
       mset (map (\<lambda>(w, t). (w + duration_cast (tm_interval (the (tq_heap q t))), t))
         (filter (\<lambda>(w, t). tm_repeat (the (tq_heap q t)) \<and> (w, t) \<notin> set (tq_cancelled q)) es)) \<and>
     sorted (map fst (tq_timers q1)) \<and>
     (tq_timers q1 \<noteq> [] \<and> now < fst (hd (tq_timers q1)) \<longrightarrow>
        tq_fdlog q1 = tq_fdlog (resetTimerFd clk (fst (hd (tq_timers q1))) q))"
  using resetTimers_spec [OF assms, of clk now] unfolding tq_inv_def rearmed_def by fastforce

lemma resetTimers_rearms_witness:
  "\<exists>q1. resetTimers (\<lambda>_. 7000000000) 7000000000 [(6000000000, 0)]
     ((one_timer 6000000000 2)\<lparr>tq_timers := []\<rparr>) = Inr q1 \<and> mset (tq_timers q1) = {#(8000000000, 0)#}"
proof -
  have "tq_inv [(6000000000, 0)] ((one_timer 6000000000 2)\<lparr>tq_timers := []\<rparr>)"
    by (simp add: one_timer_def tq_inv_def entry_ok_def Timer_new_def)
  from resetTimers_rearms [OF this, of "\<lambda>_. 7000000000" 7000000000] show ?thesis
    by (auto simp: one_timer_def Timer_new_def duration_cast_def)
qed

lemma runTask_armed:
  assumes idle: "tq_idle q" and armed: "armed q" and step: "TimerQueue_runTask clk q = Inr q1"
    and future: "\<forall>x \<in> set (tq_fdlog q1). in_future x"
  shows "armed q1"
proof (cases "tq_queued q")
  case Nil
  then show ?thesis using step armed by (simp add: TimerQueue_runTask_def)
next
  case (Cons k rest)
  let ?q = "q\<lparr>tq_queued := rest\<rparr>"
  have inv: "tq_inv [] ?q" and k: "task_timer k < tq_next q" and armed': "armed ?q"
    using idle Cons armed by (cases k; auto simp: tq_idle_def tq_inv_def entry_ok_def armed_def)+
  from k inv obtain tm where tm: "tq_heap ?q (task_timer k) = Some tm"
    using tq_inv_heap [OF inv] by auto
  have sorted: "deadlines_sorted (tq_timers ?q)" using inv by (simp add: tq_inv_def)
  show ?thesis
    using step Cons addTask_armed [OF tm sorted armed' _ future]
      cancelTask_armed [OF inv tm armed', of q1]
    by (cases k) (auto simp: TimerQueue_runTask_def)
qed

lemma handleTimer_armed:
  fixes q :: "(timer_cmd list, 'z) timer_queue_scheme"
  assumes idle: "tq_idle q" and fire: "TimerQueue_handleTimer clk (run_cmds clk) True q = Inr q1"
    and future: "\<forall>x \<in> set (tq_fdlog q1). in_future x"
    and ahead: "\<forall>e \<in> set (tq_timers q1). clk (tq_reads q) < fst e"
  shows "armed q1"
proof -
  from timer_cmds.handleTimer_idle [OF idle fire] obtain q3 :: "(timer_cmd list, 'z) timer_queue_scheme" where
    sorted: "deadlines_sorted (tq_timers q1)" and
    log: "tq_timers q1 \<noteq> [] \<and> clk (tq_reads q) < fst (hd (tq_timers q1)) \<longrightarrow>
      tq_fdlog q1 = tq_fdlog (resetTimerFd clk (fst (hd (tq_timers q1))) q3)"
    by (auto simp: tq_idle_def tq_inv_def)
  show ?thesis
  proof (cases "tq_timers q1")
    case (Cons e es)
    then have eq: "tq_fdlog q1 = tq_fdlog (resetTimerFd clk (fst e) q3)" using log ahead by simp
    then have "tq_fdlog q1 \<noteq> []" using resetTimerFd_log [of clk "fst e" q3] by auto
    then have "in_future (last (tq_fdlog q1))" using future by simp
    then have "pending_expiry (tq_fdlog q1) = Some (fst e)" unfolding eq by (rule resetTimerFd_pending)
    then show ?thesis using sorted Cons by (auto simp: armed_def)
  qed (simp add: armed_def)
qed

text \<open>C24. A timer is never lost as long as nothing is late: if the timerfd is set for the earliest
  deadline or earlier, every operation of the queue keeps that so, provided the times it hands to
  the kernel lie in the future and a handler leaves no deadline that it has already passed.\<close>

theorem armed_step:
  assumes idle: "tq_idle q" and armed: "armed q" and step: "tq_step clk ev q = Inr q1"
    and future: "\<forall>x \<in> set (tq_fdlog q1). in_future x"
    and ahead: "ev = EvFire \<longrightarrow> (\<forall>e \<in> set (tq_timers q1). clk (tq_reads q) < fst e)"
  shows "armed q1"
proof (cases ev)
  case (EvRunAfter inLoop cb d)
  with step have "bindR (EventLoop_runAfter clk inLoop cb d q) (\<lambda>(_, q1). Inr q1) = Inr q1" by simp
  then show ?thesis
    using addTimer_armed [of "q\<lparr>tq_reads := Suc (tq_reads q)\<rparr>" clk inLoop cb] idle armed future
    by (elim run_later_cases [OF disjI1]) (simp add: armed_def)
next
  case (EvRunEvery inLoop cb d)
  with step have "bindR (EventLoop_runEvery clk inLoop cb d q) (\<lambda>(_, q1). Inr q1) = Inr q1" by simp
  then show ?thesis
    using addTimer_armed [of "q\<lparr>tq_reads := Suc (tq_reads q)\<rparr>" clk inLoop cb] idle armed future
    by (elim run_later_cases [OF disjI2]) (simp add: armed_def)
next
  case (EvCancel inLoop t)
  with step have cancel: "TimerQueue_cancel inLoop t q = Inr q1" by (simp add: EventLoop_cancel_def)
  then have "Timer_alive q t" by (simp add: TimerQueue_cancel_def res_iffs)
  then obtain tm where "tq_heap q t = Some tm"
    using Timer_alive_known [of q t] idle by (auto simp: tq_idle_def)
  then show ?thesis
    using cancel cancelTask_armed [of "[]" q t tm q1] idle armed
    by (cases inLoop) (auto simp: TimerQueue_cancel_def res_iffs tq_idle_def)
next
  case EvTask
  with step show ?thesis using runTask_armed [OF idle armed _ future] by simp
next
  case EvFire
  with step ahead show ?thesis using handleTimer_armed [OF idle _ future] by simp
qed

lemma armed_step_witness:
  "\<exists>q1. tq_step (\<lambda>_. 2000000000) (EvRunAfter True [] 1) TimerQueue_new = Inr q1 \<and> tq_timers q1 \<noteq> [] \<and> armed q1"
proof -
  let ?r = "tq_step (\<lambda>_. 2000000000) (EvRunAfter True [] 1) TimerQueue_new"
  have "case ?r of Inl _ \<Rightarrow> False | Inr q \<Rightarrow> tq_timers q \<noteq> [] \<and> list_all in_future (tq_fdlog q)" by code_simp
  then obtain q where q: "?r = Inr q" "tq_timers q \<noteq> []" "list_all in_future (tq_fdlog q)"
    by (auto split: sum.splits)
  have "armed (TimerQueue_new :: timer_cmd list timer_queue)" by (simp add: armed_def TimerQueue_new_def)
  from armed_step [OF tq_idle_new this q(1)] q show ?thesis by (auto simp: list_all_iff)
qed



text \<open>A timer whose deadline has passed by the time \<^verbatim>\<open>resetTimerFd\<close> reads the clock again (any
  \<^verbatim>\<open>runAfter\<close> with a zero, negative or very short delay) is never armed when the queue is empty:
  the value handed to the kernel is zero, which disarms, or negative, which is refused.\<close>

theorem late_timer_not_armed:
  assumes "tq_timers q = []" and "pending_expiry (tq_fdlog q) = None"
    and late: "duration_cast (of_int (clk (tq_reads q)) / 1000000000 + delay) \<le> clk (Suc (tq_reads q))"
  shows "\<exists>q1. EventLoop_runAfter clk True cb delay q = Inr (tq_next q, q1) \<and>
     map snd (tq_timers q1) = [tq_next q] \<and> pending_expiry (tq_fdlog q1) = None"
proof -
  let ?t = "tq_next q" and ?w = "duration_cast (of_int (clk (tq_reads q)) / 1000000000 + delay)"
  let ?q = "q\<lparr>tq_reads := Suc (tq_reads q), tq_heap := (tq_heap q)(?t \<mapsto> Timer_new cb ?w 0),
     tq_next := Suc ?t, tq_timers := [(?w, ?t)]\<rparr>"
  have "EventLoop_runAfter clk True cb delay q = Inr (?t, resetTimerFd clk ?w ?q)"
    using assms(1) by (simp add: EventLoop_runAfter_def TimerQueue_addTimer_def TimerQueue_addTask_def
        pushTimerToMap_def multimap_insert_def Timer_new_def Let_def)
  moreover have "pending_expiry (tq_fdlog (resetTimerFd clk ?w ?q)) = None"
    using late assms(2) by (intro resetTimerFd_late) auto
  ultimately show ?thesis by simp
qed

lemma late_timer_not_armed_witness:
  "\<exists>q1. EventLoop_runAfter int True [] 0 (TimerQueue_new :: timer_cmd list timer_queue) = Inr (0, q1) \<and>
     map snd (tq_timers q1) = [0] \<and> pending_expiry (tq_fdlog q1) = None"
  using late_timer_not_armed [of "TimerQueue_new :: timer_cmd list timer_queue" int 0 "[]"]
  by (simp add: TimerQueue_new_def pending_expiry_def duration_cast_def)

text \<open>A cancellation can overtake the timer it is meant for: a timer another thread has added is
  still in the function queue when the loop's own thread cancels it, the cancellation finds
  nothing to erase, and the timer is filed afterwards.\<close>

theorem cancel_overtakes_add:
  assumes idle: "tq_idle q" and empty: "tq_queued q = []"
  shows "\<exists>q1 q2 q3. TimerQueue_addTimer clk False cb time 0 q = Inr (tq_next q, q1) \<and>
     TimerQueue_cancel True (tq_next q) q1 = Inr q2 \<and> TimerQueue_runTask clk q2 = Inr q3 \<and>
     (time, tq_next q) \<in> set (tq_timers q3)"
proof -
  let ?t = "tq_next q"
  let ?q0 = "q\<lparr>tq_heap := (tq_heap q)(?t \<mapsto> Timer_new cb time 0), tq_next := Suc ?t\<rparr>"
  let ?q1 = "?q0\<lparr>tq_queued := [AddTask ?t]\<rparr>"
  have inv: "tq_inv [] q" and doing: "\<not> tq_doing q" using idle by (simp_all add: tq_idle_def)
  have add: "TimerQueue_addTimer clk False cb time 0 q = Inr (?t, ?q1)"
    using empty by (simp add: TimerQueue_addTimer_def Let_def)
  have missing: "?t \<notin> snd ` set (tq_timers q)" using tq_inv_fresh [OF inv] by simp
  then have absent: "(time, ?t) \<notin> set (tq_timers q)" by force
  have "deadlines_sorted (tq_timers q)" using inv by (simp add: tq_inv_def)
  with absent have "\<not> snd (findTimer (tq_timers q) (time, ?t))" by (simp add: findTimer_found)
  then have "TimerQueue_cancel True ?t ?q1 = Inr ?q1"
    using doing by (auto simp: TimerQueue_cancel_def TimerQueue_cancelTask_def Timer_alive_def
        Timer_new_def split: prod.splits)
  moreover have "\<exists>q3. TimerQueue_runTask clk ?q1 = Inr q3 \<and>
      tq_timers q3 = multimap_insert (time, ?t) (tq_timers q)"
    using addTask_result [of "?q0\<lparr>tq_queued := []\<rparr>" ?t "Timer_new cb time 0" clk]
    by (auto simp: TimerQueue_runTask_def Timer_new_def)
  ultimately show ?thesis using add by fastforce
qed

lemma cancel_overtakes_add_witness:
  "\<exists>q1 q2 q3. TimerQueue_addTimer int False [] 7 0 (one_timer 5 0) = Inr (1, q1) \<and>
     TimerQueue_cancel True 1 q1 = Inr q2 \<and> TimerQueue_runTask int q2 = Inr q3 \<and> (7, 1) \<in> set (tq_timers q3)"
  using cancel_overtakes_add [OF one_timer_idle [of 5 0], of int "[]" 7] by (simp add: one_timer_def)

end
