(* ===== verification/Lotta_Poller.thy ===== *)
theory Lotta_Poller
  imports Lotta_Channel
begin

text \<open>
  \<^verbatim>\<open>Poller\<close> and \<^verbatim>\<open>PollPoller\<close> (\<^verbatim>\<open>src/poller.cc\<close>, \<^verbatim>\<open>src/poll_poller.cc\<close>), the thin
  \<^verbatim>\<open>EventLoop::updateChannel\<close>/\<^verbatim>\<open>removeChannel\<close> in front of them, and the \<^verbatim>\<open>Channel\<close>
  operations that call them.

  Channels are shared through pointers: \<^verbatim>\<open>channels_\<close> maps descriptors to \<^verbatim>\<open>Channel *\<close> and
  the poller writes \<^verbatim>\<open>idxPoll_\<close> through them. The world therefore holds a store of the live
  channel objects, indexed by an identity (a natural number) that stands for the address.
  \<open>poller_rep w cs\<close> says that the poll array and the map describe the registered channels
  \<open>cs\<close> in slot order; what the kernel is asked to watch is \<open>kernel_watch\<close>.
\<close>

section \<open>State\<close>

record pollfd =
  pf_fd :: int
  pf_events :: "16 word"
  pf_revents :: "16 word"

record 'cb pworld =
  pw_store :: "nat \<rightharpoonup> 'cb channel"   \<comment> \<open>live channel objects\<close>
  pw_map :: "int \<rightharpoonup> nat"             \<comment> \<open>\<^verbatim>\<open>channels_\<close>\<close>
  pw_fds :: "pollfd list"             \<comment> \<open>\<^verbatim>\<open>pollFds_\<close>\<close>
  pw_sameThread :: bool               \<comment> \<open>the caller runs in the loop's thread\<close>

definition PollPoller_new :: "'cb pworld" where
  "PollPoller_new = \<lparr>pw_store = Map.empty, pw_map = Map.empty, pw_fds = [], pw_sameThread = True\<rparr>"

definition EventLoop_assertTheSameThread :: "'cb pworld \<Rightarrow> 'a res \<Rightarrow> 'a res" where
  "EventLoop_assertTheSameThread w k = assertR (pw_sameThread w) ''isTheSameThread()'' k"

section \<open>Registration\<close>

definition PollPoller_updateChannel :: "'cb pworld \<Rightarrow> nat \<Rightarrow> 'cb pworld res" where
  "PollPoller_updateChannel w c =
     EventLoop_assertTheSameThread w (
     derefR (pw_store w c) ''channel'' (\<lambda>ch.
     if Channel_idxPoll ch < 0 then
       assertR (pw_map w (Channel_fd ch) = None) ''channels_.find(fd) == end''
         (let fds = pw_fds w @ [\<lparr>pf_fd = Channel_fd ch, pf_events = ucast (Channel_events ch), pf_revents = 0\<rparr>]
          in Inr (w\<lparr>pw_fds := fds,
                    pw_store := (pw_store w)(c \<mapsto> Channel_setIdxPoll (int (length fds) - 1) ch),
                    pw_map := (pw_map w)(Channel_fd ch \<mapsto> c)\<rparr>))
     else
       assertR (pw_map w (Channel_fd ch) \<noteq> None) ''channels_.find(fd) != end'' (
       assertR (pw_map w (Channel_fd ch) = Some c) ''channels_[fd] == channel'' (
       let idx = Channel_idxPoll ch in
       assertR (0 \<le> idx \<and> idx < int (length (pw_fds w))) ''0 <= idx < size'' (
       let pfd = pw_fds w ! nat idx in
       assertR (pf_fd pfd = Channel_fd ch \<or> pf_fd pfd = -1) ''pfd.fd == fd || -1''
         (Inr (w\<lparr>pw_fds := (pw_fds w)[nat idx := pfd\<lparr>pf_events := ucast (Channel_events ch),
              pf_revents := 0,
              pf_fd := (if Channel_isEmptyEvent ch then -1 else pf_fd pfd)\<rparr>]\<rparr>)))))))"

definition EventLoop_updateChannel :: "'cb pworld \<Rightarrow> nat \<Rightarrow> 'cb pworld res" where
  "EventLoop_updateChannel w c =
     EventLoop_assertTheSameThread w (PollPoller_updateChannel w c)"

text \<open>
  \<^verbatim>\<open>std::iter_swap\<close> of slot \<open>i\<close> and the last slot; and the closing loop of asserts, whose
  \<^verbatim>\<open>channels_[fd]\<close> inserts a null pointer for an unknown descriptor and dereferences it.
\<close>

definition swap_last :: "nat \<Rightarrow> 'a list \<Rightarrow> 'a list" where
  "swap_last i xs = xs[i := last xs, length xs - 1 := xs ! i]"

fun check_slots :: "'cb pworld \<Rightarrow> int \<Rightarrow> pollfd list \<Rightarrow> 'cb pworld res" where
  "check_slots w i [] = Inr w"
| "check_slots w i (p # ps) =
     derefR (pw_map w (pf_fd p)) ''channels_[pollFds_[i].fd] is null'' (\<lambda>d.
     derefR (pw_store w d) ''channel'' (\<lambda>dh.
     assertR (ch_idxPoll dh = i) ''channels_[pollFds_[i].fd]->idxPoll() == i''
       (check_slots w (i + 1) ps)))"

definition PollPoller_removeChannel :: "'cb pworld \<Rightarrow> nat \<Rightarrow> 'cb pworld res" where
  "PollPoller_removeChannel w c =
     EventLoop_assertTheSameThread w (
     derefR (pw_store w c) ''channel'' (\<lambda>ch.
     assertR (pw_map w (Channel_fd ch) \<noteq> None) ''channels_.find(fd) != end'' (
     assertR (pw_map w (Channel_fd ch) = Some c) ''channels_[fd] == channel'' (
     assertR (Channel_isEmptyEvent ch) ''isEmptyEvent()'' (
     let idx = Channel_idxPoll ch in
     assertR (0 \<le> idx \<and> idx < int (length (pw_fds w))) ''0 <= idx < size'' (
     assertR (pf_fd (pw_fds w ! nat idx) = -1) ''pollFds_[idx].fd == -1'' (
     assertR (scast (pf_events (pw_fds w ! nat idx)) = Channel_events ch) ''pollFds_[idx].events'' (
     let m1 = (pw_map w)(Channel_fd ch := None) in
     bindR
       (if nat idx \<noteq> length (pw_fds w) - 1 then
          let fds1 = swap_last (nat idx) (pw_fds w) in
          derefR (m1 (pf_fd (fds1 ! nat idx))) ''channels_[pollFds_[idx].fd] is null'' (\<lambda>d.
          derefR (pw_store w d) ''channel'' (\<lambda>dh.
            Inr (w\<lparr>pw_map := m1, pw_fds := fds1,
                   pw_store := (pw_store w)(d \<mapsto> Channel_setIdxPoll idx dh)\<rparr>)))
        else Inr (w\<lparr>pw_map := m1\<rparr>))
       (\<lambda>w1. let w2 = w1\<lparr>pw_fds := butlast (pw_fds w1)\<rparr> in check_slots w2 0 (pw_fds w2))))))))))"

definition EventLoop_removeChannel :: "'cb pworld \<Rightarrow> nat \<Rightarrow> 'cb pworld res" where
  "EventLoop_removeChannel w c =
     EventLoop_assertTheSameThread w (PollPoller_removeChannel w c)"

section \<open>Channel operations that reach the poller\<close>

definition Channel_update :: "'cb pworld \<Rightarrow> nat \<Rightarrow> 'cb pworld res" where
  "Channel_update w c = EventLoop_updateChannel w c"

definition Channel_remove :: "'cb pworld \<Rightarrow> nat \<Rightarrow> 'cb pworld res" where
  "Channel_remove w c =
     derefR (pw_store w c) ''channel'' (\<lambda>ch.
     assertR (Channel_isEmptyEvent ch) ''isEmptyEvent()'' (EventLoop_removeChannel w c))"

definition Channel_setMask :: "(32 word \<Rightarrow> 32 word) \<Rightarrow> 'cb pworld \<Rightarrow> nat \<Rightarrow> 'cb pworld res" where
  "Channel_setMask f w c =
     derefR (pw_store w c) ''channel'' (\<lambda>ch.
     Channel_update (w\<lparr>pw_store := (pw_store w)(c \<mapsto> ch\<lparr>ch_events := f (ch_events ch)\<rparr>)\<rparr>) c)"

definition Channel_enableReading :: "'cb pworld \<Rightarrow> nat \<Rightarrow> 'cb pworld res" where
  "Channel_enableReading = Channel_setMask mask_enableReading"

definition Channel_disableReading :: "'cb pworld \<Rightarrow> nat \<Rightarrow> 'cb pworld res" where
  "Channel_disableReading = Channel_setMask mask_disableReading"

definition Channel_enableWriting :: "'cb pworld \<Rightarrow> nat \<Rightarrow> 'cb pworld res" where
  "Channel_enableWriting = Channel_setMask mask_enableWriting"

definition Channel_disableWriting :: "'cb pworld \<Rightarrow> nat \<Rightarrow> 'cb pworld res" where
  "Channel_disableWriting = Channel_setMask mask_disableWriting"

definition Channel_disableEvents :: "'cb pworld \<Rightarrow> nat \<Rightarrow> 'cb pworld res" where
  "Channel_disableEvents = Channel_setMask (\<lambda>_. kEmptyEvent)"

section \<open>Polling\<close>

text \<open>
  \<^verbatim>\<open>poll\<close>: \<open>num\<close> is the return value of \<^verbatim>\<open>::poll\<close> and \<open>revs\<close> the \<^verbatim>\<open>revents\<close> it
  leaves in the array. The loop stops after \<open>num\<close> entries with a non-zero report.
\<close>

fun poll_scan :: "'cb pworld \<Rightarrow> int \<Rightarrow> pollfd list \<Rightarrow> nat list \<Rightarrow> ('cb pworld \<times> nat list) res" where
  "poll_scan w num [] act = Inr (w, act)"
| "poll_scan w num (p # ps) act =
     (if pf_revents p \<noteq> 0 then
        case pw_map w (pf_fd p) of
          None \<Rightarrow> Inl (AssertFail ''found != channels_.end()'')
        | Some d \<Rightarrow>
            derefR (pw_store w d) ''channel'' (\<lambda>dh.
            assertR (pf_fd p = Channel_fd dh) ''pfd.fd == channel->fd()''
              (let w1 = w\<lparr>pw_store := (pw_store w)(d \<mapsto> Channel_setRevents (scast (pf_revents p)) dh)\<rparr>
               in if num - 1 \<le> 0 then Inr (w1, act @ [d])
                  else poll_scan w1 (num - 1) ps (act @ [d])))
      else poll_scan w num ps act)"

definition PollPoller_poll ::
    "'cb pworld \<Rightarrow> int \<Rightarrow> 16 word list \<Rightarrow> nat list \<Rightarrow> ('cb pworld \<times> nat list) res" where
  "PollPoller_poll w num revs act =
     (let w1 = w\<lparr>pw_fds := map2 (\<lambda>p r. p\<lparr>pf_revents := r\<rparr>) (pw_fds w) revs\<rparr> in
      if num < 0 then Inr (w, act)
      else if num = 0 then Inr (w1, act)
      else poll_scan w1 num (pw_fds w1) act)"

section \<open>What the kernel watches\<close>

text \<open>\<^verbatim>\<open>poll(2)\<close> ignores entries with a negative descriptor.\<close>

definition kernel_watch :: "pollfd list \<Rightarrow> int \<Rightarrow> 16 word option" where
  "kernel_watch fds = map_of (map (\<lambda>p. (pf_fd p, pf_events p)) (filter (\<lambda>p. 0 \<le> pf_fd p) fds))"

definition fds_unique :: "pollfd list \<Rightarrow> bool" where
  "fds_unique fds \<longleftrightarrow> distinct (map pf_fd (filter (\<lambda>p. 0 \<le> pf_fd p) fds))"

lemma fds_uniqueI:
  assumes "\<And>i j. i < length fds \<Longrightarrow> j < length fds \<Longrightarrow> 0 \<le> pf_fd (fds ! i) \<Longrightarrow>
             pf_fd (fds ! i) = pf_fd (fds ! j) \<Longrightarrow> i = j"
  shows "fds_unique fds"
  using assms
proof (induction fds)
  case (Cons p ps)
  have "i = j" if "i < length ps" "j < length ps" "0 \<le> pf_fd (ps ! i)"
      "pf_fd (ps ! i) = pf_fd (ps ! j)" for i j
    using Cons.prems [of "Suc i" "Suc j"] that by simp
  then have "fds_unique ps" by (rule Cons.IH)
  moreover have "pf_fd p \<noteq> pf_fd q" if "0 \<le> pf_fd p" "q \<in> set ps" for q
  proof
    assume eq: "pf_fd p = pf_fd q"
    from \<open>q \<in> set ps\<close> obtain k where "k < length ps" "ps ! k = q" by (auto simp: in_set_conv_nth)
    then show False using Cons.prems [of 0 "Suc k"] \<open>0 \<le> pf_fd p\<close> eq by simp
  qed
  ultimately show ?case by (auto simp: fds_unique_def)
qed (simp add: fds_unique_def)

lemma kernel_watch_Some:
  assumes "fds_unique fds"
  shows "kernel_watch fds f = Some e \<longleftrightarrow>
           0 \<le> f \<and> (\<exists>p \<in> set fds. pf_fd p = f \<and> pf_events p = e)"
proof -
  have "distinct (map fst (map (\<lambda>p. (pf_fd p, pf_events p)) (filter (\<lambda>p. 0 \<le> pf_fd p) fds)))"
    using assms by (simp add: fds_unique_def comp_def)
  then have "kernel_watch fds f = Some e \<longleftrightarrow>
      (f, e) \<in> set (map (\<lambda>p. (pf_fd p, pf_events p)) (filter (\<lambda>p. 0 \<le> pf_fd p) fds))"
    unfolding kernel_watch_def by (rule map_of_eq_Some_iff)
  also have "\<dots> \<longleftrightarrow> 0 \<le> f \<and> (\<exists>p \<in> set fds. pf_fd p = f \<and> pf_events p = e)" by auto
  finally show ?thesis .
qed

lemma option_map_eqI:
  assumes "\<And>k v. m k = Some v \<longleftrightarrow> n k = Some v"
  shows "m = n"
proof
  fix k show "m k = n k" using assms by (metis not_Some_eq)
qed

lemma kernel_watch_update:
  assumes "fds_unique fds" and "fds_unique (fds[i := p])" and "i < length fds" and "0 \<le> f"
    and "pf_fd (fds ! i) = f \<or> pf_fd (fds ! i) = -1" and "pf_fd p = f \<or> pf_fd p = -1"
    and "\<And>j. j < length fds \<Longrightarrow> j \<noteq> i \<Longrightarrow> pf_fd (fds ! j) \<noteq> f"
  shows "kernel_watch (fds[i := p]) =
           (kernel_watch fds)(f := if pf_fd p = f then Some (pf_events p) else None)"
proof (rule option_map_eqI)
  fix k v
  have mem: "q \<in> set (fds[i := p]) \<longleftrightarrow> q = p \<or> (\<exists>j < length fds. j \<noteq> i \<and> fds ! j = q)" for q
    using assms(3) by (auto simp: in_set_conv_nth nth_list_update)
  have mem0: "q \<in> set fds \<longleftrightarrow> q = fds ! i \<or> (\<exists>j < length fds. j \<noteq> i \<and> fds ! j = q)" for q
    using assms(3) by (auto simp: in_set_conv_nth)
  show "kernel_watch (fds[i := p]) k = Some v \<longleftrightarrow>
      ((kernel_watch fds)(f := if pf_fd p = f then Some (pf_events p) else None)) k = Some v"
  proof (cases "k = f")
    case True
    with assms(4,7) show ?thesis
      by (auto simp: kernel_watch_Some [OF assms(2)] Bex_def mem)
  next
    case False
    have "q \<in> set (fds[i := p]) \<longleftrightarrow> q \<in> set fds" if "pf_fd q = k" "0 \<le> k" for q
      using that assms(5,6) False by (auto simp: mem mem0)
    with False show ?thesis
      by (auto simp: kernel_watch_Some [OF assms(1)] kernel_watch_Some [OF assms(2)])
  qed
qed

lemma kernel_watch_snoc:
  assumes "0 \<le> pf_fd p" and "fds_unique (fds @ [p])"
  shows "kernel_watch (fds @ [p]) = (kernel_watch fds)(pf_fd p \<mapsto> pf_events p)"
proof (rule option_map_eqI)
  have u: "fds_unique fds" using assms by (simp add: fds_unique_def)
  have new: "pf_fd q \<noteq> pf_fd p" if "q \<in> set fds" for q
    using assms that by (cases "0 \<le> pf_fd q") (auto simp: fds_unique_def image_iff)
  fix k v
  show "kernel_watch (fds @ [p]) k = Some v \<longleftrightarrow>
      ((kernel_watch fds)(pf_fd p \<mapsto> pf_events p)) k = Some v"
    using new assms(1) by (auto simp: kernel_watch_Some [OF u] kernel_watch_Some [OF assms(2)])
qed

section \<open>The representation invariant\<close>

definition slot_ok :: "'cb pworld \<Rightarrow> nat \<Rightarrow> nat \<Rightarrow> bool" where
  "slot_ok w i c \<longleftrightarrow>
     (\<exists>ch. pw_store w c = Some ch \<and> ch_idxPoll ch = int i \<and> 0 \<le> ch_fd ch \<and>
           ch_events ch \<in> event_masks \<and> pw_map w (ch_fd ch) = Some c \<and>
           pf_events (pw_fds w ! i) = ucast (ch_events ch) \<and>
           (pf_fd (pw_fds w ! i) = ch_fd ch \<or> pf_fd (pw_fds w ! i) = -1))"

definition poller_rep :: "'cb pworld \<Rightarrow> nat list \<Rightarrow> bool" where
  "poller_rep w cs \<longleftrightarrow>
     pw_sameThread w \<and> length cs = length (pw_fds w) \<and>
     (\<forall>i < length cs. slot_ok w i (cs ! i)) \<and>
     (\<forall>f c. pw_map w f = Some c \<longrightarrow>
        c \<in> set cs \<and> (\<exists>ch. pw_store w c = Some ch \<and> ch_fd ch = f))"

lemma poller_rep_new [simp, wf_intros]: "poller_rep PollPoller_new []"
  by (simp add: poller_rep_def PollPoller_new_def)

lemma poller_rep_slot:
  assumes "poller_rep w cs" and "i < length cs"
  obtains ch where "pw_store w (cs ! i) = Some ch" "ch_idxPoll ch = int i" "0 \<le> ch_fd ch"
    "ch_events ch \<in> event_masks" "pw_map w (ch_fd ch) = Some (cs ! i)"
    "pf_events (pw_fds w ! i) = ucast (ch_events ch)"
    "pf_fd (pw_fds w ! i) = ch_fd ch \<or> pf_fd (pw_fds w ! i) = -1"
  using assms by (auto simp: poller_rep_def slot_ok_def)

lemma poller_rep_fd_inj:
  assumes rep: "poller_rep w cs" and ij: "i < length cs" "j < length cs"
    and ch: "pw_store w (cs ! i) = Some ch" "pw_store w (cs ! j) = Some dh"
    and fd: "ch_fd ch = ch_fd dh"
  shows "i = j"
proof -
  obtain ch' where 1: "pw_store w (cs ! i) = Some ch'" "ch_idxPoll ch' = int i"
      "pw_map w (ch_fd ch') = Some (cs ! i)"
    using poller_rep_slot [OF rep ij(1)] by metis
  obtain dh' where 2: "pw_store w (cs ! j) = Some dh'" "ch_idxPoll dh' = int j"
      "pw_map w (ch_fd dh') = Some (cs ! j)"
    using poller_rep_slot [OF rep ij(2)] by metis
  from 1 2 ch fd have "cs ! i = cs ! j" by simp
  with 1 2 show ?thesis by simp
qed

lemma poller_rep_distinct:
  assumes "poller_rep w cs"
  shows "distinct cs"
proof -
  have "i = j" if ij: "i < length cs" "j < length cs" and eq: "cs ! i = cs ! j" for i j
  proof -
    obtain ch where "pw_store w (cs ! i) = Some ch"
      using poller_rep_slot [OF assms ij(1)] by metis
    with eq show ?thesis using poller_rep_fd_inj [OF assms ij] by simp
  qed
  then show ?thesis by (auto simp: distinct_conv_nth)
qed

lemma poller_rep_other_fd:
  assumes rep: "poller_rep w cs" and i: "i < length cs" and ch: "pw_store w (cs ! i) = Some ch"
    and j: "j < length cs" "j \<noteq> i"
  shows "pf_fd (pw_fds w ! j) \<noteq> ch_fd ch"
proof -
  obtain ch0 where ch0: "pw_store w (cs ! i) = Some ch0" "0 \<le> ch_fd ch0"
    using poller_rep_slot [OF rep i] by metis
  obtain dh where dh: "pw_store w (cs ! j) = Some dh"
      "pf_fd (pw_fds w ! j) = ch_fd dh \<or> pf_fd (pw_fds w ! j) = -1"
    using poller_rep_slot [OF rep j(1)] by metis
  have "ch_fd dh \<noteq> ch_fd ch"
    using poller_rep_fd_inj [OF rep j(1) i dh(1) ch] j(2) by blast
  with dh ch ch0 show ?thesis by auto
qed

lemma poller_rep_unique:
  assumes rep: "poller_rep w cs"
  shows "fds_unique (pw_fds w)"
proof (rule fds_uniqueI)
  fix i j
  assume ij: "i < length (pw_fds w)" "j < length (pw_fds w)" and nn: "0 \<le> pf_fd (pw_fds w ! i)"
    and eq: "pf_fd (pw_fds w ! i) = pf_fd (pw_fds w ! j)"
  have len: "length (pw_fds w) = length cs" using rep by (simp add: poller_rep_def)
  obtain ch where ch: "pw_store w (cs ! i) = Some ch"
      "pf_fd (pw_fds w ! i) = ch_fd ch \<or> pf_fd (pw_fds w ! i) = -1"
    using poller_rep_slot [OF rep] ij(1) len by metis
  show "i = j"
    using poller_rep_other_fd [OF rep _ ch(1)] ij len eq ch nn by (metis neg_0_le_iff_le not_one_le_zero)
qed

section \<open>Registration keeps the invariant\<close>

lemma rep_store_other:
  assumes "poller_rep w cs" and "c \<notin> set cs"
  shows "poller_rep (w\<lparr>pw_store := (pw_store w)(c := x)\<rparr>) cs"
proof -
  have "cs ! i \<noteq> c" if "i < length cs" for i using assms(2) that by auto
  with assms show ?thesis by (auto simp: poller_rep_def slot_ok_def)
qed

lemma rep_not_registered:
  assumes "poller_rep w cs" and "pw_store w c = Some ch" and "ch_idxPoll ch < 0"
  shows "c \<notin> set cs"
proof
  assume "c \<in> set cs"
  then obtain i where i: "i < length cs" "cs ! i = c" by (auto simp: in_set_conv_nth)
  obtain ch0 where "pw_store w (cs ! i) = Some ch0" "ch_idxPoll ch0 = int i"
    using poller_rep_slot [OF assms(1) i(1)] by metis
  with i assms(2,3) show False by simp
qed

lemma slot_ok_cong:
  assumes "slot_ok w i c" and "pw_store w1 c = pw_store w c" and "pw_fds w1 ! i = pw_fds w ! i"
    and "\<And>ch. pw_store w c = Some ch \<Longrightarrow> pw_map w1 (ch_fd ch) = pw_map w (ch_fd ch)"
  shows "slot_ok w1 i c"
  using assms by (fastforce simp: slot_ok_def)

lemma update_fresh_rep:
  assumes rep: "poller_rep w cs" and ch: "pw_store w c = Some ch" and idx: "ch_idxPoll ch < 0"
    and fd: "0 \<le> ch_fd ch" and free: "pw_map w (ch_fd ch) = None"
    and ev: "ch_events ch \<in> event_masks"
    and w1: "w1 = w\<lparr>pw_fds := pw_fds w @ [\<lparr>pf_fd = ch_fd ch, pf_events = ucast (ch_events ch), pf_revents = 0\<rparr>],
                pw_store := (pw_store w)(c \<mapsto> ch\<lparr>ch_idxPoll := int (length cs)\<rparr>),
                pw_map := (pw_map w)(ch_fd ch \<mapsto> c)\<rparr>"
  shows "poller_rep w1 (cs @ [c])"
proof -
  have c: "c \<notin> set cs" by (rule rep_not_registered [OF rep ch idx])
  have len: "length cs = length (pw_fds w)" using rep by (simp add: poller_rep_def)
  have "slot_ok w1 i ((cs @ [c]) ! i)" if "i < Suc (length cs)" for i
  proof (cases "i < length cs")
    case True
    then have ci: "cs ! i \<noteq> c" using c by auto
    have "slot_ok w i (cs ! i)" using rep True by (simp add: poller_rep_def)
    then have "slot_ok w1 i (cs ! i)"
      by (rule slot_ok_cong) (use True ci len free rep in \<open>auto simp: w1 nth_append poller_rep_def slot_ok_def\<close>)
    with True show ?thesis by (simp add: nth_append)
  next
    case False
    with that have "i = length cs" by simp
    with fd ev len show ?thesis by (simp add: w1 slot_ok_def nth_append)
  qed
  moreover have "k \<in> set (cs @ [c]) \<and> (\<exists>dh. pw_store w1 k = Some dh \<and> ch_fd dh = f)"
    if "pw_map w1 f = Some k" for f k
    using that rep c by (auto simp: w1 poller_rep_def split: if_splits)
  ultimately show ?thesis using rep len by (simp add: poller_rep_def w1)
qed

lemma PollPoller_updateChannel_fresh:
  assumes rep: "poller_rep w cs" and ch: "pw_store w c = Some ch" and idx: "ch_idxPoll ch < 0"
    and fd: "0 \<le> ch_fd ch" and free: "pw_map w (ch_fd ch) = None"
    and ev: "ch_events ch \<in> event_masks"
  shows "\<exists>w1. PollPoller_updateChannel w c = Inr w1 \<and> poller_rep w1 (cs @ [c]) \<and>
           pw_store w1 = (pw_store w)(c \<mapsto> ch\<lparr>ch_idxPoll := int (length cs)\<rparr>) \<and>
           pw_map w1 = (pw_map w)(ch_fd ch \<mapsto> c) \<and>
           kernel_watch (pw_fds w1) = (kernel_watch (pw_fds w))(ch_fd ch \<mapsto> ucast (ch_events ch))"
proof -
  let ?p = "\<lparr>pf_fd = ch_fd ch, pf_events = ucast (ch_events ch), pf_revents = 0\<rparr>"
  let ?w1 = "w\<lparr>pw_fds := pw_fds w @ [?p],
      pw_store := (pw_store w)(c \<mapsto> ch\<lparr>ch_idxPoll := int (length cs)\<rparr>),
      pw_map := (pw_map w)(ch_fd ch \<mapsto> c)\<rparr>"
  have len: "length cs = length (pw_fds w)" and thr: "pw_sameThread w"
    using rep by (simp_all add: poller_rep_def)
  have run: "PollPoller_updateChannel w c = Inr ?w1"
    using ch idx free thr len
    by (simp add: PollPoller_updateChannel_def EventLoop_assertTheSameThread_def)
  have rep1: "poller_rep ?w1 (cs @ [c])"
    by (rule update_fresh_rep [OF rep ch idx fd free ev refl])
  have "kernel_watch (pw_fds w @ [?p]) = (kernel_watch (pw_fds w))(pf_fd ?p \<mapsto> pf_events ?p)"
    by (rule kernel_watch_snoc) (use fd poller_rep_unique [OF rep1] in simp_all)
  with run rep1 show ?thesis by simp
qed

text \<open>On a registered channel: the mask changes together with its slot.\<close>

definition masked_world :: "'cb pworld \<Rightarrow> nat \<Rightarrow> nat \<Rightarrow> 'cb channel \<Rightarrow> 32 word \<Rightarrow> 'cb pworld" where
  "masked_world w c i ch e =
     w\<lparr>pw_store := (pw_store w)(c \<mapsto> ch\<lparr>ch_events := e\<rparr>),
       pw_fds := (pw_fds w)[i := \<lparr>pf_fd = (if e = 0 then -1 else pf_fd (pw_fds w ! i)),
                               pf_events = ucast e, pf_revents = 0\<rparr>]\<rparr>"

lemma pollfd_updates:
  "p\<lparr>pf_events := a, pf_revents := b\<rparr> = \<lparr>pf_fd = pf_fd p, pf_events = a, pf_revents = b\<rparr>"
  "p\<lparr>pf_events := a, pf_revents := b, pf_fd := d\<rparr> = \<lparr>pf_fd = d, pf_events = a, pf_revents = b\<rparr>"
  by (cases p; simp)+

lemma Channel_setMask_registered:
  assumes rep: "poller_rep w cs" and i: "i < length cs" and ch: "pw_store w (cs ! i) = Some ch"
  shows "Channel_setMask f w (cs ! i) = Inr (masked_world w (cs ! i) i ch (f (ch_events ch)))"
proof -
  obtain ch0 where ch0: "pw_store w (cs ! i) = Some ch0" "ch_idxPoll ch0 = int i"
      "pw_map w (ch_fd ch0) = Some (cs ! i)"
      "pf_fd (pw_fds w ! i) = ch_fd ch0 \<or> pf_fd (pw_fds w ! i) = -1"
    using poller_rep_slot [OF rep i] by metis
  have "length cs = length (pw_fds w)" "pw_sameThread w"
    using rep by (simp_all add: poller_rep_def)
  with ch0 ch i show ?thesis
    by (auto simp: Channel_setMask_def Channel_update_def EventLoop_updateChannel_def
        PollPoller_updateChannel_def EventLoop_assertTheSameThread_def masked_world_def
        Channel_isEmptyEvent_def kEmptyEvent_def pollfd_updates)
qed

lemma masked_world_rep:
  assumes rep: "poller_rep w cs" and i: "i < length cs" and ch: "pw_store w (cs ! i) = Some ch"
    and e: "e \<in> event_masks"
  shows "poller_rep (masked_world w (cs ! i) i ch e) cs"
proof -
  let ?w1 = "masked_world w (cs ! i) i ch e"
  have len: "length cs = length (pw_fds w)" using rep by (simp add: poller_rep_def)
  have "slot_ok ?w1 j (cs ! j)" if j: "j < length cs" for j
  proof (cases "j = i")
    case True
    obtain ch0 where "pw_store w (cs ! i) = Some ch0" "ch_idxPoll ch0 = int i" "0 \<le> ch_fd ch0"
        "pw_map w (ch_fd ch0) = Some (cs ! i)"
        "pf_fd (pw_fds w ! i) = ch_fd ch0 \<or> pf_fd (pw_fds w ! i) = -1"
      using poller_rep_slot [OF rep i] by metis
    with True ch e i len show ?thesis by (auto simp: slot_ok_def masked_world_def)
  next
    case False
    then have ne: "cs ! j \<noteq> cs ! i"
      using poller_rep_distinct [OF rep] i j by (simp add: nth_eq_iff_index_eq)
    have "slot_ok w j (cs ! j)" using rep j by (simp add: poller_rep_def)
    then show ?thesis
      by (rule slot_ok_cong) (use ne False in \<open>auto simp: masked_world_def\<close>)
  qed
  moreover have "k \<in> set cs \<and> (\<exists>dh. pw_store ?w1 k = Some dh \<and> ch_fd dh = f)"
    if "pw_map ?w1 f = Some k" for f k
    using that rep ch by (fastforce simp: masked_world_def poller_rep_def)
  ultimately show ?thesis using rep by (simp add: poller_rep_def masked_world_def)
qed

lemma masked_world_watch:
  assumes rep: "poller_rep w cs" and i: "i < length cs" and ch: "pw_store w (cs ! i) = Some ch"
    and e: "e \<in> event_masks"
  shows "kernel_watch (pw_fds (masked_world w (cs ! i) i ch e)) =
           (kernel_watch (pw_fds w))(ch_fd ch :=
              if e \<noteq> 0 \<and> pf_fd (pw_fds w ! i) \<noteq> -1 then Some (ucast e) else None)"
proof -
  let ?p = "\<lparr>pf_fd = (if e = 0 then -1 else pf_fd (pw_fds w ! i)), pf_events = ucast e, pf_revents = 0\<rparr>"
  obtain ch0 where ch0: "pw_store w (cs ! i) = Some ch0" "0 \<le> ch_fd ch0"
      "pf_fd (pw_fds w ! i) = ch_fd ch0 \<or> pf_fd (pw_fds w ! i) = -1"
    using poller_rep_slot [OF rep i] by metis
  have len: "length cs = length (pw_fds w)" using rep by (simp add: poller_rep_def)
  have u1: "fds_unique ((pw_fds w)[i := ?p])"
    using poller_rep_unique [OF masked_world_rep [OF rep i ch e]] by (simp add: masked_world_def)
  have "kernel_watch ((pw_fds w)[i := ?p]) =
      (kernel_watch (pw_fds w))(ch_fd ch := if pf_fd ?p = ch_fd ch then Some (pf_events ?p) else None)"
    by (rule kernel_watch_update [OF poller_rep_unique [OF rep] u1])
      (use i len ch0 ch poller_rep_other_fd [OF rep i ch] in auto)
  with ch0 ch show ?thesis by (auto simp: masked_world_def)
qed

section \<open>Removal keeps the invariant\<close>

definition slots_live :: "'cb pworld \<Rightarrow> bool" where
  "slots_live w \<longleftrightarrow> (\<forall>p \<in> set (pw_fds w). pf_fd p \<noteq> -1)"

lemma slots_live_nth: "slots_live w \<longleftrightarrow> (\<forall>i < length (pw_fds w). pf_fd (pw_fds w ! i) \<noteq> -1)"
  by (simp add: slots_live_def all_set_conv_all_nth)

lemma length_swap_last [simp]: "length (swap_last i xs) = length xs"
  by (simp add: swap_last_def)

lemma swap_last_eq_Nil [simp]: "swap_last i xs = [] \<longleftrightarrow> xs = []"
  by (simp add: swap_last_def)

lemma nth_butlast_swap_last:
  assumes "i < length xs" and "j < length xs - 1"
  shows "butlast (swap_last i xs) ! j = (if j = i then last xs else xs ! j)"
  using assms by (simp add: swap_last_def nth_butlast nth_list_update)

lemma butlast_swap_last_end:
  assumes "xs \<noteq> []"
  shows "butlast (swap_last (length xs - Suc 0) xs) = butlast xs"
  using assms by (simp add: swap_last_def butlast_list_update)

lemma swap_last_members:
  assumes "i < length xs" and "x \<in> set xs" and "x \<noteq> xs ! i"
  shows "x \<in> set (butlast (swap_last i xs))"
proof -
  obtain j where j: "j < length xs" "xs ! j = x" using assms(2) by (auto simp: in_set_conv_nth)
  with assms(3) have "j \<noteq> i" by blast
  let ?k = "if j = length xs - 1 then i else j"
  have "?k < length xs - 1" using j assms(1) \<open>j \<noteq> i\<close> by auto
  moreover have "last xs = xs ! (length xs - 1)" using assms(1) by (intro last_conv_nth) auto
  then have "butlast (swap_last i xs) ! ?k = x"
    using j assms(1) \<open>j \<noteq> i\<close> calculation
    by (cases "j = length xs - 1") (auto simp: nth_butlast_swap_last)
  ultimately show ?thesis by (metis length_butlast length_swap_last nth_mem)
qed

lemma set_butlast_swap_last:
  assumes "distinct xs" and "i < length xs"
  shows "set (butlast (swap_last i xs)) = set xs - {xs ! i}"
proof -
  have ne: "xs \<noteq> []" using assms(2) by auto
  have ys: "swap_last i xs = xs[i := xs ! (length xs - 1), length xs - 1 := xs ! i]"
    using ne by (simp add: swap_last_def last_conv_nth)
  have "set (swap_last i xs) = set xs" "distinct (swap_last i xs)"
    unfolding ys using assms ne by (simp_all add: set_swap distinct_swap)
  moreover have "last (swap_last i xs) = xs ! i"
    using ne by (simp add: swap_last_def last_list_update)
  moreover have "swap_last i xs = butlast (swap_last i xs) @ [last (swap_last i xs)]"
    using ne by simp
  ultimately have "set xs = set (butlast (swap_last i xs) @ [xs ! i])"
      "distinct (butlast (swap_last i xs) @ [xs ! i])" by metis+
  then show ?thesis by auto
qed

lemma check_slots_ok:
  assumes "\<And>i. i < length ps \<Longrightarrow> \<exists>d dh. pw_map w (pf_fd (ps ! i)) = Some d \<and>
             pw_store w d = Some dh \<and> ch_idxPoll dh = k + int i"
  shows "check_slots w k ps = Inr w"
  using assms
proof (induction ps arbitrary: k)
  case (Cons p ps)
  from Cons.prems [of 0] obtain d dh where "pw_map w (pf_fd p) = Some d" "pw_store w d = Some dh"
      "ch_idxPoll dh = k" by auto
  moreover have "check_slots w (k + 1) ps = Inr w"
  proof (rule Cons.IH)
    fix i assume "i < length ps"
    then show "\<exists>d dh. pw_map w (pf_fd (ps ! i)) = Some d \<and> pw_store w d = Some dh \<and>
        ch_idxPoll dh = k + 1 + int i"
      using Cons.prems [of "Suc i"] by (auto simp: algebra_simps)
  qed
  ultimately show ?case by simp
qed simp

lemma check_slots_rep:
  assumes rep: "poller_rep w cs" and live: "slots_live w"
  shows "check_slots w 0 (pw_fds w) = Inr w"
proof (rule check_slots_ok)
  fix i assume "i < length (pw_fds w)"
  then have i: "i < length cs" using rep by (simp add: poller_rep_def)
  obtain ch where "pw_store w (cs ! i) = Some ch" "ch_idxPoll ch = int i"
      "pw_map w (ch_fd ch) = Some (cs ! i)"
      "pf_fd (pw_fds w ! i) = ch_fd ch \<or> pf_fd (pw_fds w ! i) = -1"
    using poller_rep_slot [OF rep i] by metis
  with live i rep show "\<exists>d dh. pw_map w (pf_fd (pw_fds w ! i)) = Some d \<and>
      pw_store w d = Some dh \<and> ch_idxPoll dh = 0 + int i"
    by (auto simp: slots_live_nth poller_rep_def)
qed

text \<open>The world after the removal of slot \<open>i\<close>: the last slot has taken its place.\<close>

definition removed_world :: "'cb pworld \<Rightarrow> nat list \<Rightarrow> nat \<Rightarrow> 'cb channel \<Rightarrow> 'cb pworld" where
  "removed_world w cs i ch =
     w\<lparr>pw_map := (pw_map w)(ch_fd ch := None),
       pw_fds := butlast (swap_last i (pw_fds w)),
       pw_store := (if i = length cs - 1 then pw_store w
                    else (pw_store w)(last cs := map_option (\<lambda>dh. dh\<lparr>ch_idxPoll := int i\<rparr>)
                                                  (pw_store w (last cs))))\<rparr>"

lemma removed_world_rep:
  assumes rep: "poller_rep w cs" and i: "i < length cs" and ch: "pw_store w (cs ! i) = Some ch"
  shows "poller_rep (removed_world w cs i ch) (butlast (swap_last i cs))"
proof -
  let ?w1 = "removed_world w cs i ch" and ?cs = "butlast (swap_last i cs)"
  let ?l = "length cs - 1"
  have len: "length cs = length (pw_fds w)" using rep by (simp add: poller_rep_def)
  have ne: "cs \<noteq> []" using i by auto
  have last: "last cs = cs ! ?l" using ne by (simp add: last_conv_nth)
  have inj: "cs ! a = cs ! b \<longleftrightarrow> a = b" if "a < length cs" "b < length cs" for a b
    using poller_rep_distinct [OF rep] that by (simp add: nth_eq_iff_index_eq)
  have other: "pw_map ?w1 (ch_fd dh) = pw_map w (ch_fd dh)"
    if "k < length cs" "k \<noteq> i" "pw_store w (cs ! k) = Some dh" for k dh
    using poller_rep_fd_inj [OF rep that(1) i that(3) ch] that(2) by (auto simp: removed_world_def)
  have slot: "slot_ok ?w1 j (?cs ! j)" if j: "j < ?l" for j
  proof (cases "j = i")
    case True
    obtain dh where dh: "pw_store w (cs ! ?l) = Some dh" "ch_idxPoll dh = int ?l" "0 \<le> ch_fd dh"
        "ch_events dh \<in> event_masks" "pw_map w (ch_fd dh) = Some (cs ! ?l)"
        "pf_events (pw_fds w ! ?l) = ucast (ch_events dh)"
        "pf_fd (pw_fds w ! ?l) = ch_fd dh \<or> pf_fd (pw_fds w ! ?l) = -1"
      using poller_rep_slot [OF rep, of ?l] ne by (metis diff_less length_greater_0_conv zero_less_one)
    have "last (pw_fds w) = pw_fds w ! ?l" using len ne by (subst last_conv_nth) auto
    then have "pw_fds ?w1 ! j = pw_fds w ! ?l"
      using True j i len by (simp add: removed_world_def nth_butlast_swap_last)
    moreover have "pw_map ?w1 (ch_fd dh) = Some (cs ! ?l)"
      using other [of ?l dh] dh j True ne by auto
    moreover have "?cs ! j = cs ! ?l"
      using True j i last by (simp add: nth_butlast_swap_last)
    ultimately show ?thesis
      using True j dh last by (auto simp: slot_ok_def removed_world_def)
  next
    case False
    have jl: "j < length cs" "j \<noteq> ?l" using j by simp_all
    have "slot_ok w j (cs ! j)" using rep jl by (simp add: poller_rep_def)
    moreover have "pw_store ?w1 (cs ! j) = pw_store w (cs ! j)"
      using inj [of j ?l] jl last ne by (auto simp: removed_world_def)
    moreover have "pw_fds ?w1 ! j = pw_fds w ! j"
      using False j i len by (simp add: removed_world_def nth_butlast_swap_last)
    ultimately have "slot_ok ?w1 j (cs ! j)"
      using other [OF jl(1) False] by (auto intro: slot_ok_cong)
    then show ?thesis using False j i by (simp add: nth_butlast_swap_last)
  qed
  have range: "k \<in> set ?cs \<and> (\<exists>dh. pw_store ?w1 k = Some dh \<and> ch_fd dh = f)"
    if "pw_map ?w1 f = Some k" for f k
  proof -
    from that have f: "f \<noteq> ch_fd ch" "pw_map w f = Some k"
      by (auto simp: removed_world_def split: if_splits)
    with rep obtain dh where k: "k \<in> set cs" "pw_store w k = Some dh" "ch_fd dh = f"
      unfolding poller_rep_def by blast
    with f ch have "k \<noteq> cs ! i" by auto
    with k have "k \<in> set ?cs" using swap_last_members [OF i] by blast
    moreover have "\<exists>dh. pw_store ?w1 k = Some dh \<and> ch_fd dh = f"
      using k by (auto simp: removed_world_def)
    ultimately show ?thesis by blast
  qed
  have "pw_sameThread ?w1" using rep by (simp add: poller_rep_def removed_world_def)
  moreover have "length ?cs = length (pw_fds ?w1)" by (simp add: removed_world_def len)
  ultimately show ?thesis
    unfolding poller_rep_def using slot range by (metis length_butlast length_swap_last)
qed

lemma removed_world_live:
  assumes i: "i < length (pw_fds w)"
    and live: "\<And>j. j < length (pw_fds w) \<Longrightarrow> j \<noteq> i \<Longrightarrow> pf_fd (pw_fds w ! j) \<noteq> -1"
  shows "slots_live (removed_world w cs i ch)"
proof -
  have "pf_fd (butlast (swap_last i (pw_fds w)) ! j) \<noteq> -1" if j: "j < length (pw_fds w) - 1" for j
  proof (cases "j = i")
    case True
    have "last (pw_fds w) = pw_fds w ! (length (pw_fds w) - 1)"
      using i by (intro last_conv_nth) auto
    with True i j live [of "length (pw_fds w) - 1"] show ?thesis
      by (simp add: nth_butlast_swap_last)
  next
    case False
    with i j live [of j] show ?thesis by (simp add: nth_butlast_swap_last)
  qed
  then show ?thesis by (simp add: slots_live_nth removed_world_def)
qed

lemma PollPoller_removeChannel_unfold:
  assumes rep: "poller_rep w cs" and i: "i < length cs" and ch: "pw_store w (cs ! i) = Some ch"
    and empty: "ch_events ch = 0" and masked: "pf_fd (pw_fds w ! i) = -1"
  shows "PollPoller_removeChannel w (cs ! i) =
      bindR
       (if i \<noteq> length (pw_fds w) - 1 then
          derefR (((pw_map w)(ch_fd ch := None)) (pf_fd (swap_last i (pw_fds w) ! i)))
            ''channels_[pollFds_[idx].fd] is null'' (\<lambda>d.
          derefR (pw_store w d) ''channel'' (\<lambda>dh.
            Inr (w\<lparr>pw_map := (pw_map w)(ch_fd ch := None), pw_fds := swap_last i (pw_fds w),
                   pw_store := (pw_store w)(d \<mapsto> dh\<lparr>ch_idxPoll := int i\<rparr>)\<rparr>)))
        else Inr (w\<lparr>pw_map := (pw_map w)(ch_fd ch := None)\<rparr>))
       (\<lambda>w1. check_slots (w1\<lparr>pw_fds := butlast (pw_fds w1)\<rparr>) 0 (butlast (pw_fds w1)))"
proof -
  obtain ch0 where "pw_store w (cs ! i) = Some ch0" "ch_idxPoll ch0 = int i"
      "pw_map w (ch_fd ch0) = Some (cs ! i)" "pf_events (pw_fds w ! i) = ucast (ch_events ch0)"
    using poller_rep_slot [OF rep i] by metis
  then have c: "ch_idxPoll ch = int i" "pw_map w (ch_fd ch) = Some (cs ! i)"
      "pf_events (pw_fds w ! i) = 0"
    using ch empty by simp_all
  have "length cs = length (pw_fds w)" "pw_sameThread w"
    using rep by (simp_all add: poller_rep_def)
  with c ch empty masked i show ?thesis
    by (simp add: PollPoller_removeChannel_def EventLoop_assertTheSameThread_def
        Channel_isEmptyEvent_def kEmptyEvent_def Let_def)
qed

text \<open>The two ways the removal of slot \<open>i\<close> goes on, from a slot of its own.\<close>

lemma removed_world_check:
  assumes rep: "poller_rep w cs" and i: "i < length cs" and ch: "pw_store w (cs ! i) = Some ch"
    and empty: "ch_events ch = 0" and masked: "pf_fd (pw_fds w ! i) = -1"
    and last: "i = length cs - 1 \<or> pf_fd (pw_fds w ! (length cs - 1)) \<noteq> -1"
  shows "PollPoller_removeChannel w (cs ! i) =
           check_slots (removed_world w cs i ch) 0 (pw_fds (removed_world w cs i ch))"
proof -
  let ?l = "length cs - 1" and ?w1 = "removed_world w cs i ch"
  have len: "length cs = length (pw_fds w)" using rep by (simp add: poller_rep_def)
  have ne: "cs \<noteq> []" "pw_fds w \<noteq> []" using i len by auto
  have fds1: "pw_fds ?w1 = butlast (swap_last i (pw_fds w))" by (simp add: removed_world_def)
  note red = PollPoller_removeChannel_unfold [OF rep i ch empty masked]
  show ?thesis
  proof (cases "i = ?l")
    case True
    then have "w\<lparr>pw_map := (pw_map w)(ch_fd ch := None), pw_fds := butlast (pw_fds w)\<rparr> = ?w1"
      using len ne by (simp add: removed_world_def butlast_swap_last_end)
    moreover have "butlast (swap_last i (pw_fds w)) = butlast (pw_fds w)"
      using True len ne by (simp add: butlast_swap_last_end)
    ultimately show ?thesis unfolding red using True len fds1 by simp
  next
    case False
    have l: "?l < length cs" using i by simp
    obtain dh where dh: "pw_store w (cs ! ?l) = Some dh" "pw_map w (ch_fd dh) = Some (cs ! ?l)"
        "pf_fd (pw_fds w ! ?l) = ch_fd dh \<or> pf_fd (pw_fds w ! ?l) = -1"
      using poller_rep_slot [OF rep l] by metis
    have fd: "ch_fd dh \<noteq> ch_fd ch"
      using poller_rep_fd_inj [OF rep l i dh(1) ch] False by blast
    have lst: "last cs = cs ! ?l" "last (pw_fds w) = pw_fds w ! ?l"
      using ne len by (simp_all add: last_conv_nth)
    have "swap_last i (pw_fds w) ! i = pw_fds w ! ?l"
      using i len lst False by (simp add: swap_last_def nth_list_update)
    moreover have "pf_fd (pw_fds w ! ?l) = ch_fd dh" using dh(3) last False by auto
    moreover have "w\<lparr>pw_map := (pw_map w)(ch_fd ch := None),
        pw_store := (pw_store w)(cs ! ?l \<mapsto> dh\<lparr>ch_idxPoll := int i\<rparr>),
        pw_fds := butlast (swap_last i (pw_fds w))\<rparr> = ?w1"
      using False dh(1) lst by (simp add: removed_world_def)
    ultimately show ?thesis
      unfolding red using False len fds1 dh(1,2) fd by simp
  qed
qed

lemma PollPoller_removeChannel_ok:
  assumes rep: "poller_rep w cs" and i: "i < length cs" and ch: "pw_store w (cs ! i) = Some ch"
    and empty: "ch_events ch = 0" and masked: "pf_fd (pw_fds w ! i) = -1"
    and live: "\<And>j. j < length cs \<Longrightarrow> j \<noteq> i \<Longrightarrow> pf_fd (pw_fds w ! j) \<noteq> -1"
  shows "PollPoller_removeChannel w (cs ! i) = Inr (removed_world w cs i ch)"
proof -
  have len: "length cs = length (pw_fds w)" using rep by (simp add: poller_rep_def)
  have "i = length cs - 1 \<or> pf_fd (pw_fds w ! (length cs - 1)) \<noteq> -1"
    using live [of "length cs - 1"] i by (cases "length cs") auto
  moreover have "slots_live (removed_world w cs i ch)"
    using removed_world_live i live len by metis
  ultimately show ?thesis
    using removed_world_check [OF rep i ch empty masked]
      check_slots_rep [OF removed_world_rep [OF rep i ch]] by simp
qed

lemma removed_world_watch:
  assumes rep: "poller_rep w cs" and i: "i < length cs" and ch: "pw_store w (cs ! i) = Some ch"
    and masked: "pf_fd (pw_fds w ! i) = -1"
  shows "kernel_watch (pw_fds (removed_world w cs i ch)) = kernel_watch (pw_fds w)"
proof (rule option_map_eqI)
  fix f e
  let ?fds = "butlast (swap_last i (pw_fds w))"
  have il: "i < length (pw_fds w)" using rep i by (simp add: poller_rep_def)
  have u: "fds_unique ?fds"
    using poller_rep_unique [OF removed_world_rep [OF rep i ch]] by (simp add: removed_world_def)
  have "p \<in> set (pw_fds w)" if "p \<in> set ?fds" for p
  proof -
    from that obtain j where "j < length ?fds" "?fds ! j = p" by (auto simp: in_set_conv_nth)
    moreover have "last (pw_fds w) \<in> set (pw_fds w)" using il by (intro last_in_set) auto
    ultimately show ?thesis using il by (auto simp: nth_butlast_swap_last split: if_splits)
  qed
  moreover have "p \<in> set ?fds" if "p \<in> set (pw_fds w)" "0 \<le> pf_fd p" for p
    using swap_last_members [OF il that(1)] that(2) masked by (cases "p = pw_fds w ! i") auto
  ultimately show "kernel_watch (pw_fds (removed_world w cs i ch)) f = Some e \<longleftrightarrow>
      kernel_watch (pw_fds w) f = Some e"
    unfolding removed_world_def
    by (auto simp: kernel_watch_Some [OF u] kernel_watch_Some [OF poller_rep_unique [OF rep]])
qed

section \<open>Polling reports exactly the ready channels\<close>

text \<open>The store after the reports \<open>rs\<close> have been written to the channels \<open>ds\<close>.\<close>

definition reported_store ::
    "(nat \<rightharpoonup> 'cb channel) \<Rightarrow> nat list \<Rightarrow> 16 word list \<Rightarrow> nat \<rightharpoonup> 'cb channel" where
  "reported_store st ds rs = (\<lambda>c.
     case map_of (zip ds rs) c of
       None \<Rightarrow> st c
     | Some r \<Rightarrow> if r = 0 then st c else map_option (\<lambda>ch. ch\<lparr>ch_revents := scast r\<rparr>) (st c))"

lemma reported_store_quiet:
  assumes "\<forall>r \<in> set rs. r = 0"
  shows "reported_store st ds rs = st"
proof
  fix c
  show "reported_store st ds rs c = st c"
    using assms by (auto simp: reported_store_def split: option.splits
        dest!: map_of_SomeD set_zip_rightD)
qed

lemma reported_store_Cons:
  assumes "d \<notin> set ds"
  shows "reported_store st (d # ds) (r # rs) =
    reported_store (if r = 0 then st else st(d := map_option (\<lambda>ch. ch\<lparr>ch_revents := scast r\<rparr>) (st d))) ds rs"
proof -
  have "map_of (zip ds rs) d = None"
    using assms by (auto simp: map_of_eq_None_iff dest: set_zip_leftD)
  then show ?thesis by (auto simp: reported_store_def fun_eq_iff split: option.splits)
qed

lemma poll_scan_spec:
  assumes "list_all2 (\<lambda>p d. pf_revents p \<noteq> 0 \<longrightarrow> pw_map w (pf_fd p) = Some d \<and>
             (\<exists>ch. pw_store w d = Some ch \<and> pf_fd p = ch_fd ch)) ps ds"
    and "distinct ds" and "num = int (length (filter (\<lambda>p. pf_revents p \<noteq> 0) ps))" and "0 < num"
  shows "poll_scan w num ps act =
    Inr (w\<lparr>pw_store := reported_store (pw_store w) ds (map pf_revents ps)\<rparr>,
         act @ map snd (filter (\<lambda>(p, d). pf_revents p \<noteq> 0) (zip ps ds)))"
  using assms
proof (induction ps arbitrary: ds w num act)
  case Nil
  then show ?case by simp
next
  case (Cons p ps)
  from Cons.prems(1) obtain d es where ds: "ds = d # es"
      and rest: "list_all2 (\<lambda>p d. pf_revents p \<noteq> 0 \<longrightarrow> pw_map w (pf_fd p) = Some d \<and>
             (\<exists>ch. pw_store w d = Some ch \<and> pf_fd p = ch_fd ch)) ps es"
    by (cases ds) auto
  from Cons.prems(2) ds have d: "d \<notin> set es" "distinct es" by auto
  show ?case
  proof (cases "pf_revents p = 0")
    case True
    then show ?thesis
      using Cons.IH [OF rest d(2), of num act] Cons.prems(3,4) ds d(1)
      by (simp add: reported_store_Cons)
  next
    case False
    with Cons.prems(1) ds obtain ch where ch: "pw_map w (pf_fd p) = Some d"
        "pw_store w d = Some ch" "pf_fd p = ch_fd ch" by auto
    let ?w1 = "w\<lparr>pw_store := (pw_store w)(d \<mapsto> ch\<lparr>ch_revents := scast (pf_revents p)\<rparr>)\<rparr>"
    have store: "reported_store (pw_store ?w1) es rs = reported_store (pw_store w) ds (pf_revents p # rs)"
      for rs using False ch(2) ds d(1) by (simp add: reported_store_Cons)
    show ?thesis
    proof (cases "num - 1 \<le> 0")
      case True
      with Cons.prems(3) False have quiet: "filter (\<lambda>p. pf_revents p \<noteq> 0) ps = []" by simp
      then have "\<forall>r \<in> set (map pf_revents ps). r = 0" by (auto simp: filter_empty_conv)
      then have "pw_store ?w1 = reported_store (pw_store w) ds (map pf_revents (p # ps))"
        using store [of "map pf_revents ps"]
          reported_store_quiet [of "map pf_revents ps" "pw_store ?w1" es] by simp
      moreover have "filter (\<lambda>(p, d). pf_revents p \<noteq> 0) (zip ps es) = []"
        using quiet by (auto simp: filter_empty_conv dest: set_zip_leftD)
      ultimately show ?thesis using False True ch ds by simp
    next
      case more: False
      have "list_all2 (\<lambda>p d. pf_revents p \<noteq> 0 \<longrightarrow> pw_map ?w1 (pf_fd p) = Some d \<and>
             (\<exists>ch. pw_store ?w1 d = Some ch \<and> pf_fd p = ch_fd ch)) ps es"
        using rest by (rule list_all2_mono) (use ch(2) in auto)
      from Cons.IH [OF this d(2), of "num - 1" "act @ [d]"]
      have "poll_scan ?w1 (num - 1) ps (act @ [d]) =
          Inr (w\<lparr>pw_store := reported_store (pw_store w) ds (pf_revents p # map pf_revents ps)\<rparr>,
               (act @ [d]) @ map snd (filter (\<lambda>(p, d). pf_revents p \<noteq> 0) (zip ps es)))"
        unfolding store using Cons.prems(3) False more by simp
      then show ?thesis using False more ch ds by simp
    qed
  qed
qed

section \<open>The interface of an event multiplexer\<close>

text \<open>
  What the owners of channels rely on. Between their operations all registered channels are
  \<open>live\<close> (the kernel watches them); a channel is closed by disabling all its events and
  removing it. \<open>cs\<close> are the registered channels, \<open>watch\<close> is what the kernel watches.
\<close>

locale io_multiplexer =
  fixes rep :: "'w \<Rightarrow> nat list \<Rightarrow> bool"
    and live :: "'w \<Rightarrow> bool"
    and obj :: "'w \<Rightarrow> nat \<rightharpoonup> 'cb channel"
    and used :: "'w \<Rightarrow> int set"
    and watch :: "'w \<Rightarrow> int \<Rightarrow> 16 word option"
    and setMask :: "(32 word \<Rightarrow> 32 word) \<Rightarrow> 'w \<Rightarrow> nat \<Rightarrow> 'w res"
    and remove :: "'w \<Rightarrow> nat \<Rightarrow> 'w res"
  assumes add_law: "rep w cs \<Longrightarrow> live w \<Longrightarrow> obj w c = Some ch \<Longrightarrow> ch_idxPoll ch < 0 \<Longrightarrow> 0 \<le> ch_fd ch \<Longrightarrow>
      ch_fd ch \<notin> used w \<Longrightarrow> f (ch_events ch) \<in> event_masks \<Longrightarrow>
      \<exists>w1. setMask f w c = Inr w1 \<and> rep w1 (cs @ [c]) \<and> live w1 \<and>
           used w1 = insert (ch_fd ch) (used w) \<and>
           (\<exists>i. obj w1 = (obj w)(c \<mapsto> ch\<lparr>ch_events := f (ch_events ch), ch_idxPoll := i\<rparr>)) \<and>
           watch w1 = (watch w)(ch_fd ch \<mapsto> ucast (f (ch_events ch)))"
    and mask_law: "rep w cs \<Longrightarrow> live w \<Longrightarrow> c \<in> set cs \<Longrightarrow> obj w c = Some ch \<Longrightarrow>
      f (ch_events ch) \<in> event_masks \<Longrightarrow> f (ch_events ch) \<noteq> 0 \<Longrightarrow>
      \<exists>w1. setMask f w c = Inr w1 \<and> rep w1 cs \<and> live w1 \<and> used w1 = used w \<and>
           obj w1 = (obj w)(c \<mapsto> ch\<lparr>ch_events := f (ch_events ch)\<rparr>) \<and>
           watch w1 = (watch w)(ch_fd ch \<mapsto> ucast (f (ch_events ch)))"
    and close_law: "rep w cs \<Longrightarrow> live w \<Longrightarrow> c \<in> set cs \<Longrightarrow> obj w c = Some ch \<Longrightarrow>
      \<exists>w1 cs1. bindR (setMask (\<lambda>_. kEmptyEvent) w c) (\<lambda>w. remove w c) = Inr w1 \<and>
           rep w1 cs1 \<and> live w1 \<and> set cs1 = set cs - {c} \<and> used w1 = used w - {ch_fd ch} \<and>
           (\<forall>d. \<exists>i. obj w1 d = map_option (\<lambda>dh. dh\<lparr>ch_idxPoll := i\<rparr>)
              (((obj w)(c \<mapsto> ch\<lparr>ch_events := 0\<rparr>)) d)) \<and>
           obj w1 c = Some (ch\<lparr>ch_events := 0\<rparr>) \<and>
           watch w1 = (watch w)(ch_fd ch := None)"
begin

text \<open>Registering a channel and closing it leaves the kernel watching what it did before.\<close>

lemma add_close_neutral:
  assumes "rep w cs" "live w" "obj w c = Some ch" "ch_idxPoll ch < 0" "0 \<le> ch_fd ch"
    and "ch_fd ch \<notin> used w" "f (ch_events ch) \<in> event_masks" "watch w (ch_fd ch) = None"
  shows "\<exists>w1 w2. setMask f w c = Inr w1 \<and>
           bindR (setMask (\<lambda>_. kEmptyEvent) w1 c) (\<lambda>w. remove w c) = Inr w2 \<and>
           watch w2 = watch w \<and> used w2 = used w"
proof -
  obtain w1 i where w1: "setMask f w c = Inr w1" "rep w1 (cs @ [c])" "live w1"
      "used w1 = insert (ch_fd ch) (used w)"
      "obj w1 = (obj w)(c \<mapsto> ch\<lparr>ch_events := f (ch_events ch), ch_idxPoll := i\<rparr>)"
      "watch w1 = (watch w)(ch_fd ch \<mapsto> ucast (f (ch_events ch)))"
    using add_law [of w cs c ch f, OF assms(1-7)] by blast
  have "\<exists>w2 cs1. bindR (setMask (\<lambda>_. kEmptyEvent) w1 c) (\<lambda>w. remove w c) = Inr w2 \<and>
      used w2 = used w1 - {ch_fd ch} \<and> watch w2 = (watch w1)(ch_fd ch := None)"
    using close_law [OF w1(2,3), of c "ch\<lparr>ch_events := f (ch_events ch), ch_idxPoll := i\<rparr>"] w1(5)
    by auto
  with w1 assms(6,8) show ?thesis by (auto simp: fun_eq_iff)
qed

text \<open>Asking for writability and giving it up again restores the old interest.\<close>

lemma toggle_writing:
  assumes "rep w cs" "live w" "c \<in> set cs" "obj w c = Some ch"
    and "ch_events ch = kReadPollEvent" "watch w (ch_fd ch) = Some (ucast kReadPollEvent)"
  shows "\<exists>w1 w2. setMask mask_enableWriting w c = Inr w1 \<and>
           watch w1 (ch_fd ch) = Some (ucast (kReadPollEvent OR kWritePollEvent)) \<and>
           setMask mask_disableWriting w1 c = Inr w2 \<and> watch w2 = watch w \<and> rep w2 cs \<and> live w2"
proof -
  have e: "mask_enableWriting kReadPollEvent = kReadPollEvent OR kWritePollEvent"
      "mask_disableWriting (kReadPollEvent OR kWritePollEvent) = kReadPollEvent"
      "kReadPollEvent \<noteq> 0" "kReadPollEvent OR kWritePollEvent \<noteq> 0"
      "kReadPollEvent \<in> event_masks" "kReadPollEvent OR kWritePollEvent \<in> event_masks"
    by (simp_all add: mask_enableWriting_def mask_disableWriting_def event_defs event_masks_def)
  obtain w1 where w1: "setMask mask_enableWriting w c = Inr w1" "rep w1 cs" "live w1"
      "obj w1 = (obj w)(c \<mapsto> ch\<lparr>ch_events := kReadPollEvent OR kWritePollEvent\<rparr>)"
      "watch w1 = (watch w)(ch_fd ch \<mapsto> ucast (kReadPollEvent OR kWritePollEvent))"
    using mask_law [OF assms(1-4), of mask_enableWriting] assms(5) e by auto
  have "obj w1 c = Some (ch\<lparr>ch_events := kReadPollEvent OR kWritePollEvent\<rparr>)" using w1(4) by simp
  from mask_law [OF w1(2,3) assms(3) this, of mask_disableWriting] e w1 assms(6)
  show ?thesis by (auto simp: fun_eq_iff)
qed

end

section \<open>The poller provides it\<close>

lemma poller_add:
  assumes rep: "poller_rep w cs" and live: "slots_live w" and ch: "pw_store w c = Some ch"
    and idx: "ch_idxPoll ch < 0" and fd: "0 \<le> ch_fd ch" "ch_fd ch \<notin> dom (pw_map w)"
    and ev: "f (ch_events ch) \<in> event_masks"
  shows "\<exists>w1. Channel_setMask f w c = Inr w1 \<and> poller_rep w1 (cs @ [c]) \<and> slots_live w1 \<and>
           dom (pw_map w1) = insert (ch_fd ch) (dom (pw_map w)) \<and>
           (\<exists>i. pw_store w1 = (pw_store w)(c \<mapsto> ch\<lparr>ch_events := f (ch_events ch), ch_idxPoll := i\<rparr>)) \<and>
           kernel_watch (pw_fds w1) = (kernel_watch (pw_fds w))(ch_fd ch \<mapsto> ucast (f (ch_events ch)))"
proof -
  let ?w0 = "w\<lparr>pw_store := (pw_store w)(c \<mapsto> ch\<lparr>ch_events := f (ch_events ch)\<rparr>)\<rparr>"
  have rep0: "poller_rep ?w0 cs"
    by (rule rep_store_other [OF rep rep_not_registered [OF rep ch idx]])
  have thr: "pw_sameThread w" using rep by (simp add: poller_rep_def)
  have free: "pw_map w (ch_fd ch) = None" using fd(2) by auto
  obtain w1 where w1: "PollPoller_updateChannel ?w0 c = Inr w1" "poller_rep w1 (cs @ [c])"
      "pw_store w1 = (pw_store ?w0)(c \<mapsto> ch\<lparr>ch_events := f (ch_events ch), ch_idxPoll := int (length cs)\<rparr>)"
      "pw_map w1 = (pw_map ?w0)(ch_fd ch \<mapsto> c)"
      "kernel_watch (pw_fds w1) = (kernel_watch (pw_fds ?w0))(ch_fd ch \<mapsto> ucast (f (ch_events ch)))"
    using PollPoller_updateChannel_fresh [OF rep0, of c "ch\<lparr>ch_events := f (ch_events ch)\<rparr>"] idx fd(1) free ev
    by auto
  have "w1 = ?w0\<lparr>pw_fds := pw_fds w @ [\<lparr>pf_fd = ch_fd ch, pf_events = ucast (f (ch_events ch)), pf_revents = 0\<rparr>],
      pw_store := (pw_store ?w0)(c \<mapsto> ch\<lparr>ch_events := f (ch_events ch), ch_idxPoll := int (length (pw_fds w))\<rparr>),
      pw_map := (pw_map w)(ch_fd ch \<mapsto> c)\<rparr>"
    using w1(1) idx free thr by (simp add: PollPoller_updateChannel_def EventLoop_assertTheSameThread_def)
  then have "slots_live w1" using live fd(1) by (auto simp: slots_live_def)
  moreover have "Channel_setMask f w c = Inr w1"
    using ch w1(1) thr by (simp add: Channel_setMask_def Channel_update_def EventLoop_updateChannel_def
        EventLoop_assertTheSameThread_def)
  ultimately show ?thesis using w1 by auto
qed

lemma poller_mask:
  assumes rep: "poller_rep w cs" and live: "slots_live w" and c: "c \<in> set cs"
    and ch: "pw_store w c = Some ch" and ev: "f (ch_events ch) \<in> event_masks" "f (ch_events ch) \<noteq> 0"
  shows "\<exists>w1. Channel_setMask f w c = Inr w1 \<and> poller_rep w1 cs \<and> slots_live w1 \<and>
           dom (pw_map w1) = dom (pw_map w) \<and>
           pw_store w1 = (pw_store w)(c \<mapsto> ch\<lparr>ch_events := f (ch_events ch)\<rparr>) \<and>
           kernel_watch (pw_fds w1) = (kernel_watch (pw_fds w))(ch_fd ch \<mapsto> ucast (f (ch_events ch)))"
proof -
  from c obtain i where i: "i < length cs" "cs ! i = c" by (auto simp: in_set_conv_nth)
  let ?w1 = "masked_world w c i ch (f (ch_events ch))"
  have il: "i < length (pw_fds w)" using rep i by (simp add: poller_rep_def)
  have "pf_fd (pw_fds w ! i) \<noteq> -1" using live il by (simp add: slots_live_nth)
  moreover have "slots_live ?w1"
    using live il ev by (auto simp: slots_live_nth masked_world_def nth_list_update)
  ultimately show ?thesis
    using Channel_setMask_registered [OF rep i(1), unfolded i(2), OF ch]
      masked_world_rep [OF rep i(1), unfolded i(2), OF ch ev(1)]
      masked_world_watch [OF rep i(1), unfolded i(2), OF ch ev(1)] ev(2)
    by (auto simp: masked_world_def)
qed

lemma poller_disable_remove:
  assumes rep: "poller_rep w cs" and i: "i < length cs" and ch: "pw_store w (cs ! i) = Some ch"
    and live: "\<And>j. j < length cs \<Longrightarrow> j \<noteq> i \<Longrightarrow> pf_fd (pw_fds w ! j) \<noteq> -1"
  shows "bindR (Channel_disableEvents w (cs ! i)) (\<lambda>w. Channel_remove w (cs ! i)) =
           Inr (removed_world (masked_world w (cs ! i) i ch 0) cs i (ch\<lparr>ch_events := 0\<rparr>))"
proof -
  let ?w1 = "masked_world w (cs ! i) i ch 0"
  have il: "i < length (pw_fds w)" and thr: "pw_sameThread w"
    using rep i by (simp_all add: poller_rep_def)
  have rep1: "poller_rep ?w1 cs"
    by (rule masked_world_rep [OF rep i ch]) (simp add: event_masks_def)
  have ch1: "pw_store ?w1 (cs ! i) = Some (ch\<lparr>ch_events := 0\<rparr>)" by (simp add: masked_world_def)
  have "PollPoller_removeChannel ?w1 (cs ! i) = Inr (removed_world ?w1 cs i (ch\<lparr>ch_events := 0\<rparr>))"
    by (rule PollPoller_removeChannel_ok [OF rep1 i ch1])
      (use il live in \<open>auto simp: masked_world_def\<close>)
  moreover have "Channel_disableEvents w (cs ! i) = Inr ?w1"
    using Channel_setMask_registered [OF rep i ch, of "\<lambda>_. kEmptyEvent"]
    by (simp add: Channel_disableEvents_def kEmptyEvent_def)
  ultimately show ?thesis
    using ch1 thr by (simp add: Channel_remove_def EventLoop_removeChannel_def Channel_isEmptyEvent_def
        kEmptyEvent_def EventLoop_assertTheSameThread_def masked_world_def)
qed

lemma channel_idx_self: "\<exists>k. x = map_option (\<lambda>dh. dh\<lparr>ch_idxPoll := k\<rparr>) x"
proof (cases x)
  case (Some ch)
  then have "x = map_option (\<lambda>dh. dh\<lparr>ch_idxPoll := ch_idxPoll ch\<rparr>) x" by simp
  then show ?thesis ..
qed simp

lemma poller_close:
  assumes rep: "poller_rep w cs" and live: "slots_live w" and c: "c \<in> set cs"
    and ch: "pw_store w c = Some ch"
  shows "\<exists>w1 cs1. bindR (Channel_setMask (\<lambda>_. kEmptyEvent) w c) (\<lambda>w. Channel_remove w c) = Inr w1 \<and>
           poller_rep w1 cs1 \<and> slots_live w1 \<and> set cs1 = set cs - {c} \<and>
           dom (pw_map w1) = dom (pw_map w) - {ch_fd ch} \<and>
           (\<forall>d. \<exists>i. pw_store w1 d = map_option (\<lambda>dh. dh\<lparr>ch_idxPoll := i\<rparr>)
              (((pw_store w)(c \<mapsto> ch\<lparr>ch_events := 0\<rparr>)) d)) \<and>
           pw_store w1 c = Some (ch\<lparr>ch_events := 0\<rparr>) \<and>
           kernel_watch (pw_fds w1) = (kernel_watch (pw_fds w))(ch_fd ch := None)"
proof -
  from c obtain i where i: "i < length cs" "cs ! i = c" by (auto simp: in_set_conv_nth)
  let ?w1 = "masked_world w c i ch 0"
  let ?w2 = "removed_world ?w1 cs i (ch\<lparr>ch_events := 0\<rparr>)"
  let ?cs = "butlast (swap_last i cs)"
  have il: "i < length (pw_fds w)" using rep i by (simp add: poller_rep_def)
  have ev: "0 \<in> event_masks" by (simp add: event_masks_def)
  have ch1: "pw_store ?w1 (cs ! i) = Some (ch\<lparr>ch_events := 0\<rparr>)" using i by (simp add: masked_world_def)
  have rep1: "poller_rep ?w1 cs"
    using masked_world_rep [OF rep i(1), unfolded i(2), OF ch ev] .
  have masked: "pf_fd (pw_fds ?w1 ! i) = -1" using il by (simp add: masked_world_def)
  have run: "bindR (Channel_setMask (\<lambda>_. kEmptyEvent) w c) (\<lambda>w. Channel_remove w c) = Inr ?w2"
    using poller_disable_remove [OF rep i(1), unfolded i(2), OF ch] live rep
    by (simp add: Channel_disableEvents_def slots_live_nth poller_rep_def)
  have live2: "slots_live ?w2"
    by (rule removed_world_live)
      (use il live in \<open>auto simp: masked_world_def slots_live_nth nth_list_update\<close>)
  have watch: "kernel_watch (pw_fds ?w2) = (kernel_watch (pw_fds w))(ch_fd ch := None)"
    using removed_world_watch [OF rep1 i(1) ch1 masked]
      masked_world_watch [OF rep i(1), unfolded i(2), OF ch ev] by simp
  have "set ?cs = set cs - {c}"
    using set_butlast_swap_last [OF poller_rep_distinct [OF rep] i(1)] i(2) by simp
  moreover have "\<exists>k. pw_store ?w2 d = map_option (\<lambda>dh. dh\<lparr>ch_idxPoll := k\<rparr>)
      (((pw_store w)(c \<mapsto> ch\<lparr>ch_events := 0\<rparr>)) d)" for d
  proof -
    have w1: "((pw_store w)(c \<mapsto> ch\<lparr>ch_events := 0\<rparr>)) d = pw_store ?w1 d"
      by (simp add: masked_world_def)
    show ?thesis
      unfolding w1 using channel_idx_self [of "pw_store ?w1 d"]
      by (cases "i \<noteq> length cs - 1 \<and> d = last cs") (auto simp: removed_world_def)
  qed
  moreover have "pw_store ?w2 c = Some (ch\<lparr>ch_events := 0\<rparr>)"
  proof (cases "i = length cs - 1")
    case True
    then show ?thesis using ch1 i(2) by (simp add: removed_world_def)
  next
    case False
    have "last cs = cs ! (length cs - 1)" using i(1) by (intro last_conv_nth) auto
    then have "last cs \<noteq> c"
      using False i poller_rep_distinct [OF rep] by (auto simp: nth_eq_iff_index_eq)
    then show ?thesis using False ch1 i(2) by (simp add: removed_world_def)
  qed
  ultimately show ?thesis
    using run removed_world_rep [OF rep1 i(1) ch1] live2 watch
    by (intro exI [of _ ?w2] exI [of _ ?cs]) (auto simp: removed_world_def masked_world_def)
qed

interpretation poller: io_multiplexer poller_rep slots_live pw_store "\<lambda>w. dom (pw_map w)"
    "\<lambda>w. kernel_watch (pw_fds w)" Channel_setMask Channel_remove
  by unfold_locales (rule poller_add poller_mask poller_close; assumption)+

section \<open>Runs of channel operations\<close>

text \<open>
  A client opens channels (a fresh object for a descriptor, with a first toggle), toggles
  their interest and closes them. The specification is a table of the open channels with
  descriptor and mask; it is \<open>None\<close> when the client breaks the protocol: a descriptor used
  twice, an unknown channel, or a toggle that leaves no interest at all.
\<close>

datatype toggle = EnableReading | DisableReading | EnableWriting | DisableWriting

fun toggle_mask :: "toggle \<Rightarrow> 32 word \<Rightarrow> 32 word" where
  "toggle_mask EnableReading = mask_enableReading"
| "toggle_mask DisableReading = mask_disableReading"
| "toggle_mask EnableWriting = mask_enableWriting"
| "toggle_mask DisableWriting = mask_disableWriting"

fun Channel_toggle :: "toggle \<Rightarrow> 'cb pworld \<Rightarrow> nat \<Rightarrow> 'cb pworld res" where
  "Channel_toggle EnableReading w c = Channel_enableReading w c"
| "Channel_toggle DisableReading w c = Channel_disableReading w c"
| "Channel_toggle EnableWriting w c = Channel_enableWriting w c"
| "Channel_toggle DisableWriting w c = Channel_disableWriting w c"

lemma Channel_toggle_setMask: "Channel_toggle t w c = Channel_setMask (toggle_mask t) w c"
  by (cases t) (simp_all add: Channel_enableReading_def Channel_disableReading_def
      Channel_enableWriting_def Channel_disableWriting_def)

lemma toggle_mask_closed: "e \<in> event_masks \<Longrightarrow> toggle_mask t e \<in> event_masks"
  by (cases t) (simp_all add: event_masks_closed)

datatype chan_op = Open nat int toggle | Toggle nat toggle | Close nat

fun chan_run :: "'cb pworld \<Rightarrow> chan_op list \<Rightarrow> 'cb pworld res" where
  "chan_run w [] = Inr w"
| "chan_run w (Open c fd t # ops) =
     bindR (Channel_toggle t (w\<lparr>pw_store := (pw_store w)(c \<mapsto> Channel_new fd)\<rparr>) c) (\<lambda>w1. chan_run w1 ops)"
| "chan_run w (Toggle c t # ops) = bindR (Channel_toggle t w c) (\<lambda>w1. chan_run w1 ops)"
| "chan_run w (Close c # ops) =
     bindR (bindR (Channel_disableEvents w c) (\<lambda>w1. Channel_remove w1 c)) (\<lambda>w2.
     chan_run (w2\<lparr>pw_store := (pw_store w2)(c := None)\<rparr>) ops)"

fun table_run :: "(nat \<rightharpoonup> int \<times> 32 word) \<Rightarrow> chan_op list \<Rightarrow> (nat \<rightharpoonup> int \<times> 32 word) option" where
  "table_run tb [] = Some tb"
| "table_run tb (Open c fd t # ops) =
     (if 0 \<le> fd \<and> tb c = None \<and> (\<forall>(fd1, m) \<in> ran tb. fd1 \<noteq> fd) \<and> toggle_mask t 0 \<noteq> 0
      then table_run (tb(c \<mapsto> (fd, toggle_mask t 0))) ops else None)"
| "table_run tb (Toggle c t # ops) =
     (case tb c of None \<Rightarrow> None
      | Some (fd, m) \<Rightarrow> if toggle_mask t m \<noteq> 0 then table_run (tb(c \<mapsto> (fd, toggle_mask t m))) ops else None)"
| "table_run tb (Close c # ops) =
     (case tb c of None \<Rightarrow> None | Some _ \<Rightarrow> table_run (tb(c := None)) ops)"

definition table_rel :: "'cb pworld \<Rightarrow> (nat \<rightharpoonup> int \<times> 32 word) \<Rightarrow> bool" where
  "table_rel w tb \<longleftrightarrow>
     (\<exists>cs. poller_rep w cs \<and> slots_live w \<and> set cs = dom tb \<and>
        (\<forall>c fd m. tb c = Some (fd, m) \<longrightarrow>
           (\<exists>ch. pw_store w c = Some ch \<and> ch_fd ch = fd \<and> ch_events ch = m \<and> m \<noteq> 0)))"

lemma table_rel_new: "table_rel PollPoller_new Map.empty"
  unfolding table_rel_def
  by (rule exI [of _ "[]"]) (simp add: slots_live_def PollPoller_new_def poller_rep_def)

lemma rep_live_watch:
  assumes rep: "poller_rep w cs" and live: "slots_live w"
  shows "kernel_watch (pw_fds w) f = Some e \<longleftrightarrow>
           (\<exists>c ch. c \<in> set cs \<and> pw_store w c = Some ch \<and> ch_fd ch = f \<and> e = ucast (ch_events ch))"
proof -
  have len: "length cs = length (pw_fds w)" using rep by (simp add: poller_rep_def)
  have slot: "\<exists>ch. pw_store w (cs ! i) = Some ch \<and> 0 \<le> ch_fd ch \<and> pf_fd (pw_fds w ! i) = ch_fd ch \<and>
      pf_events (pw_fds w ! i) = ucast (ch_events ch)" if "i < length cs" for i
  proof -
    obtain ch where "pw_store w (cs ! i) = Some ch" "0 \<le> ch_fd ch"
        "pf_events (pw_fds w ! i) = ucast (ch_events ch)"
        "pf_fd (pw_fds w ! i) = ch_fd ch \<or> pf_fd (pw_fds w ! i) = -1"
      using poller_rep_slot [OF rep \<open>i < length cs\<close>] by metis
    with live len \<open>i < length cs\<close> show ?thesis by (auto simp: slots_live_nth)
  qed
  show ?thesis
  proof
    assume "kernel_watch (pw_fds w) f = Some e"
    then obtain i where "i < length cs" "pf_fd (pw_fds w ! i) = f" "pf_events (pw_fds w ! i) = e"
      unfolding kernel_watch_Some [OF poller_rep_unique [OF rep]]
      using len by (auto simp: in_set_conv_nth)
    with slot show "\<exists>c ch. c \<in> set cs \<and> pw_store w c = Some ch \<and> ch_fd ch = f \<and> e = ucast (ch_events ch)"
      by (metis nth_mem)
  next
    assume "\<exists>c ch. c \<in> set cs \<and> pw_store w c = Some ch \<and> ch_fd ch = f \<and> e = ucast (ch_events ch)"
    then obtain i ch where i: "i < length cs" "pw_store w (cs ! i) = Some ch" "ch_fd ch = f"
        "e = ucast (ch_events ch)" by (auto simp: in_set_conv_nth)
    with slot [OF i(1)] len show "kernel_watch (pw_fds w) f = Some e"
      unfolding kernel_watch_Some [OF poller_rep_unique [OF rep]]
      by (intro conjI bexI [of _ "pw_fds w ! i"]) auto
  qed
qed

lemma table_rel_watch:
  assumes "table_rel w tb"
  shows "kernel_watch (pw_fds w) f = Some e \<longleftrightarrow> (\<exists>c m. tb c = Some (f, m) \<and> e = ucast m)"
proof -
  from assms obtain cs where cs: "poller_rep w cs" "slots_live w" "set cs = dom tb"
      "\<And>c fd m. tb c = Some (fd, m) \<Longrightarrow> \<exists>ch. pw_store w c = Some ch \<and> ch_fd ch = fd \<and> ch_events ch = m"
    unfolding table_rel_def by blast
  show ?thesis
    unfolding rep_live_watch [OF cs(1,2)] cs(3) using cs(4) by fastforce
qed

lemma table_rel_open:
  assumes rel: "table_rel w tb" and fd: "0 \<le> fd" "\<forall>(fd1, m) \<in> ran tb. fd1 \<noteq> fd"
    and c: "tb c = None" and m: "toggle_mask t 0 \<noteq> 0"
  shows "\<exists>w1. Channel_toggle t (w\<lparr>pw_store := (pw_store w)(c \<mapsto> Channel_new fd)\<rparr>) c = Inr w1 \<and>
           table_rel w1 (tb(c \<mapsto> (fd, toggle_mask t 0)))"
proof -
  from rel obtain cs where cs: "poller_rep w cs" "slots_live w" "set cs = dom tb"
      "\<And>c fd m. tb c = Some (fd, m) \<Longrightarrow>
         \<exists>ch. pw_store w c = Some ch \<and> ch_fd ch = fd \<and> ch_events ch = m \<and> m \<noteq> 0"
    unfolding table_rel_def by blast
  let ?w0 = "w\<lparr>pw_store := (pw_store w)(c \<mapsto> Channel_new fd)\<rparr>"
  have rep0: "poller_rep ?w0 cs" by (rule rep_store_other [OF cs(1)]) (use cs(3) c in auto)
  have "pw_map w fd = None"
  proof (rule ccontr)
    assume "pw_map w fd \<noteq> None"
    then obtain d dh where "d \<in> set cs" "pw_store w d = Some dh" "ch_fd dh = fd"
      using cs(1) unfolding poller_rep_def by blast
    with cs(3,4) fd(2) show False by (fastforce simp: ran_def)
  qed
  then obtain w1 i where w1: "Channel_setMask (toggle_mask t) ?w0 c = Inr w1" "poller_rep w1 (cs @ [c])"
      "slots_live w1"
      "pw_store w1 = (pw_store ?w0)(c \<mapsto> (Channel_new fd)\<lparr>ch_events := toggle_mask t 0, ch_idxPoll := i\<rparr>)"
    using poller.add_law [of ?w0 cs c "Channel_new fd" "toggle_mask t"] rep0 cs(2) fd(1)
      toggle_mask_closed [of 0 t]
    by (auto simp: Channel_new_def slots_live_def event_masks_def domIff)
  have "table_rel w1 (tb(c \<mapsto> (fd, toggle_mask t 0)))"
    unfolding table_rel_def
    by (rule exI [of _ "cs @ [c]"]) (use w1 cs m in \<open>auto simp: Channel_new_def\<close>)
  with w1(1) show ?thesis by (simp add: Channel_toggle_setMask)
qed

lemma table_rel_toggle:
  assumes rel: "table_rel w tb" and c: "tb c = Some (fd, m)" and m: "toggle_mask t m \<noteq> 0"
  shows "\<exists>w1. Channel_toggle t w c = Inr w1 \<and> table_rel w1 (tb(c \<mapsto> (fd, toggle_mask t m)))"
proof -
  from rel obtain cs where cs: "poller_rep w cs" "slots_live w" "set cs = dom tb"
      "\<And>c fd m. tb c = Some (fd, m) \<Longrightarrow>
         \<exists>ch. pw_store w c = Some ch \<and> ch_fd ch = fd \<and> ch_events ch = m \<and> m \<noteq> 0"
    unfolding table_rel_def by blast
  from cs(3) c have mem: "c \<in> set cs" by auto
  then obtain i where i: "i < length cs" "cs ! i = c" by (auto simp: in_set_conv_nth)
  from cs(4) [OF c] obtain ch where ch: "pw_store w c = Some ch" "ch_fd ch = fd" "ch_events ch = m"
    by blast
  have "m \<in> event_masks" using poller_rep_slot [OF cs(1) i(1)] i(2) ch by (metis option.inject)
  then obtain w1 where w1: "Channel_setMask (toggle_mask t) w c = Inr w1" "poller_rep w1 cs" "slots_live w1"
      "pw_store w1 = (pw_store w)(c \<mapsto> ch\<lparr>ch_events := toggle_mask t m\<rparr>)"
    using poller.mask_law [of w cs c ch "toggle_mask t"] cs(1,2) mem ch m toggle_mask_closed
    by auto
  have "table_rel w1 (tb(c \<mapsto> (fd, toggle_mask t m)))"
    unfolding table_rel_def
    by (rule exI [of _ cs]) (use w1 cs c m ch in auto)
  with w1(1) show ?thesis by (simp add: Channel_toggle_setMask)
qed

lemma table_rel_close:
  assumes rel: "table_rel w tb" and c: "tb c = Some x"
  shows "\<exists>w1. bindR (Channel_disableEvents w c) (\<lambda>w1. Channel_remove w1 c) = Inr w1 \<and>
           table_rel (w1\<lparr>pw_store := (pw_store w1)(c := None)\<rparr>) (tb(c := None))"
proof -
  from rel obtain cs where cs: "poller_rep w cs" "slots_live w" "set cs = dom tb"
      "\<And>c fd m. tb c = Some (fd, m) \<Longrightarrow>
         \<exists>ch. pw_store w c = Some ch \<and> ch_fd ch = fd \<and> ch_events ch = m \<and> m \<noteq> 0"
    unfolding table_rel_def by blast
  from cs(3) c have mem: "c \<in> set cs" by auto
  obtain ch where ch: "pw_store w c = Some ch" using cs(4) c by (cases x) blast
  obtain w1 cs1 where w1: "bindR (Channel_setMask (\<lambda>_. kEmptyEvent) w c) (\<lambda>w. Channel_remove w c) = Inr w1"
      "poller_rep w1 cs1" "slots_live w1" "set cs1 = set cs - {c}"
      "\<And>d. \<exists>i. pw_store w1 d = map_option (\<lambda>dh. dh\<lparr>ch_idxPoll := i\<rparr>)
              (((pw_store w)(c \<mapsto> ch\<lparr>ch_events := 0\<rparr>)) d)"
    using poller.close_law [OF cs(1,2) mem ch] by blast
  let ?w2 = "w1\<lparr>pw_store := (pw_store w1)(c := None)\<rparr>"
  have "poller_rep ?w2 cs1" by (rule rep_store_other [OF w1(2)]) (simp add: w1(4))
  moreover have "\<exists>dh. pw_store w1 d = Some dh \<and> ch_fd dh = fd \<and> ch_events dh = m \<and> m \<noteq> 0"
    if d: "tb d = Some (fd, m)" "d \<noteq> c" for d fd m
    using w1(5) [of d] cs(4) [OF d(1)] d(2) by auto
  ultimately have "table_rel ?w2 (tb(c := None))"
    unfolding table_rel_def
    by (intro exI [of _ cs1]) (use w1(3,4) cs(3) in \<open>auto simp: slots_live_def\<close>)
  with w1(1) show ?thesis by (auto simp: Channel_disableEvents_def)
qed

lemma chan_run_table:
  assumes "table_rel w tb" and "table_run tb ops = Some tb1"
  shows "\<exists>w1. chan_run w ops = Inr w1 \<and> table_rel w1 tb1"
  using assms
proof (induction ops arbitrary: tb w)
  case Nil
  then show ?case by simp
next
  case (Cons x ops)
  show ?case
  proof (cases x)
    case (Open c fd t)
    with Cons.prems have ok: "0 \<le> fd" "\<forall>(fd1, m) \<in> ran tb. fd1 \<noteq> fd" "tb c = None" "toggle_mask t 0 \<noteq> 0"
      and rest: "table_run (tb(c \<mapsto> (fd, toggle_mask t 0))) ops = Some tb1"
      by (simp_all split: if_splits)
    obtain w1 where w1: "Channel_toggle t (w\<lparr>pw_store := (pw_store w)(c \<mapsto> Channel_new fd)\<rparr>) c = Inr w1"
        "table_rel w1 (tb(c \<mapsto> (fd, toggle_mask t 0)))"
      using table_rel_open [OF Cons.prems(1) ok] by blast
    from Cons.IH [OF w1(2) rest] w1(1) Open show ?thesis by simp
  next
    case (Toggle c t)
    with Cons.prems obtain fd m where m: "tb c = Some (fd, m)" "toggle_mask t m \<noteq> 0"
      and rest: "table_run (tb(c \<mapsto> (fd, toggle_mask t m))) ops = Some tb1"
      by (auto split: option.splits if_splits)
    obtain w1 where w1: "Channel_toggle t w c = Inr w1" "table_rel w1 (tb(c \<mapsto> (fd, toggle_mask t m)))"
      using table_rel_toggle [OF Cons.prems(1) m] by blast
    from Cons.IH [OF w1(2) rest] w1(1) Toggle show ?thesis by simp
  next
    case (Close c)
    with Cons.prems obtain y where y: "tb c = Some y" and rest: "table_run (tb(c := None)) ops = Some tb1"
      by (auto split: option.splits)
    obtain w1 where w1: "bindR (Channel_disableEvents w c) (\<lambda>w1. Channel_remove w1 c) = Inr w1"
        "table_rel (w1\<lparr>pw_store := (pw_store w1)(c := None)\<rparr>) (tb(c := None))"
      using table_rel_close [OF Cons.prems(1) y] by blast
    from Cons.IH [OF w1(2) rest] w1(1) Close show ?thesis by simp
  qed
qed

section \<open>Properties\<close>

text \<open>C10. On a poller that starts empty, a client that keeps the channel protocol (no descriptor twice, no
  toggle that leaves a channel without interest, closing as disable-and-remove) never runs into
  an assert or a null pointer, and afterwards the kernel is asked to watch exactly the open
  channels, each with its current mask.\<close>

theorem poller_watches_table:
  assumes "table_run Map.empty ops = Some tb"
  shows "\<exists>w. chan_run (PollPoller_new :: 'cb pworld) ops = Inr w \<and>
           (\<forall>f e. kernel_watch (pw_fds w) f = Some e \<longleftrightarrow> (\<exists>c m. tb c = Some (f, m) \<and> e = ucast m))"
proof -
  obtain w where "chan_run (PollPoller_new :: 'cb pworld) ops = Inr w" "table_rel w tb"
    using chan_run_table [OF table_rel_new assms] by blast
  with table_rel_watch show ?thesis by blast
qed

lemma poller_watches_table_witness:
  "\<exists>w. chan_run (PollPoller_new :: unit pworld)
          [Open 1 10 EnableReading, Open 2 11 EnableReading, Toggle 1 EnableWriting, Close 2] = Inr w \<and>
        kernel_watch (pw_fds w) 10 = Some 8199"
proof -
  have "table_run Map.empty
      [Open 1 10 EnableReading, Open 2 11 EnableReading, Toggle 1 EnableWriting, Close 2] =
      Some [1 \<mapsto> (10, 8199)]"
    by (simp add: mask_enableReading_def mask_enableWriting_def event_defs ran_def fun_eq_iff)
  from poller_watches_table [where 'cb = unit, OF this]
  obtain w where w: "chan_run (PollPoller_new :: unit pworld)
      [Open 1 10 EnableReading, Open 2 11 EnableReading, Toggle 1 EnableWriting, Close 2] = Inr w"
    "\<And>f e. kernel_watch (pw_fds w) f = Some e \<longleftrightarrow> (\<exists>c m. [1 :: nat \<mapsto> (10, 8199)] c = Some (f, m) \<and> e = ucast (m :: 32 word))"
    by blast
  then have "kernel_watch (pw_fds w) 10 = Some 8199"
    by (auto split: if_splits)
  with w(1) show ?thesis by blast
qed

text \<open>A channel that is left without interest is never watched again: after any toggle that
  empties the mask, switching interest back on succeeds and updates the channel, but its slot
  keeps descriptor -1 and the kernel does not watch it.\<close>

theorem reenable_is_not_watched:
  assumes "poller_rep w cs" and "c \<in> set cs" and "pw_store w c = Some ch"
    and "off (ch_events ch) = 0" and "on 0 \<in> event_masks" and "on 0 \<noteq> 0"
  shows "\<exists>w1 w2. Channel_setMask off w c = Inr w1 \<and> Channel_setMask on w1 c = Inr w2 \<and>
           poller_rep w2 cs \<and> (\<exists>dh. pw_store w2 c = Some dh \<and> ch_events dh = on 0) \<and>
           kernel_watch (pw_fds w2) (ch_fd ch) = None"
proof -
  from assms(2) obtain i where i: "i < length cs" "cs ! i = c" by (auto simp: in_set_conv_nth)
  have il: "i < length (pw_fds w)" using assms(1) i by (simp add: poller_rep_def)
  let ?w1 = "masked_world w c i ch 0" and ?dh = "ch\<lparr>ch_events := 0\<rparr>"
  let ?w2 = "masked_world ?w1 c i ?dh (on 0)"
  have z: "0 \<in> event_masks" by (simp add: event_masks_def)
  have rep1: "poller_rep ?w1 cs"
    using masked_world_rep [OF assms(1) i(1), unfolded i(2), OF assms(3) z] .
  have ch1: "pw_store ?w1 c = Some ?dh" by (simp add: masked_world_def)
  have "Channel_setMask off w c = Inr ?w1"
    using Channel_setMask_registered [OF assms(1) i(1), unfolded i(2), OF assms(3)] assms(4) by simp
  moreover have "Channel_setMask on ?w1 c = Inr ?w2"
    using Channel_setMask_registered [OF rep1 i(1), unfolded i(2), OF ch1, of on] by simp
  moreover have "kernel_watch (pw_fds ?w2) (ch_fd ch) = None"
    using masked_world_watch [OF rep1 i(1), unfolded i(2), OF ch1 assms(5)] il
    by (simp add: masked_world_def)
  moreover have "poller_rep ?w2 cs"
    using masked_world_rep [OF rep1 i(1), unfolded i(2), OF ch1 assms(5)] .
  ultimately show ?thesis by (auto simp: masked_world_def)
qed

text \<open>A concrete world: one registered reader on descriptor 10.\<close>

definition reader_world :: "unit pworld" where
  "reader_world =
     \<lparr>pw_store = [1 \<mapsto> (Channel_new 10)\<lparr>ch_events := kReadPollEvent, ch_idxPoll := 0\<rparr>],
      pw_map = [10 \<mapsto> 1],
      pw_fds = [\<lparr>pf_fd = 10, pf_events = ucast kReadPollEvent, pf_revents = 0\<rparr>],
      pw_sameThread = True\<rparr>"

lemma reader_world_rep: "poller_rep reader_world [1]"
  by (auto simp: poller_rep_def slot_ok_def reader_world_def Channel_new_def event_masks_def
      split: if_splits)

lemma reenable_is_not_watched_witness:
  "\<exists>w1 w2. Channel_setMask mask_disableReading reader_world 1 = Inr w1 \<and>
           Channel_setMask mask_enableReading w1 1 = Inr w2 \<and> kernel_watch (pw_fds w2) 10 = None"
  using reenable_is_not_watched [OF reader_world_rep, of 1
      "(Channel_new 10)\<lparr>ch_events := kReadPollEvent, ch_idxPoll := 0\<rparr>"
      mask_disableReading mask_enableReading]
  by (auto simp: reader_world_def mask_disableReading_def mask_enableReading_def event_defs
      event_masks_def Channel_new_def)

lemma check_slots_masked:
  assumes "pw_map w (-1) = None"
    and "\<And>i. i < length ps \<Longrightarrow> pf_fd (ps ! i) \<noteq> -1 \<Longrightarrow>
           \<exists>d dh. pw_map w (pf_fd (ps ! i)) = Some d \<and> pw_store w d = Some dh \<and> ch_idxPoll dh = k + int i"
    and "\<exists>p \<in> set ps. pf_fd p = -1"
  shows "check_slots w k ps = Inl (Undefined ''channels_[pollFds_[i].fd] is null'')"
  using assms(2,3)
proof (induction ps arbitrary: k)
  case (Cons p ps)
  show ?case
  proof (cases "pf_fd p = -1")
    case True
    with assms(1) show ?thesis by simp
  next
    case False
    with Cons.prems(1) [of 0] obtain d dh where d: "pw_map w (pf_fd p) = Some d"
        "pw_store w d = Some dh" "ch_idxPoll dh = k" by auto
    have "check_slots w (k + 1) ps = Inl (Undefined ''channels_[pollFds_[i].fd] is null'')"
    proof (rule Cons.IH)
      fix i assume "i < length ps" and "pf_fd (ps ! i) \<noteq> -1"
      then show "\<exists>d dh. pw_map w (pf_fd (ps ! i)) = Some d \<and> pw_store w d = Some dh \<and>
          ch_idxPoll dh = k + 1 + int i"
        using Cons.prems(1) [of "Suc i"] by (auto simp: algebra_simps)
    qed (use Cons.prems(2) False in auto)
    with d show ?thesis by simp
  qed
qed simp

lemma poller_rep_no_negative:
  assumes "poller_rep w cs"
  shows "pw_map w (-1) = None"
proof (rule ccontr)
  assume "pw_map w (-1) \<noteq> None"
  then obtain c ch where c: "c \<in> set cs" "pw_store w c = Some ch" "ch_fd ch = -1"
    using assms unfolding poller_rep_def by blast
  then obtain i where "i < length cs" "cs ! i = c" by (auto simp: in_set_conv_nth)
  with poller_rep_slot [OF assms this(1)] c show False by (metis neg_0_le_iff_le not_one_le_zero option.inject)
qed

lemma removed_world_masked:
  assumes rep: "poller_rep w cs" and i: "i < length cs" and ch: "pw_store w (cs ! i) = Some ch"
    and j: "j < length cs" "j \<noteq> i" "pf_fd (pw_fds w ! j) = -1"
  shows "check_slots (removed_world w cs i ch) 0 (pw_fds (removed_world w cs i ch)) =
           Inl (Undefined ''channels_[pollFds_[i].fd] is null'')"
proof (rule check_slots_masked)
  let ?w1 = "removed_world w cs i ch"
  note rep1 = removed_world_rep [OF rep i ch]
  show "pw_map ?w1 (-1) = None" by (rule poller_rep_no_negative [OF rep1])
  fix k assume k: "k < length (pw_fds ?w1)" "pf_fd (pw_fds ?w1 ! k) \<noteq> -1"
  then have "k < length (butlast (swap_last i cs))" using rep1 unfolding poller_rep_def by simp
  from poller_rep_slot [OF rep1 this] k(2)
  show "\<exists>d dh. pw_map ?w1 (pf_fd (pw_fds ?w1 ! k)) = Some d \<and> pw_store ?w1 d = Some dh \<and>
      ch_idxPoll dh = 0 + int k" by (metis add_0)
next
  let ?w1 = "removed_world w cs i ch"
  have len: "length cs = length (pw_fds w)" using rep by (simp add: poller_rep_def)
  let ?k = "if j = length cs - 1 then i else j"
  have k: "?k < length (pw_fds w) - 1" using i j len by auto
  have "last (pw_fds w) = pw_fds w ! (length (pw_fds w) - 1)" using i len by (intro last_conv_nth) auto
  then have "pf_fd (pw_fds ?w1 ! ?k) = -1"
    using i j len k by (auto simp: removed_world_def nth_butlast_swap_last)
  moreover have "?k < length (pw_fds ?w1)" using k by (simp add: removed_world_def)
  ultimately show "\<exists>p \<in> set (pw_fds ?w1). pf_fd p = -1" by (metis nth_mem)
qed

lemma PollPoller_removeChannel_beside_masked:
  assumes rep: "poller_rep w cs" and i: "i < length cs" and ch: "pw_store w (cs ! i) = Some ch"
    and empty: "ch_events ch = 0" and masked: "pf_fd (pw_fds w ! i) = -1"
    and j: "j < length cs" "j \<noteq> i" "pf_fd (pw_fds w ! j) = -1"
  shows "\<exists>m. PollPoller_removeChannel w (cs ! i) = Inl (Undefined m)"
proof (cases "i = length cs - 1 \<or> pf_fd (pw_fds w ! (length cs - 1)) \<noteq> -1")
  case True
  then show ?thesis
    using removed_world_check [OF rep i ch empty masked] removed_world_masked [OF rep i ch j] by simp
next
  case False
  have len: "length cs = length (pw_fds w)" using rep by (simp add: poller_rep_def)
  have "last (pw_fds w) = pw_fds w ! (length cs - 1)" using i len by (subst last_conv_nth) auto
  then have "pf_fd (swap_last i (pw_fds w) ! i) = -1"
    using i len False by (simp add: swap_last_def nth_list_update)
  then show ?thesis
    using PollPoller_removeChannel_unfold [OF rep i ch empty masked] poller_rep_no_negative [OF rep]
      False len by (auto simp: fun_upd_def)
qed

text \<open>C35. Closing any channel while another registered channel has its interest switched off
  crashes the process: \<^verbatim>\<open>removeChannel\<close> looks descriptor -1 up in \<^verbatim>\<open>channels_\<close>, which
  inserts a null pointer, and dereferences it.\<close>

theorem close_beside_disabled_crashes:
  assumes "poller_rep w cs" and "a \<in> set cs" and "b \<in> set cs" and "a \<noteq> b"
    and "pw_store w a = Some ah" and "off (ch_events ah) = 0" and "pw_store w b = Some bh"
  shows "\<exists>m. bindR (Channel_setMask off w a) (\<lambda>w1. bindR (Channel_disableEvents w1 b)
               (\<lambda>w2. Channel_remove w2 b)) = Inl (Undefined m)"
proof -
  obtain i where i: "i < length cs" "cs ! i = a" using assms(2) by (auto simp: in_set_conv_nth)
  obtain j where j: "j < length cs" "cs ! j = b" using assms(3) by (auto simp: in_set_conv_nth)
  have len: "length cs = length (pw_fds w)" and thr: "pw_sameThread w"
    using assms(1) by (simp_all add: poller_rep_def)
  have ij: "i \<noteq> j" using i j assms(4) by auto
  let ?w1 = "masked_world w a i ah 0"
  let ?w2 = "masked_world ?w1 b j bh 0"
  have z: "0 \<in> event_masks" by (simp add: event_masks_def)
  have rep1: "poller_rep ?w1 cs"
    using masked_world_rep [OF assms(1) i(1), unfolded i(2), OF assms(5) z] .
  have b1: "pw_store ?w1 b = Some bh" using assms(4,7) by (simp add: masked_world_def)
  have rep2: "poller_rep ?w2 cs"
    using masked_world_rep [OF rep1 j(1), unfolded j(2), OF b1 z] .
  have b2: "pw_store ?w2 (cs ! j) = Some (bh\<lparr>ch_events := 0\<rparr>)" using j by (simp add: masked_world_def)
  have s1: "Channel_setMask off w a = Inr ?w1"
    using Channel_setMask_registered [OF assms(1) i(1), unfolded i(2), OF assms(5)] assms(6) by simp
  have s2: "Channel_disableEvents ?w1 b = Inr ?w2"
    using Channel_setMask_registered [OF rep1 j(1), unfolded j(2), OF b1, of "\<lambda>_. kEmptyEvent"]
    by (simp add: Channel_disableEvents_def kEmptyEvent_def)
  have "\<exists>m. PollPoller_removeChannel ?w2 (cs ! j) = Inl (Undefined m)"
    by (rule PollPoller_removeChannel_beside_masked [OF rep2 j(1) b2 _ _ i(1)])
      (use i j ij len in \<open>auto simp: masked_world_def\<close>)
  then obtain m where "PollPoller_removeChannel ?w2 b = Inl (Undefined m)" using j(2) by auto
  then have "Channel_remove ?w2 b = Inl (Undefined m)"
    using b2 j(2) thr by (simp add: Channel_remove_def EventLoop_removeChannel_def
        Channel_isEmptyEvent_def kEmptyEvent_def EventLoop_assertTheSameThread_def masked_world_def)
  with s1 s2 show ?thesis by simp
qed

definition two_readers_world :: "unit pworld" where
  "two_readers_world =
     \<lparr>pw_store = [1 \<mapsto> (Channel_new 10)\<lparr>ch_events := kReadPollEvent, ch_idxPoll := 0\<rparr>,
                  2 \<mapsto> (Channel_new 11)\<lparr>ch_events := kReadPollEvent, ch_idxPoll := 1\<rparr>],
      pw_map = [10 \<mapsto> 1, 11 \<mapsto> 2],
      pw_fds = [\<lparr>pf_fd = 10, pf_events = ucast kReadPollEvent, pf_revents = 0\<rparr>,
                \<lparr>pf_fd = 11, pf_events = ucast kReadPollEvent, pf_revents = 0\<rparr>],
      pw_sameThread = True\<rparr>"

lemma two_readers_world_rep: "poller_rep two_readers_world [1, 2]"
  by (auto simp: poller_rep_def slot_ok_def two_readers_world_def Channel_new_def event_masks_def
      less_Suc_eq split: if_splits)

lemma close_beside_disabled_crashes_witness:
  "\<exists>m. bindR (Channel_setMask mask_disableReading two_readers_world 1)
         (\<lambda>w1. bindR (Channel_disableEvents w1 2) (\<lambda>w2. Channel_remove w2 2)) = Inl (Undefined m)"
  by (rule close_beside_disabled_crashes [OF two_readers_world_rep,
        where ah = "(Channel_new 10)\<lparr>ch_events := kReadPollEvent, ch_idxPoll := 0\<rparr>"
          and bh = "(Channel_new 11)\<lparr>ch_events := kReadPollEvent, ch_idxPoll := 1\<rparr>"])
    (simp_all add: two_readers_world_def mask_disableReading_def event_defs Channel_new_def)

text \<open>A channel that was never registered cannot be torn down: the destructors' sequence of
  disabling all events and removing the channel aborts, because the first registration stores
  the descriptor itself in the slot although the mask is empty.\<close>

theorem teardown_unregistered_aborts:
  assumes "poller_rep w cs" and "pw_store w c = Some ch" and "ch_idxPoll ch < 0"
    and "0 \<le> ch_fd ch" and "pw_map w (ch_fd ch) = None"
  shows "bindR (Channel_disableEvents w c) (\<lambda>w1. Channel_remove w1 c) =
           Inl (AssertFail ''pollFds_[idx].fd == -1'')"
  using assms
  by (simp add: poller_rep_def Channel_disableEvents_def Channel_setMask_def Channel_update_def
      EventLoop_updateChannel_def PollPoller_updateChannel_def EventLoop_assertTheSameThread_def
      Channel_remove_def EventLoop_removeChannel_def PollPoller_removeChannel_def
      Channel_isEmptyEvent_def nat_int_add Let_def)

lemma teardown_unregistered_aborts_witness:
  "bindR (Channel_disableEvents (reader_world\<lparr>pw_store := (pw_store reader_world)(2 \<mapsto> Channel_new 11)\<rparr>) 2)
     (\<lambda>w1. Channel_remove w1 2) = Inl (AssertFail ''pollFds_[idx].fd == -1'')"
  by (rule teardown_unregistered_aborts [where ch = "Channel_new 11", OF rep_store_other [OF reader_world_rep]])
    (simp_all add: reader_world_def Channel_new_def)

lemma disableEvents_unknown:
  assumes "pw_store w c = Some dh" and "0 \<le> ch_idxPoll dh" and "ch_fd dh = fd"
    and "pw_map w fd = None" and "pw_sameThread w"
  shows "Channel_disableEvents w c = Inl (AssertFail ''channels_.find(fd) != end'')"
  using assms by (simp add: Channel_disableEvents_def Channel_setMask_def Channel_update_def
      EventLoop_updateChannel_def PollPoller_updateChannel_def EventLoop_assertTheSameThread_def)

text \<open>Closing a channel a second time aborts: after disable-and-remove the object still has
  its old slot number, and \<^verbatim>\<open>updateChannel\<close> asserts that its descriptor is known.\<close>

theorem second_close_aborts:
  assumes "poller_rep w cs" and "slots_live w" and "c \<in> set cs" and "pw_store w c = Some ch"
  shows "\<exists>w1. bindR (Channel_disableEvents w c) (\<lambda>w. Channel_remove w c) = Inr w1 \<and>
           Channel_disableEvents w1 c = Inl (AssertFail ''channels_.find(fd) != end'')"
proof -
  from assms(3) obtain i where i: "i < length cs" "cs ! i = c" by (auto simp: in_set_conv_nth)
  let ?w1 = "removed_world (masked_world w c i ch 0) cs i (ch\<lparr>ch_events := 0\<rparr>)"
  have run: "bindR (Channel_disableEvents w c) (\<lambda>w. Channel_remove w c) = Inr ?w1"
    using poller_disable_remove [OF assms(1) i(1), unfolded i(2), OF assms(4)] assms(1,2)
    by (simp add: slots_live_nth poller_rep_def)
  obtain ch0 where "pw_store w c = Some ch0" "ch_idxPoll ch0 = int i"
    using poller_rep_slot [OF assms(1) i(1)] i(2) by metis
  then have idx: "ch_idxPoll ch = int i" using assms(4) by simp
  have thr: "pw_sameThread w" using assms(1) by (simp add: poller_rep_def)
  have "pw_store ?w1 c = Some (if i \<noteq> length cs - 1 \<and> c = last cs
      then ch\<lparr>ch_events := 0, ch_idxPoll := int i\<rparr> else ch\<lparr>ch_events := 0\<rparr>)"
    by (auto simp: removed_world_def masked_world_def)
  then obtain dh where "pw_store ?w1 c = Some dh" "0 \<le> ch_idxPoll dh" "ch_fd dh = ch_fd ch"
    using idx by (cases "i \<noteq> length cs - 1 \<and> c = last cs") simp_all
  then have "Channel_disableEvents ?w1 c = Inl (AssertFail ''channels_.find(fd) != end'')"
    by (rule disableEvents_unknown) (simp_all add: thr removed_world_def masked_world_def)
  with run show ?thesis by blast
qed

lemma second_close_aborts_witness:
  "\<exists>w1. bindR (Channel_disableEvents two_readers_world 1) (\<lambda>w. Channel_remove w 1) = Inr w1 \<and>
        Channel_disableEvents w1 1 = Inl (AssertFail ''channels_.find(fd) != end'')"
  by (rule second_close_aborts [OF two_readers_world_rep])
    (simp_all add: slots_live_def two_readers_world_def)

lemma count_reports:
  "length (filter (\<lambda>r. r \<noteq> 0) (map pf_revents ps)) = length (filter (\<lambda>p. pf_revents p \<noteq> 0) ps)"
  by (induction ps) auto

lemma ready_reports:
  "map snd (filter (\<lambda>(r, c). r \<noteq> 0) (zip (map pf_revents ps) cs)) =
   map snd (filter (\<lambda>(p, c). pf_revents p \<noteq> 0) (zip ps cs))"
proof (induction ps arbitrary: cs)
  case (Cons p ps)
  then show ?case by (cases cs) auto
qed simp

text \<open>When the kernel answers as \<^verbatim>\<open>poll(2)\<close> documents (no report for negative descriptors,
  the return value counts the non-zero reports), \<^verbatim>\<open>poll\<close> passes its asserts, stores each report
  in its channel and nowhere else, and returns exactly the reported channels in slot order.\<close>

theorem poll_reports_ready:
  assumes rep: "poller_rep w cs" and len: "length revs = length (pw_fds w)"
    and neg: "\<forall>i < length revs. pf_fd (pw_fds w ! i) < 0 \<longrightarrow> revs ! i = 0"
    and num: "num = int (length (filter (\<lambda>r. r \<noteq> 0) revs))"
  shows "\<exists>w1. PollPoller_poll w num revs act =
             Inr (w1, act @ map snd (filter (\<lambda>(r, c). r \<noteq> 0) (zip revs cs))) \<and>
           pw_map w1 = pw_map w \<and> pw_store w1 = reported_store (pw_store w) cs revs \<and>
           pw_fds w1 = map2 (\<lambda>p r. p\<lparr>pf_revents := r\<rparr>) (pw_fds w) revs \<and> pw_sameThread w1 = pw_sameThread w"
proof -
  let ?fds = "map2 (\<lambda>p r. p\<lparr>pf_revents := r\<rparr>) (pw_fds w) revs"
  let ?w0 = "w\<lparr>pw_fds := ?fds\<rparr>"
  have lens: "length cs = length (pw_fds w)" using rep by (simp add: poller_rep_def)
  have nth: "?fds ! i = (pw_fds w ! i)\<lparr>pf_revents := revs ! i\<rparr>" if "i < length cs" for i
    using that len lens by simp
  have revs: "map pf_revents ?fds = revs"
    using len by (auto intro!: nth_equalityI)
  have "list_all2 (\<lambda>p d. pf_revents p \<noteq> 0 \<longrightarrow> pw_map ?w0 (pf_fd p) = Some d \<and>
      (\<exists>ch. pw_store ?w0 d = Some ch \<and> pf_fd p = ch_fd ch)) ?fds cs"
  proof (rule list_all2_all_nthI)
    fix i assume "i < length ?fds"
    then have i: "i < length cs" using len lens by simp
    obtain ch where "pw_store w (cs ! i) = Some ch" "pw_map w (ch_fd ch) = Some (cs ! i)"
        "pf_fd (pw_fds w ! i) = ch_fd ch \<or> pf_fd (pw_fds w ! i) = -1"
      using poller_rep_slot [OF rep i] by metis
    then show "pf_revents (?fds ! i) \<noteq> 0 \<longrightarrow> pw_map ?w0 (pf_fd (?fds ! i)) = Some (cs ! i) \<and>
        (\<exists>ch. pw_store ?w0 (cs ! i) = Some ch \<and> pf_fd (?fds ! i) = ch_fd ch)"
      using neg i len lens nth [OF i] by auto
  qed (use len lens in simp)
  note scan = poll_scan_spec [OF this poller_rep_distinct [OF rep], where num = num and act = act]
  note count = count_reports [of ?fds, unfolded revs]
  note act = ready_reports [of ?fds cs, unfolded revs]
  show ?thesis
  proof (cases "num = 0")
    case True
    then have quiet: "\<forall>r \<in> set revs. r = 0" using num by (auto simp: filter_empty_conv)
    then have "filter (\<lambda>(r, c). r \<noteq> 0) (zip revs cs) = []"
      by (auto simp: filter_empty_conv dest: set_zip_leftD)
    with True show ?thesis
      by (simp add: PollPoller_poll_def Let_def reported_store_quiet [OF quiet, of "pw_store w" cs])
  next
    case False
    with num have "0 < num" by simp
    with scan num count act revs show ?thesis by (simp add: PollPoller_poll_def)
  qed
qed

lemma poll_reports_ready_witness:
  "\<exists>w1. PollPoller_poll two_readers_world 1 [0, 1] [] = Inr (w1, [2])"
  using poll_reports_ready [OF two_readers_world_rep, of "[0, 1]" 1 "[]"]
  by (auto simp: two_readers_world_def less_Suc_eq)

lemma reported_store_at:
  assumes rep: "poller_rep w cs" and len: "length revs = length cs" and i: "i < length cs"
  shows "reported_store st cs revs (cs ! i) =
    (if revs ! i = 0 then st (cs ! i) else map_option (\<lambda>ch. ch\<lparr>ch_revents := scast (revs ! i)\<rparr>) (st (cs ! i)))"
proof -
  have "map_of (zip cs revs) (cs ! i) = Some (revs ! i)"
    using poller_rep_distinct [OF rep] len i by (simp add: map_of_zip_nth)
  then show ?thesis by (simp add: reported_store_def)
qed

text \<open>A poll keeps the representation: it changes reports only.\<close>

lemma reported_store_map: "\<exists>f. \<forall>ch. ch_fd (f ch) = ch_fd ch \<and> ch_idxPoll (f ch) = ch_idxPoll ch \<and>
    ch_events (f ch) = ch_events ch \<and> ch_closeCb (f ch) = ch_closeCb ch \<and> ch_errorCb (f ch) = ch_errorCb ch \<and>
    ch_readCb (f ch) = ch_readCb ch \<and> ch_writeCb (f ch) = ch_writeCb ch \<and>
    reported_store st cs revs c = map_option f (st c)"
proof (cases "\<exists>r. map_of (zip cs revs) c = Some r \<and> r \<noteq> 0")
  case True
  then obtain r where "map_of (zip cs revs) c = Some r" "r \<noteq> 0" by blast
  then show ?thesis
    by (intro exI [of _ "\<lambda>ch. ch\<lparr>ch_revents := scast r\<rparr>"]) (simp add: reported_store_def)
next
  case False
  then show ?thesis
    by (intro exI [of _ "\<lambda>ch. ch"]) (auto simp: reported_store_def option.map_ident split: option.splits)
qed

lemma poll_keeps_rep:
  assumes rep: "poller_rep w cs" and len: "length revs = length (pw_fds w)"
    and w1: "pw_map w1 = pw_map w" "pw_store w1 = reported_store (pw_store w) cs revs"
      "pw_fds w1 = map2 (\<lambda>p r. p\<lparr>pf_revents := r\<rparr>) (pw_fds w) revs" "pw_sameThread w1 = pw_sameThread w"
  shows "poller_rep w1 cs"
proof -
  have lens: "length cs = length (pw_fds w)" using rep by (simp add: poller_rep_def)
  have fds: "pf_fd (pw_fds w1 ! i) = pf_fd (pw_fds w ! i)" "pf_events (pw_fds w1 ! i) = pf_events (pw_fds w ! i)"
    if "i < length cs" for i using that w1(3) lens len by simp_all
  have "slot_ok w1 i (cs ! i)" if i: "i < length cs" for i
  proof -
    obtain ch where ch: "pw_store w (cs ! i) = Some ch" "ch_idxPoll ch = int i" "0 \<le> ch_fd ch"
      "ch_events ch \<in> event_masks" "pw_map w (ch_fd ch) = Some (cs ! i)"
      "pf_events (pw_fds w ! i) = ucast (ch_events ch)"
      "pf_fd (pw_fds w ! i) = ch_fd ch \<or> pf_fd (pw_fds w ! i) = -1"
      using poller_rep_slot [OF rep i] by metis
    obtain f where "ch_fd (f ch) = ch_fd ch" "ch_idxPoll (f ch) = ch_idxPoll ch" "ch_events (f ch) = ch_events ch"
      "pw_store w1 (cs ! i) = Some (f ch)"
      using reported_store_map [of "pw_store w" cs revs "cs ! i"] ch(1) w1(2) by auto
    with ch fds [OF i] w1(1) show ?thesis by (simp add: slot_ok_def)
  qed
  moreover have "c \<in> set cs \<and> (\<exists>ch. pw_store w1 c = Some ch \<and> ch_fd ch = f)" if "pw_map w1 f = Some c" for f c
  proof -
    have "c \<in> set cs \<and> (\<exists>ch. pw_store w c = Some ch \<and> ch_fd ch = f)"
      using that rep w1(1) unfolding poller_rep_def by metis
    then show ?thesis using reported_store_map [of "pw_store w" cs revs c] w1(2) by auto
  qed
  ultimately show ?thesis using rep w1(3,4) lens len by (simp add: poller_rep_def)
qed

section \<open>What the channel operations do to the channel objects\<close>

lemma setMask_store:
  assumes "Channel_setMask f w d = Inr w1" "pw_store w d = Some ch"
  shows "\<exists>i. pw_store w1 = (pw_store w)(d \<mapsto> ch\<lparr>ch_events := f (ch_events ch), ch_idxPoll := i\<rparr>)"
proof -
  have ch: "ch\<lparr>ch_events := e, ch_idxPoll := ch_idxPoll ch\<rparr> = ch\<lparr>ch_events := e\<rparr>" for e by simp
  show ?thesis
    using assms
    by (auto simp: Channel_setMask_def Channel_update_def EventLoop_updateChannel_def PollPoller_updateChannel_def
        EventLoop_assertTheSameThread_def res_iffs Let_def split: if_split_asm intro: exI [of _ "ch_idxPoll ch"])
qed

text \<open>No operation changes what a dispatch reads of a channel object, or destroys one.\<close>

definition same_views :: "'cb pworld \<Rightarrow> 'cb pworld \<Rightarrow> bool" where
  "same_views w w1 \<longleftrightarrow> (\<forall>d. map_option ch_view (pw_store w1 d) = map_option ch_view (pw_store w d))"

lemma same_views_refl [simp]: "same_views w w"
  by (simp add: same_views_def)

lemma same_views_trans: "same_views w w1 \<Longrightarrow> same_views w1 w2 \<Longrightarrow> same_views w w2"
  by (simp add: same_views_def)

lemma ch_view_updates [simp]:
  "ch_view (ch\<lparr>ch_events := e\<rparr>) = ch_view ch" "ch_view (ch\<lparr>ch_idxPoll := i\<rparr>) = ch_view ch"
  by (simp_all add: ch_view_def)

lemma same_views_upd:
  "pw_store w d = Some ch \<Longrightarrow> ch_view ch1 = ch_view ch \<Longrightarrow> pw_store w1 = (pw_store w)(d \<mapsto> ch1) \<Longrightarrow> same_views w w1"
  by (simp add: same_views_def)

lemma setMask_views:
  assumes "Channel_setMask f w d = Inr w1"
  shows "same_views w w1"
proof -
  obtain ch where ch: "pw_store w d = Some ch" using assms by (auto simp: Channel_setMask_def res_iffs)
  obtain i where "pw_store w1 = (pw_store w)(d \<mapsto> ch\<lparr>ch_events := f (ch_events ch), ch_idxPoll := i\<rparr>)"
    using setMask_store [OF assms ch] by blast
  with ch show ?thesis by (intro same_views_upd [OF ch]) simp_all
qed

lemma check_slots_same: "check_slots w i ps = Inr w1 \<Longrightarrow> w1 = w"
  by (induction w i ps rule: check_slots.induct) (auto simp: res_iffs)

lemma remove_views:
  assumes "Channel_remove w d = Inr w1"
  shows "same_views w w1"
  using assms
  by (auto simp: Channel_remove_def EventLoop_removeChannel_def EventLoop_assertTheSameThread_def
      PollPoller_removeChannel_def res_iffs Let_def same_views_def dest!: check_slots_same split: if_split_asm)

text \<open>And no channel but the one it is called on is registered by it.\<close>

lemma ran_updD: "x \<in> ran (m(k \<mapsto> y)) \<Longrightarrow> x = y \<or> x \<in> ran m" "x \<in> ran (m(k := None)) \<Longrightarrow> x \<in> ran m"
  by (auto simp: ran_def split: if_split_asm)

lemma setMask_registers: "Channel_setMask f w d = Inr w1 \<Longrightarrow> ran (pw_map w1) \<subseteq> insert d (ran (pw_map w))"
  by (auto simp: Channel_setMask_def Channel_update_def EventLoop_updateChannel_def PollPoller_updateChannel_def
      EventLoop_assertTheSameThread_def res_iffs Let_def split: if_split_asm dest!: ran_updD)

lemma remove_registers: "Channel_remove w d = Inr w1 \<Longrightarrow> ran (pw_map w1) \<subseteq> insert d (ran (pw_map w))"
  by (auto simp: Channel_remove_def EventLoop_removeChannel_def EventLoop_assertTheSameThread_def
      PollPoller_removeChannel_def res_iffs Let_def dest!: check_slots_same ran_updD(2) split: if_split_asm)

definition channel_frame :: "nat \<Rightarrow> 'cb pworld \<Rightarrow> 'cb pworld \<Rightarrow> bool" where
  "channel_frame d w w1 \<longleftrightarrow> same_views w w1 \<and> ran (pw_map w1) \<subseteq> insert d (ran (pw_map w))"

lemma channel_frame_refl [simp]: "channel_frame d w w"
  by (auto simp: channel_frame_def)

lemma channel_frame_trans: "channel_frame d w w1 \<Longrightarrow> channel_frame d w1 w2 \<Longrightarrow> channel_frame d w w2"
  unfolding channel_frame_def by (blast intro: same_views_trans)

lemma setMask_frame: "Channel_setMask f w d = Inr w1 \<Longrightarrow> channel_frame d w w1"
  by (simp add: channel_frame_def setMask_views setMask_registers)

lemma channel_op_frames:
  "Channel_remove w d = Inr w1 \<Longrightarrow> channel_frame d w w1"
  "Channel_enableReading w d = Inr w1 \<Longrightarrow> channel_frame d w w1"
  "Channel_disableReading w d = Inr w1 \<Longrightarrow> channel_frame d w w1"
  "Channel_enableWriting w d = Inr w1 \<Longrightarrow> channel_frame d w w1"
  "Channel_disableWriting w d = Inr w1 \<Longrightarrow> channel_frame d w w1"
  "Channel_disableEvents w d = Inr w1 \<Longrightarrow> channel_frame d w w1"
  by (auto simp: channel_frame_def remove_views remove_registers Channel_enableReading_def Channel_disableReading_def
      Channel_enableWriting_def Channel_disableWriting_def Channel_disableEvents_def
      dest: setMask_frame [unfolded channel_frame_def])

end
