(* ===== verification/Lotta_Loop_Channels.thy ===== *)
theory Lotta_Loop_Channels
  imports Lotta_Poller
begin

text \<open>
  The two channels every \<^verbatim>\<open>EventLoop\<close> has on its own poller, for the wakeup eventfd
  (\<^verbatim>\<open>src/event_loop.cc\<close>) and for the timerfd of its \<^verbatim>\<open>TimerQueue\<close> (\<^verbatim>\<open>src/timer_queue.cc\<close>): what
  the constructors register and the destructors take away again.
\<close>

datatype loop_handler = HandleWakeup | HandleTimer

record 'cb loop_channels =
  lc_pw :: "'cb pworld"
  lc_wake :: nat                      \<comment> \<open>\<^verbatim>\<open>wakeChannel_\<close>\<close>
  lc_timer :: nat                     \<comment> \<open>\<^verbatim>\<open>timerQueue_->channel_\<close>\<close>
  lc_closed :: "int list"

section \<open>Construction and destruction\<close>

text \<open>Such a channel has only a read callback.\<close>

definition only_reads :: "'cb \<Rightarrow> 'cb channel \<Rightarrow> bool" where
  "only_reads cb ch \<longleftrightarrow> ch_readCb ch = Some cb \<and> ch_writeCb ch = None \<and> ch_closeCb ch = None \<and> ch_errorCb ch = None"

lemma only_reads_new: "only_reads cb (Channel_setReadCallback cb (Channel_new fd))"
  by (simp add: only_reads_def Channel_setReadCallback_def Channel_new_def)

lemma only_reads_updates [simp]:
  "only_reads cb (ch\<lparr>ch_events := ev, ch_idxPoll := i\<rparr>) = only_reads cb ch"
  by (simp add: only_reads_def)

text \<open>\<open>d\<close> is a fresh object identity, \<open>tfd\<close> the descriptor of \<^verbatim>\<open>timerfd_create\<close>; \<open>bind\<close> embeds the two
  handlers into the callbacks of the loop's channels.\<close>

definition TimerQueue_construct :: "(loop_handler \<Rightarrow> 'cb) \<Rightarrow> int \<Rightarrow> nat \<Rightarrow> 'cb pworld \<Rightarrow> 'cb pworld res" where
  "TimerQueue_construct bind tfd d w =
     Channel_enableReading (w\<lparr>pw_store := (pw_store w)(d \<mapsto> Channel_setReadCallback (bind HandleTimer) (Channel_new tfd))\<rparr>) d"

text \<open>
  The members come first, in the order of their declaration (\<^verbatim>\<open>wakeChannel_\<close>, then
  \<^verbatim>\<open>timerQueue_\<close>), then the body registers the wakeup channel.
\<close>

definition EventLoop_construct :: "(loop_handler \<Rightarrow> 'cb) \<Rightarrow> int \<Rightarrow> int \<Rightarrow> nat \<Rightarrow> nat \<Rightarrow> 'cb pworld \<Rightarrow> 'cb loop_channels res" where
  "EventLoop_construct bind wfd tfd d e w =
     bindR (TimerQueue_construct bind tfd e (w\<lparr>pw_store := (pw_store w)(d \<mapsto> Channel_new wfd)\<rparr>)) (\<lambda>w1.
     derefR (pw_store w1 d) ''wakeChannel_'' (\<lambda>ch.
     bindR (Channel_enableReading (w1\<lparr>pw_store := (pw_store w1)(d \<mapsto> Channel_setReadCallback (bind HandleWakeup) ch)\<rparr>) d) (\<lambda>w2.
     Inr \<lparr>lc_pw = w2, lc_wake = d, lc_timer = e, lc_closed = []\<rparr>)))"

definition loop_close_channel :: "nat \<Rightarrow> 'cb loop_channels \<Rightarrow> 'cb loop_channels res" where
  "loop_close_channel d l =
     derefR (pw_store (lc_pw l) d) ''channel_'' (\<lambda>ch.
     bindR (Channel_disableEvents (lc_pw l) d) (\<lambda>w1.
     bindR (Channel_remove w1 d) (\<lambda>w2.
     Inr (l\<lparr>lc_pw := w2, lc_closed := lc_closed l @ [ch_fd ch]\<rparr>))))"

definition loop_free_channel :: "nat \<Rightarrow> 'cb loop_channels \<Rightarrow> 'cb loop_channels" where
  "loop_free_channel d l = l\<lparr>lc_pw := (lc_pw l)\<lparr>pw_store := (pw_store (lc_pw l))(d := None)\<rparr>\<rparr>"

definition TimerQueue_destroy :: "'cb loop_channels \<Rightarrow> 'cb loop_channels res" where
  "TimerQueue_destroy l =
     bindR (loop_close_channel (lc_timer l) l) (\<lambda>l1. Inr (loop_free_channel (lc_timer l1) l1))"

definition EventLoop_destroy :: "'cb loop_channels \<Rightarrow> 'cb loop_channels res" where
  "EventLoop_destroy l =
     bindR (loop_close_channel (lc_wake l) l) (\<lambda>l1.
     bindR (TimerQueue_destroy l1) (\<lambda>l2. Inr (loop_free_channel (lc_wake l2) l2)))"

section \<open>Registering and closing one reader\<close>

lemma enableReading_new:
  assumes rep: "poller_rep w cs" "slots_live w" and d: "pw_store w d = Some ch" "d \<notin> set cs"
    and ch: "ch_idxPoll ch < 0" "ch_events ch = 0" "0 \<le> ch_fd ch" "ch_fd ch \<notin> dom (pw_map w)"
  shows "\<exists>w1 i. Channel_enableReading w d = Inr w1 \<and> poller_rep w1 (cs @ [d]) \<and> slots_live w1 \<and>
     dom (pw_map w1) = insert (ch_fd ch) (dom (pw_map w)) \<and>
     pw_store w1 = (pw_store w)(d \<mapsto> ch\<lparr>ch_events := kReadPollEvent, ch_idxPoll := i\<rparr>) \<and>
     kernel_watch (pw_fds w1) = (kernel_watch (pw_fds w))(ch_fd ch \<mapsto> ucast kReadPollEvent)"
proof -
  have "mask_enableReading (ch_events ch) = kReadPollEvent" "kReadPollEvent \<in> event_masks"
    using ch(2) by (simp_all add: mask_enableReading_def event_masks_def)
  then show ?thesis
    using poller.add_law [OF rep d(1) ch(1,3,4), of mask_enableReading]
    by (auto simp: Channel_enableReading_def)
qed

lemma loop_close_channel_ok:
  assumes rep: "poller_rep (lc_pw l) cs" "slots_live (lc_pw l)" and d: "d \<in> set cs" "pw_store (lc_pw l) d = Some ch"
  shows "\<exists>w1 cs1. loop_close_channel d l = Inr (l\<lparr>lc_pw := w1, lc_closed := lc_closed l @ [ch_fd ch]\<rparr>) \<and>
     poller_rep w1 cs1 \<and> slots_live w1 \<and> set cs1 = set cs - {d} \<and>
     dom (pw_map w1) = dom (pw_map (lc_pw l)) - {ch_fd ch} \<and>
     (\<forall>e. \<exists>i. pw_store w1 e = map_option (\<lambda>dh. dh\<lparr>ch_idxPoll := i\<rparr>)
        (((pw_store (lc_pw l))(d \<mapsto> ch\<lparr>ch_events := 0\<rparr>)) e)) \<and>
     kernel_watch (pw_fds w1) = (kernel_watch (pw_fds (lc_pw l)))(ch_fd ch := None)"
proof -
  have "loop_close_channel d l =
      bindR (bindR (Channel_setMask (\<lambda>_. kEmptyEvent) (lc_pw l) d) (\<lambda>w. Channel_remove w d))
        (\<lambda>w2. Inr (l\<lparr>lc_pw := w2, lc_closed := lc_closed l @ [ch_fd ch]\<rparr>))"
    using d(2) by (simp add: loop_close_channel_def Channel_disableEvents_def bindR_assoc)
  moreover obtain w1 cs1 where
    "bindR (Channel_setMask (\<lambda>_. kEmptyEvent) (lc_pw l) d) (\<lambda>w. Channel_remove w d) = Inr w1 \<and>
     poller_rep w1 cs1 \<and> slots_live w1 \<and> set cs1 = set cs - {d} \<and>
     dom (pw_map w1) = dom (pw_map (lc_pw l)) - {ch_fd ch} \<and>
     (\<forall>e. \<exists>i. pw_store w1 e = map_option (\<lambda>dh. dh\<lparr>ch_idxPoll := i\<rparr>)
        (((pw_store (lc_pw l))(d \<mapsto> ch\<lparr>ch_events := 0\<rparr>)) e)) \<and>
     pw_store w1 d = Some (ch\<lparr>ch_events := 0\<rparr>) \<and>
     kernel_watch (pw_fds w1) = (kernel_watch (pw_fds (lc_pw l)))(ch_fd ch := None)"
    using poller.close_law [OF rep d] by (elim exE) (rule that)
  ultimately show ?thesis by (intro exI [of _ w1] exI [of _ cs1]) simp
qed

section \<open>Properties\<close>

lemma EventLoop_construct_spec:
  assumes rep: "poller_rep w cs" "slots_live w"
    and ids: "d \<noteq> e" "d \<notin> set cs" "e \<notin> set cs"
    and fds: "wfd \<noteq> tfd" "0 \<le> wfd" "0 \<le> tfd" "wfd \<notin> dom (pw_map w)" "tfd \<notin> dom (pw_map w)"
  shows "\<exists>w2 wch tch. EventLoop_construct bind wfd tfd d e w =
       Inr \<lparr>lc_pw = w2, lc_wake = d, lc_timer = e, lc_closed = []\<rparr> \<and>
     poller_rep w2 (cs @ [e, d]) \<and> slots_live w2 \<and> dom (pw_map w2) = dom (pw_map w) \<union> {wfd, tfd} \<and>
     pw_store w2 d = Some wch \<and> ch_fd wch = wfd \<and> only_reads (bind HandleWakeup) wch \<and>
     pw_store w2 e = Some tch \<and> ch_fd tch = tfd \<and> only_reads (bind HandleTimer) tch \<and>
     kernel_watch (pw_fds w2) = (kernel_watch (pw_fds w))(tfd \<mapsto> ucast kReadPollEvent, wfd \<mapsto> ucast kReadPollEvent)"
proof -
  let ?t = "Channel_setReadCallback (bind HandleTimer) (Channel_new tfd)"
  let ?w0 = "w\<lparr>pw_store := (pw_store w)(d \<mapsto> Channel_new wfd, e \<mapsto> ?t)\<rparr>"
  have fresh: "poller_rep (w\<lparr>pw_store := (pw_store w)(d \<mapsto> x)\<rparr>) cs" for x
    using rep_store_other [OF rep(1) ids(2)] .
  have rep0: "poller_rep ?w0 cs" "slots_live ?w0"
    using rep_store_other [OF fresh ids(3), of "Channel_new wfd" "Some ?t"] rep(2) by (simp_all add: slots_live_def)
  have t: "ch_idxPoll ?t < 0" "ch_events ?t = 0" "ch_fd ?t = tfd" "only_reads (bind HandleTimer) ?t"
    using only_reads_new by (simp_all add: Channel_setReadCallback_def Channel_new_def)
  obtain w1 i where w1: "Channel_enableReading ?w0 e = Inr w1" "poller_rep w1 (cs @ [e])" "slots_live w1"
    "dom (pw_map w1) = insert tfd (dom (pw_map w))"
    "pw_store w1 = (pw_store ?w0)(e \<mapsto> ?t\<lparr>ch_events := kReadPollEvent, ch_idxPoll := i\<rparr>)"
    "kernel_watch (pw_fds w1) = (kernel_watch (pw_fds w))(tfd \<mapsto> ucast kReadPollEvent)"
    using enableReading_new [OF rep0 _ ids(3) t(1,2)] t(3) fds(3,5) by auto
  have st: "pw_store w1 d = Some (Channel_new wfd)" using w1(5) ids(1) by simp
  let ?c = "Channel_setReadCallback (bind HandleWakeup) (Channel_new wfd)"
  let ?w1 = "w1\<lparr>pw_store := (pw_store w1)(d \<mapsto> ?c)\<rparr>"
  have c: "ch_idxPoll ?c < 0" "ch_events ?c = 0" "ch_fd ?c = wfd" "only_reads (bind HandleWakeup) ?c"
    using only_reads_new by (simp_all add: Channel_setReadCallback_def Channel_new_def)
  have d: "d \<notin> set (cs @ [e])" using ids by simp
  have rep1: "poller_rep ?w1 (cs @ [e])" "slots_live ?w1"
    using rep_store_other [OF w1(2) d] w1(3) by (simp_all add: slots_live_def)
  obtain w2 j where w2: "Channel_enableReading ?w1 d = Inr w2" "poller_rep w2 ((cs @ [e]) @ [d])" "slots_live w2"
    "dom (pw_map w2) = insert wfd (dom (pw_map w1))"
    "pw_store w2 = (pw_store ?w1)(d \<mapsto> ?c\<lparr>ch_events := kReadPollEvent, ch_idxPoll := j\<rparr>)"
    "kernel_watch (pw_fds w2) = (kernel_watch (pw_fds w1))(wfd \<mapsto> ucast kReadPollEvent)"
    using enableReading_new [OF rep1 _ d c(1,2)] c(3) fds(1,2,4) w1(4) by auto
  have "EventLoop_construct bind wfd tfd d e w = Inr \<lparr>lc_pw = w2, lc_wake = d, lc_timer = e, lc_closed = []\<rparr>"
    using w1(1) w2(1) st by (simp add: EventLoop_construct_def TimerQueue_construct_def)
  then show ?thesis
    using w1(4,5,6) w2(2-6) ids(1) t c by (intro exI) (auto simp: fun_upd_twist)
qed

text \<open>C40. A loop's life leaves no trace: the constructor makes the kernel watch exactly the wakeup and
  the timer descriptor for input in addition, and the destructor, run with any other live
  channels still registered, unregisters both, closes both descriptors once, destroys both channel
  objects, and leaves the kernel watching exactly what it did before.\<close>

theorem loop_lifecycle:
  assumes rep: "poller_rep w cs" "slots_live w"
    and ids: "d \<noteq> e" "d \<notin> set cs" "e \<notin> set cs"
    and fds: "wfd \<noteq> tfd" "0 \<le> wfd" "0 \<le> tfd" "wfd \<notin> dom (pw_map w)" "tfd \<notin> dom (pw_map w)"
    and unwatched: "kernel_watch (pw_fds w) wfd = None" "kernel_watch (pw_fds w) tfd = None"
  shows "\<exists>l1 l2. EventLoop_construct bind wfd tfd d e w = Inr l1 \<and>
     kernel_watch (pw_fds (lc_pw l1)) =
       (kernel_watch (pw_fds w))(tfd \<mapsto> ucast kReadPollEvent, wfd \<mapsto> ucast kReadPollEvent) \<and>
     EventLoop_destroy l1 = Inr l2 \<and> lc_closed l2 = [wfd, tfd] \<and>
     kernel_watch (pw_fds (lc_pw l2)) = kernel_watch (pw_fds w) \<and> dom (pw_map (lc_pw l2)) = dom (pw_map w) \<and>
     pw_store (lc_pw l2) d = None \<and> pw_store (lc_pw l2) e = None \<and> slots_live (lc_pw l2)"
proof -
  obtain w2 wch tch where w2: "EventLoop_construct bind wfd tfd d e w =
       Inr \<lparr>lc_pw = w2, lc_wake = d, lc_timer = e, lc_closed = []\<rparr>"
    "poller_rep w2 (cs @ [e, d])" "slots_live w2" "dom (pw_map w2) = dom (pw_map w) \<union> {wfd, tfd}"
    "pw_store w2 d = Some wch" "ch_fd wch = wfd" "only_reads (bind HandleWakeup) wch"
    "pw_store w2 e = Some tch" "ch_fd tch = tfd" "only_reads (bind HandleTimer) tch"
    "kernel_watch (pw_fds w2) = (kernel_watch (pw_fds w))(tfd \<mapsto> ucast kReadPollEvent, wfd \<mapsto> ucast kReadPollEvent)"
    using EventLoop_construct_spec [OF rep ids fds, of bind] by (elim exE conjE) (rule that)
  let ?l1 = "\<lparr>lc_pw = w2, lc_wake = d, lc_timer = e, lc_closed = []\<rparr>"
  obtain w3 cs3 where w3: "loop_close_channel d ?l1 = Inr (?l1\<lparr>lc_pw := w3, lc_closed := [wfd]\<rparr>)"
    "poller_rep w3 cs3" "slots_live w3" "set cs3 = set (cs @ [e, d]) - {d}" "dom (pw_map w3) = dom (pw_map w2) - {wfd}"
    "\<forall>x. \<exists>i. pw_store w3 x = map_option (\<lambda>dh. dh\<lparr>ch_idxPoll := i\<rparr>)
       (((pw_store w2)(d \<mapsto> wch\<lparr>ch_events := 0\<rparr>)) x)"
    "kernel_watch (pw_fds w3) = (kernel_watch (pw_fds w2))(wfd := None)"
    using loop_close_channel_ok [of ?l1 "cs @ [e, d]" d wch] w2(2,3,5,6) by auto
  obtain i where tch: "pw_store w3 e = Some (tch\<lparr>ch_idxPoll := i\<rparr>)"
    using w3(6) [THEN spec, of e] w2(8) ids(1) by auto
  let ?l2 = "?l1\<lparr>lc_pw := w3, lc_closed := [wfd]\<rparr>"
  have e: "e \<in> set cs3" using w3(4) ids(1) by simp
  obtain w4 cs4 where w4: "loop_close_channel e ?l2 = Inr (?l2\<lparr>lc_pw := w4, lc_closed := [wfd, tfd]\<rparr>)"
    "slots_live w4" "dom (pw_map w4) = dom (pw_map w3) - {tfd}"
    "kernel_watch (pw_fds w4) = (kernel_watch (pw_fds w3))(tfd := None)"
    using loop_close_channel_ok [of ?l2 cs3 e "tch\<lparr>ch_idxPoll := i\<rparr>"] w3(2,3) e tch w2(9) by auto
  let ?w5 = "w4\<lparr>pw_store := (pw_store w4)(e := None, d := None)\<rparr>"
  have "EventLoop_destroy ?l1 = Inr (?l1\<lparr>lc_pw := ?w5, lc_closed := [wfd, tfd]\<rparr>)"
    using w3(1) w4(1) by (simp add: EventLoop_destroy_def TimerQueue_destroy_def loop_free_channel_def)
  moreover have "kernel_watch (pw_fds ?w5) = kernel_watch (pw_fds w)"
    using w4(4) w3(7) w2(11) unwatched by (auto simp: fun_eq_iff)
  moreover have "dom (pw_map ?w5) = dom (pw_map w)" using w4(3) w3(5) w2(4) fds(4,5) by auto
  moreover have "slots_live ?w5" using w4(2) by (simp add: slots_live_def)
  ultimately show ?thesis
    using w2(1,11) by (intro exI [of _ ?l1] exI [of _ "?l1\<lparr>lc_pw := ?w5, lc_closed := [wfd, tfd]\<rparr>"]) simp
qed

lemma loop_lifecycle_witness:
  "\<exists>l1 l2. EventLoop_construct id 4 3 0 1 PollPoller_new = Inr l1 \<and> EventLoop_destroy l1 = Inr l2 \<and>
     lc_closed l2 = [4, 3] \<and> kernel_watch (pw_fds (lc_pw l1)) 3 = Some (ucast kReadPollEvent) \<and>
     kernel_watch (pw_fds (lc_pw l2)) 3 = None"
proof -
  have "slots_live (PollPoller_new :: loop_handler pworld)" "dom (pw_map (PollPoller_new :: loop_handler pworld)) = {}"
    "kernel_watch (pw_fds (PollPoller_new :: loop_handler pworld)) f = None" for f
    by (simp_all add: slots_live_def PollPoller_new_def kernel_watch_def)
  then show ?thesis using loop_lifecycle [OF poller_rep_new, of 0 1 4 3 id] by auto
qed

end
