(* ===== verification/Lotta_Event_Loop.thy ===== *)
theory Lotta_Event_Loop
  imports Lotta_Prelude "HOL-Library.Word"
begin

text \<open>
  \<^verbatim>\<open>EventLoop\<close> as a concurrent object (\<^verbatim>\<open>src/event_loop.cc\<close>): the loop's own thread runs
  \<^verbatim>\<open>loop()\<close>, any other thread may call \<^verbatim>\<open>pushQueue\<close> and \<^verbatim>\<open>quit\<close>; then \<^verbatim>\<open>EventLoopThread\<close>
  and \<^verbatim>\<open>EventLoopPool\<close>, which run loops on threads of their own.

  A state is the loop's fields plus the position \<open>el_pc\<close> of its thread in \<^verbatim>\<open>loop()\<close>; \<open>loop_step\<close>
  gives the effect of one atomic action, \<open>None\<close> when the action is not possible there. A push
  from another thread is two actions, the locked append and the later \<^verbatim>\<open>wakeup\<close>; \<open>el_pending\<close>
  counts the writes to the eventfd still owed. \<open>el_pushed\<close> and \<open>el_ran\<close> are histories.
  The timeout of \<^verbatim>\<open>poll\<close> is one of the reasons for which it returns.
\<close>

section \<open>State and operations\<close>

datatype loop_pc = Outside | Testing | Polling | Handling | Running

record 'f event_loop =
  el_looping :: bool
  el_quit :: bool
  el_pc :: loop_pc
  el_counter :: nat               \<comment> \<open>the eventfd behind \<^verbatim>\<open>wakeupFd_\<close>\<close>
  el_doing :: bool                \<comment> \<open>\<^verbatim>\<open>doingFuncQueue_\<close>\<close>
  el_queue :: "'f list"           \<comment> \<open>\<^verbatim>\<open>funcQueue_\<close>\<close>
  el_functions :: "'f list"       \<comment> \<open>rest of the local \<^verbatim>\<open>functions\<close> of \<^verbatim>\<open>doFuncQueue\<close>\<close>
  el_pending :: nat
  el_pushed :: "'f list"
  el_ran :: "'f list"

definition EventLoop_new :: "'f event_loop" where
  "EventLoop_new = \<lparr>el_looping = False, el_quit = False, el_pc = Outside, el_counter = 0,
     el_doing = False, el_queue = [], el_functions = [], el_pending = 0, el_pushed = [], el_ran = []\<rparr>"

definition EventLoop_wakeup :: "'f event_loop \<Rightarrow> 'f event_loop" where
  "EventLoop_wakeup s = s\<lparr>el_counter := Suc (el_counter s)\<rparr>"

definition EventLoop_handleWakeup :: "'f event_loop \<Rightarrow> 'f event_loop" where
  "EventLoop_handleWakeup s = s\<lparr>el_counter := 0\<rparr>"

text \<open>The locked block of \<^verbatim>\<open>pushQueue\<close> and the test behind it.\<close>

definition pushQueue_append :: "'f \<Rightarrow> 'f event_loop \<Rightarrow> 'f event_loop" where
  "pushQueue_append f s = s\<lparr>el_queue := el_queue s @ [f], el_pushed := el_pushed s @ [f]\<rparr>"

definition pushQueue_wakes :: "bool \<Rightarrow> 'f event_loop \<Rightarrow> bool" where
  "pushQueue_wakes sameThread s \<longleftrightarrow> \<not> sameThread \<or> el_doing s"

definition EventLoop_pushQueue :: "'f \<Rightarrow> 'f event_loop \<Rightarrow> 'f event_loop" where
  "EventLoop_pushQueue f s =
     (let s1 = pushQueue_append f s in if pushQueue_wakes True s1 then EventLoop_wakeup s1 else s1)"

definition EventLoop_exec :: "('f \<Rightarrow> 'f event_loop \<Rightarrow> 'f event_loop) \<Rightarrow> bool \<Rightarrow> 'f \<Rightarrow> 'f event_loop \<Rightarrow> 'f event_loop" where
  "EventLoop_exec run sameThread f s =
     (if sameThread then run f s
      else let s1 = pushQueue_append f s
        in if pushQueue_wakes False s1 then s1\<lparr>el_pending := Suc (el_pending s1)\<rparr> else s1)"

definition EventLoop_quit :: "bool \<Rightarrow> 'f event_loop \<Rightarrow> 'f event_loop" where
  "EventLoop_quit sameThread s =
     (let s1 = s\<lparr>el_quit := True\<rparr>
      in if sameThread then s1 else s1\<lparr>el_pending := Suc (el_pending s1)\<rparr>)"

text \<open>\<^verbatim>\<open>doFuncQueue\<close>: the swap, one call, and the end.\<close>

definition doFuncQueue_swap :: "'f event_loop \<Rightarrow> 'f event_loop" where
  "doFuncQueue_swap s = s\<lparr>el_doing := True, el_functions := el_queue s, el_queue := []\<rparr>"

definition doFuncQueue_call :: "'f event_loop \<Rightarrow> 'f event_loop" where
  "doFuncQueue_call s = (case el_functions s of [] \<Rightarrow> s
     | f # fs \<Rightarrow> s\<lparr>el_functions := fs, el_ran := el_ran s @ [f]\<rparr>)"

definition doFuncQueue_end :: "'f event_loop \<Rightarrow> 'f event_loop" where
  "doFuncQueue_end s = s\<lparr>el_doing := False\<rparr>"

text \<open>
  Actions: \<open>Enter\<close> to \<open>Leave\<close> are the control flow of \<^verbatim>\<open>loop()\<close>; \<open>OwnPush\<close> and \<open>OwnQuit\<close> are
  calls the loop's thread makes itself, outside \<^verbatim>\<open>loop()\<close>, in a channel's callback or in a
  queued function; the others belong to other threads.
\<close>

datatype 'f loop_action =
    Enter | Test | Leave | Poll | Drain | Call | Drained
  | OwnPush 'f | OwnQuit | OtherPush 'f | OtherQuit | OtherWakeup

fun loop_step :: "'f loop_action \<Rightarrow> 'f event_loop \<Rightarrow> 'f event_loop option" where
  "loop_step Enter s = (if el_pc s = Outside
     then Some (s\<lparr>el_looping := True, el_quit := False, el_pc := Testing\<rparr>) else None)"
| "loop_step Test s = (if el_pc s = Testing \<and> \<not> el_quit s then Some (s\<lparr>el_pc := Polling\<rparr>) else None)"
| "loop_step Leave s = (if el_pc s = Testing \<and> el_quit s
     then Some (s\<lparr>el_looping := False, el_pc := Outside\<rparr>) else None)"
| "loop_step Poll s = (if el_pc s = Polling
     then let s1 = (if 0 < el_counter s then EventLoop_handleWakeup s else s) in Some (s1\<lparr>el_pc := Handling\<rparr>)
     else None)"
| "loop_step Drain s = (if el_pc s = Handling then Some ((doFuncQueue_swap s)\<lparr>el_pc := Running\<rparr>) else None)"
| "loop_step Call s = (if el_pc s = Running \<and> el_functions s \<noteq> [] then Some (doFuncQueue_call s) else None)"
| "loop_step Drained s = (if el_pc s = Running \<and> el_functions s = []
     then Some ((doFuncQueue_end s)\<lparr>el_pc := Testing\<rparr>) else None)"
| "loop_step (OwnPush f) s = (if el_pc s \<in> {Outside, Handling, Running}
     then Some (EventLoop_pushQueue f s) else None)"
| "loop_step OwnQuit s = (if el_pc s \<in> {Outside, Handling, Running} then Some (EventLoop_quit True s) else None)"
| "loop_step (OtherPush f) s = Some (EventLoop_exec (\<lambda>_ s. s) False f s)"
| "loop_step OtherQuit s = Some (EventLoop_quit False s)"
| "loop_step OtherWakeup s = (if 0 < el_pending s
     then Some (EventLoop_wakeup (s\<lparr>el_pending := el_pending s - 1\<rparr>)) else None)"

fun loop_run :: "'f loop_action list \<Rightarrow> 'f event_loop \<Rightarrow> 'f event_loop option" where
  "loop_run [] s = Some s"
| "loop_run (a # as) s = Option.bind (loop_step a s) (loop_run as)"

text \<open>The states a new loop can reach when the loop's own thread queues nothing outside \<^verbatim>\<open>loop()\<close>
  (\<open>strict\<close>), and those it can reach at all.\<close>

inductive loop_reach :: "bool \<Rightarrow> 'f event_loop \<Rightarrow> bool" for strict where
  new: "loop_reach strict EventLoop_new"
| step: "loop_reach strict s \<Longrightarrow> loop_step a s = Some s' \<Longrightarrow>
     (strict \<longrightarrow> el_pc s = Outside \<longrightarrow> (\<forall>f. a \<noteq> OwnPush f)) \<Longrightarrow> loop_reach strict s'"

lemmas loop_ops = EventLoop_wakeup_def EventLoop_handleWakeup_def pushQueue_append_def pushQueue_wakes_def
  EventLoop_pushQueue_def EventLoop_exec_def EventLoop_quit_def doFuncQueue_swap_def doFuncQueue_call_def
  doFuncQueue_end_def

section \<open>Invariants\<close>

definition loop_inv :: "'f event_loop \<Rightarrow> bool" where
  "loop_inv s \<longleftrightarrow>
     el_ran s @ el_functions s @ el_queue s = el_pushed s \<and>
     (el_functions s \<noteq> [] \<longrightarrow> el_pc s = Running) \<and>
     (el_doing s \<longleftrightarrow> el_pc s = Running) \<and> (el_looping s \<longleftrightarrow> el_pc s \<noteq> Outside)"

lemma loop_inv_step: "loop_inv s \<Longrightarrow> loop_step a s = Some s' \<Longrightarrow> loop_inv s'"
  by (cases a; cases "el_functions s"; clarsimp simp: loop_inv_def loop_ops Let_def split: if_split_asm)

lemma loop_inv_reach: "loop_reach strict s \<Longrightarrow> loop_inv s"
proof (induction rule: loop_reach.induct)
  case new
  show ?case by (simp add: loop_inv_def EventLoop_new_def)
next
  case (step s a s')
  then show ?case using loop_inv_step by blast
qed

text \<open>Somebody has woken the poll or is about to, whenever the queue would be overlooked.\<close>

definition wake_inv :: "'f event_loop \<Rightarrow> bool" where
  "wake_inv s \<longleftrightarrow> (el_queue s \<noteq> [] \<longrightarrow> el_pc s \<noteq> Handling \<longrightarrow> 0 < el_counter s + el_pending s)"

lemma wake_inv_step:
  assumes "wake_inv s" "loop_inv s" "loop_step a s = Some s'" "el_pc s = Outside \<longrightarrow> (\<forall>f. a \<noteq> OwnPush f)"
  shows "wake_inv s'"
  using assms
  by (cases a; cases "el_functions s"; clarsimp simp: wake_inv_def loop_inv_def loop_ops Let_def split: if_split_asm)

lemma wake_inv_reach: "loop_reach True s \<Longrightarrow> wake_inv s"
proof (induction rule: loop_reach.induct)
  case new
  show ?case by (simp add: wake_inv_def EventLoop_new_def)
next
  case (step s a s')
  then show ?case using wake_inv_step [of s a s'] loop_inv_reach [of True s] by blast
qed

lemma reach_run:
  "loop_reach False s \<Longrightarrow> loop_run as s = Some s' \<Longrightarrow> loop_reach False s'"
proof (induction as arbitrary: s)
  case (Cons a as)
  then obtain s1 where "loop_step a s = Some s1" "loop_run as s1 = Some s'"
    by (cases "loop_step a s") auto
  with Cons show ?case using loop_reach.step [of False s a s1] by blast
qed simp

lemma loop_run_reach: "loop_run as EventLoop_new = Some s \<Longrightarrow> loop_reach False s"
  using reach_run [OF loop_reach.new] .

text \<open>Runs in which every \<open>OwnPush\<close> happens inside \<^verbatim>\<open>loop()\<close>.\<close>

lemma strict_run_reach:
  "loop_reach True s \<Longrightarrow> loop_run as s = Some s' \<Longrightarrow> \<forall>f. OwnPush f \<notin> set as \<Longrightarrow> loop_reach True s'"
proof (induction as arbitrary: s)
  case (Cons a as)
  then obtain s1 where "loop_step a s = Some s1" "loop_run as s1 = Some s'"
    by (cases "loop_step a s") auto
  with Cons show ?case using loop_reach.step [of True s a s1] by (metis list.set_intros(1,2))
qed simp

section \<open>One round of the loop\<close>

definition loop_round :: "nat \<Rightarrow> 'f loop_action list" where
  "loop_round n = [Poll, Drain] @ replicate n Call @ [Drained]"

lemma loop_run_append: "loop_run (as @ bs) s = Option.bind (loop_run as s) (loop_run bs)"
proof (induction as arbitrary: s)
  case (Cons a as)
  then show ?case by (cases "loop_step a s") simp_all
qed simp

lemma loop_run_calls:
  "el_pc s = Running \<Longrightarrow> loop_run (replicate (length (el_functions s)) Call) s =
     Some (s\<lparr>el_functions := [], el_ran := el_ran s @ el_functions s\<rparr>)"
proof (induction "el_functions s" arbitrary: s)
  case (Cons f fs)
  let ?s1 = "s\<lparr>el_functions := fs, el_ran := el_ran s @ [f]\<rparr>"
  have "loop_run (replicate (length fs) Call) ?s1 = Some (?s1\<lparr>el_functions := [], el_ran := (el_ran s @ [f]) @ fs\<rparr>)"
    using Cons.hyps(1) [of ?s1] Cons.prems by simp
  then show ?case
    using Cons.hyps(2) [symmetric] Cons.prems by (simp add: doFuncQueue_call_def)
qed simp

section \<open>Properties\<close>

text \<open>C12. Every function handed to a loop, by whatever thread, runs at most once, and in the order in
  which the calls took the lock: what has run, what the running drain still holds and what is
  queued make up exactly the sequence of functions pushed.\<close>

theorem functions_fifo_once:
  assumes "loop_reach False s"
  shows "el_ran s @ el_functions s @ el_queue s = el_pushed s"
  using loop_inv_reach [OF assms] by (simp add: loop_inv_def)

lemma functions_fifo_once_witness:
  "\<exists>s. loop_run [Enter, OtherPush (1 :: nat), Test, OtherPush 2, Poll, Drain, Call, OwnPush 3] EventLoop_new = Some s \<and>
     el_ran s = [1] \<and> el_ran s @ el_functions s @ el_queue s = [1, 2, 3]"
proof -
  let ?as = "[Enter, OtherPush (1 :: nat), Test, OtherPush 2, Poll, Drain, Call, OwnPush 3]"
  obtain s where s: "loop_run ?as EventLoop_new = Some s" "el_ran s = [1]" "el_pushed s = [1, 2, 3]"
    by (simp add: EventLoop_new_def loop_ops)
  have "loop_reach False s"
    using s(1) by (rule loop_run_reach)
  from functions_fifo_once [OF this] s show ?thesis by auto
qed

text \<open>C11. No wakeup is lost: whenever the loop is about to sleep in \<^verbatim>\<open>poll\<close> with work in its queue,
  the eventfd is readable or a thread is about to write to it, as long as the loop's own thread
  queues nothing outside \<^verbatim>\<open>loop()\<close>.\<close>

theorem no_lost_wakeup:
  assumes "loop_reach True s" and "el_pc s = Polling" and "el_queue s \<noteq> []"
  shows "0 < el_counter s + el_pending s"
  using wake_inv_reach [OF assms(1)] assms(2,3) by (simp add: wake_inv_def)

lemma no_lost_wakeup_witness:
  "\<exists>s. loop_run [Enter, Test, OtherPush (1 :: nat)] EventLoop_new = Some s \<and> 0 < el_counter s + el_pending s"
proof -
  obtain s where s: "loop_run [Enter, Test, OtherPush (1 :: nat)] EventLoop_new = Some s"
    "el_pc s = Polling" "el_queue s \<noteq> []"
    by (simp add: EventLoop_new_def loop_ops)
  have "loop_reach True s"
    by (rule strict_run_reach [OF loop_reach.new s(1)]) simp
  from no_lost_wakeup [OF this s(2,3)] s(1) show ?thesis by blast
qed

text \<open>A function the loop's own thread queues before it enters \<^verbatim>\<open>loop()\<close> (or after it has left
  it) wakes nobody: the loop goes to sleep in \<^verbatim>\<open>poll\<close> over it, with nothing on the eventfd.\<close>

theorem push_before_loop_sleeps:
  "\<exists>s. loop_run [OwnPush f, Enter, Test] EventLoop_new = Some s \<and> el_pc s = Polling \<and>
     el_queue s = [f] \<and> el_counter s = 0 \<and> el_pending s = 0"
  by (simp add: EventLoop_new_def loop_ops)

text \<open>C31. Once \<^verbatim>\<open>poll\<close> returns, the loop works off everything that is queued, in finitely many
  actions, and is back at the test of its loop; the functions run in order.\<close>

theorem round_runs_queue:
  assumes "loop_reach strict s" and "el_pc s = Polling"
  shows "\<exists>s1. loop_run (loop_round (length (el_queue s))) s = Some s1 \<and> el_pc s1 = Testing \<and>
     el_ran s1 = el_pushed s \<and> el_queue s1 = [] \<and> el_counter s1 = 0 \<and> \<not> el_doing s1"
proof -
  have inv: "loop_inv s" using assms(1) by (rule loop_inv_reach)
  then have fs: "el_functions s = []" using assms(2) by (auto simp: loop_inv_def)
  let ?s2 = "s\<lparr>el_counter := 0, el_pc := Running, el_doing := True, el_functions := el_queue s, el_queue := []\<rparr>"
  have start: "loop_run [Poll, Drain] s = Some ?s2"
    using assms(2) by (cases "el_counter s") (simp_all add: loop_ops)
  have "loop_run (replicate (length (el_queue s)) Call) ?s2 =
      Some (?s2\<lparr>el_functions := [], el_ran := el_ran s @ el_queue s\<rparr>)"
    using loop_run_calls [of ?s2] by simp
  then have "loop_run (loop_round (length (el_queue s))) s =
      loop_run [Drained] (?s2\<lparr>el_functions := [], el_ran := el_ran s @ el_queue s\<rparr>)"
    unfolding loop_round_def loop_run_append start by (simp add: loop_run_append)
  then show ?thesis using inv fs by (auto simp: loop_ops loop_inv_def)
qed

lemma round_runs_queue_witness:
  "\<exists>s1. loop_run (loop_round 1) (EventLoop_new\<lparr>el_looping := True, el_pc := Polling, el_queue := [7 :: nat],
      el_pushed := [7], el_pending := 1\<rparr>) = Some s1 \<and> el_ran s1 = [7]"
proof -
  have "loop_run [Enter, Test, OtherPush (7 :: nat)] EventLoop_new = Some (EventLoop_new\<lparr>el_looping := True,
      el_pc := Polling, el_queue := [7], el_pushed := [7], el_pending := 1\<rparr>)"
    by (simp add: EventLoop_new_def loop_ops)
  then have "loop_reach False (EventLoop_new\<lparr>el_looping := True, el_pc := Polling, el_queue := [7 :: nat],
      el_pushed := [7], el_pending := 1\<rparr>)" by (rule loop_run_reach)
  from round_runs_queue [OF this] show ?thesis by auto
qed

section \<open>Loops on threads of their own\<close>

text \<open>
  \<^verbatim>\<open>EventLoopThread\<close>: the owner calls \<^verbatim>\<open>start()\<close> and later the destructor, the new thread runs
  \<^verbatim>\<open>threadTask()\<close>. \<open>lt_loop_ptr\<close> tells whether \<^verbatim>\<open>loop_\<close> points to the thread's loop.
\<close>

datatype task_pc = NotRunning | Constructed | InLoop | Left | Finished

datatype owner_pc = Created | Waiting | Started | Joining | Joined

record 'f loop_thread =
  lt_owner :: owner_pc
  lt_pc :: task_pc
  lt_loop_ptr :: bool
  lt_loop :: "'f event_loop"

definition EventLoopThread_new :: "'f loop_thread" where
  "EventLoopThread_new = \<lparr>lt_owner = Created, lt_pc = NotRunning, lt_loop_ptr = False, lt_loop = EventLoop_new\<rparr>"

datatype 'f thread_action = Spawn | Publish | Return | Loop "'f loop_action" | Unpublish | Destroy | Join

fun thread_step :: "'f thread_action \<Rightarrow> 'f loop_thread \<Rightarrow> 'f loop_thread option" where
  "thread_step Spawn t = (if lt_owner t = Created then Some (t\<lparr>lt_owner := Waiting\<rparr>) else None)"
| "thread_step Publish t = (if lt_owner t \<noteq> Created \<and> lt_pc t = NotRunning
     then Some (t\<lparr>lt_pc := Constructed, lt_loop_ptr := True, lt_loop := EventLoop_new\<rparr>) else None)"
| "thread_step Return t = (if lt_owner t = Waiting \<and> lt_loop_ptr t then Some (t\<lparr>lt_owner := Started\<rparr>) else None)"
| "thread_step (Loop a) t =
     (case loop_step a (lt_loop t) of
        None \<Rightarrow> None
      | Some l \<Rightarrow>
          if a = Enter then (if lt_pc t = Constructed then Some (t\<lparr>lt_pc := InLoop, lt_loop := l\<rparr>) else None)
          else if a = Leave then (if lt_pc t = InLoop then Some (t\<lparr>lt_pc := Left, lt_loop := l\<rparr>) else None)
          else (if lt_pc t \<in> {Constructed, InLoop, Left} then Some (t\<lparr>lt_loop := l\<rparr>) else None))"
| "thread_step Unpublish t = (if lt_pc t = Left then Some (t\<lparr>lt_pc := Finished, lt_loop_ptr := False\<rparr>) else None)"
| "thread_step Destroy t = (if lt_owner t \<in> {Created, Started}
     then Some (t\<lparr>lt_owner := Joining,
            lt_loop := (if lt_loop_ptr t then EventLoop_quit False (lt_loop t) else lt_loop t)\<rparr>)
     else None)"
| "thread_step Join t = (if lt_owner t = Joining \<and> lt_pc t \<in> {NotRunning, Finished}
     then Some (t\<lparr>lt_owner := Joined\<rparr>) else None)"

fun thread_run :: "'f thread_action list \<Rightarrow> 'f loop_thread \<Rightarrow> 'f loop_thread option" where
  "thread_run [] t = Some t"
| "thread_run (a # as) t = Option.bind (thread_step a t) (thread_run as)"

definition quits :: "'f thread_action \<Rightarrow> bool" where
  "quits a \<longleftrightarrow> a = Loop OwnQuit \<or> a = Loop OtherQuit"

text \<open>Joining a thread whose loop has not been told to quit.\<close>

definition stuck :: "'f loop_thread \<Rightarrow> bool" where
  "stuck t \<longleftrightarrow> lt_owner t = Joining \<and> lt_pc t = InLoop \<and> \<not> el_quit (lt_loop t) \<and> el_pc (lt_loop t) \<noteq> Outside"

lemma loop_step_no_quit:
  assumes "loop_step a s = Some s'" "\<not> el_quit s" "el_pc s \<noteq> Outside" "a \<noteq> OwnQuit" "a \<noteq> OtherQuit"
  shows "\<not> el_quit s' \<and> el_pc s' \<noteq> Outside \<and> a \<noteq> Enter \<and> a \<noteq> Leave"
  using assms
  by (cases a; cases "el_functions s"; clarsimp simp: loop_ops Let_def split: if_split_asm)

lemma stuck_step: "stuck t \<Longrightarrow> thread_step a t = Some t' \<Longrightarrow> \<not> quits a \<Longrightarrow> stuck t'"
proof (cases a)
  case (Loop b)
  assume "stuck t" "thread_step a t = Some t'" "\<not> quits a"
  with Loop show "stuck t'"
    using loop_step_no_quit [of b "lt_loop t"]
    by (auto simp: stuck_def quits_def split: option.splits if_splits)
qed (auto simp: stuck_def split: if_splits)

lemma stuck_run: "stuck t \<Longrightarrow> thread_run as t = Some t' \<Longrightarrow> \<forall>a \<in> set as. \<not> quits a \<Longrightarrow> stuck t'"
proof (induction as arbitrary: t)
  case (Cons a as)
  then obtain t1 where t1: "thread_step a t = Some t1" "thread_run as t1 = Some t'"
    by (cases "thread_step a t") auto
  have "stuck t1" using stuck_step [OF Cons.prems(1) t1(1)] Cons.prems(3) by simp
  with Cons t1(2) show ?case by simp
qed simp

text \<open>C30. Destroying an \<^verbatim>\<open>EventLoopThread\<close> right after \<^verbatim>\<open>start()\<close> can hang for ever: if the new
  thread has published its loop but not yet entered \<^verbatim>\<open>loop()\<close>, the destructor's \<^verbatim>\<open>quit()\<close> is
  overwritten when it does, and whatever the loop then does, \<^verbatim>\<open>join()\<close> never returns.\<close>

theorem quit_is_lost:
  "\<exists>t :: 'f loop_thread. thread_run [Spawn, Publish, Return, Destroy, Loop Enter] EventLoopThread_new = Some t \<and>
     (\<forall>as t'. thread_run as t = Some t' \<longrightarrow> (\<forall>a \<in> set as. \<not> quits a) \<longrightarrow>
        lt_owner t' = Joining \<and> lt_pc t' = InLoop)"
proof -
  obtain t :: "'f loop_thread" where t: "thread_run [Spawn, Publish, Return, Destroy, Loop Enter] EventLoopThread_new = Some t"
    "stuck t"
    by (simp add: EventLoopThread_new_def EventLoop_new_def EventLoop_quit_def stuck_def)
  have "lt_owner t' = Joining \<and> lt_pc t' = InLoop"
    if "thread_run as t = Some t'" "\<forall>a \<in> set as. \<not> quits a" for as t'
    using stuck_run [OF t(2) that] by (simp add: stuck_def)
  with t(1) show ?thesis by blast
qed

lemma quit_is_lost_witness:
  "\<exists>t :: nat loop_thread. thread_run [Spawn, Publish, Return, Destroy, Loop Enter] EventLoopThread_new = Some t \<and>
     thread_run [Loop Test, Loop OtherWakeup, Loop Poll] t \<noteq> None \<and>
     (\<forall>t'. thread_run [Loop Test, Loop OtherWakeup, Loop Poll] t = Some t' \<longrightarrow> lt_owner t' = Joining)"
proof -
  obtain t :: "nat loop_thread" where t: "thread_run [Spawn, Publish, Return, Destroy, Loop Enter] EventLoopThread_new = Some t"
    "\<forall>as t'. thread_run as t = Some t' \<longrightarrow> (\<forall>a \<in> set as. \<not> quits a) \<longrightarrow> lt_owner t' = Joining \<and> lt_pc t' = InLoop"
    using quit_is_lost by blast
  have "thread_run [Loop Test, Loop OtherWakeup, Loop Poll] t \<noteq> None"
    using t(1) by (auto simp: EventLoopThread_new_def EventLoop_new_def loop_ops Let_def)
  moreover have "\<forall>a \<in> set [Loop Test, Loop OtherWakeup, Loop Poll]. \<not> quits a" by (simp add: quits_def)
  ultimately show ?thesis using t by blast
qed

section \<open>The pool\<close>

record 'l loop_pool =
  lp_base :: 'l
  lp_idx :: "32 word"
  lp_threadNum :: "32 word"
  lp_started :: bool
  lp_loops :: "'l list"

definition EventLoopPool_new :: "'l \<Rightarrow> 'l loop_pool" where
  "EventLoopPool_new base = \<lparr>lp_base = base, lp_idx = 0, lp_threadNum = 0, lp_started = False, lp_loops = []\<rparr>"

definition EventLoopPool_setThreadNum :: "32 word \<Rightarrow> 'l loop_pool \<Rightarrow> 'l loop_pool" where
  "EventLoopPool_setThreadNum n p = p\<lparr>lp_threadNum := n\<rparr>"

text \<open>\<open>mk i\<close> is the loop of the \<open>i\<close>-th thread that is started.\<close>

definition EventLoopPool_start :: "bool \<Rightarrow> (nat \<Rightarrow> 'l) \<Rightarrow> 'l loop_pool \<Rightarrow> 'l loop_pool res" where
  "EventLoopPool_start sameThread mk p = assertR sameThread ''isTheSameThread()'' (
     assertR (\<not> lp_started p) ''!started_''
       (Inr (p\<lparr>lp_loops := lp_loops p @ map mk [0..<unat (lp_threadNum p)], lp_started := True\<rparr>)))"

definition EventLoopPool_getLoop :: "bool \<Rightarrow> 'l loop_pool \<Rightarrow> ('l \<times> 'l loop_pool) res" where
  "EventLoopPool_getLoop sameThread p = assertR sameThread ''isTheSameThread()'' (
     assertR (lp_started p) ''started_'' (
     assertR (unat (lp_threadNum p) = length (lp_loops p)) ''threadNum_ == loops_.size()'' (
     if lp_threadNum p = 0 then Inr (lp_base p, p)
     else if unat (lp_idx p) < length (lp_loops p)
       then Inr (lp_loops p ! unat (lp_idx p), p\<lparr>lp_idx := (lp_idx p + 1) mod lp_threadNum p\<rparr>)
       else Inl (Undefined ''loops_[idx_] out of range''))))"

text \<open>Drawing several loops from a source.\<close>

fun get_many :: "('p \<Rightarrow> ('l \<times> 'p) res) \<Rightarrow> nat \<Rightarrow> 'p \<Rightarrow> ('l list \<times> 'p) res" where
  "get_many get 0 p = Inr ([], p)"
| "get_many get (Suc k) p = bindR (get p) (\<lambda>(l, p1).
     bindR (get_many get k p1) (\<lambda>(ls, p2). Inr (l # ls, p2)))"

definition getLoops :: "nat \<Rightarrow> 'l loop_pool \<Rightarrow> ('l list \<times> 'l loop_pool) res" where
  "getLoops = get_many (EventLoopPool_getLoop True)"

section \<open>The interface of a source of loops\<close>

text \<open>What a server relies on: the \<open>i\<close>-th loop it is given is \<open>target i\<close>.\<close>

locale loop_source =
  fixes ok :: "nat \<Rightarrow> 'p \<Rightarrow> bool"
    and get :: "'p \<Rightarrow> ('l \<times> 'p) res"
    and target :: "nat \<Rightarrow> 'l"
  assumes get_law: "ok i p \<Longrightarrow> \<exists>p1. get p = Inr (target i, p1) \<and> ok (Suc i) p1"
begin

lemma get_many_targets: "ok i p \<Longrightarrow> \<exists>p1. get_many get k p = Inr (map target [i..<i + k], p1) \<and> ok (i + k) p1"
proof (induction k arbitrary: i p)
  case (Suc k)
  obtain p1 where p1: "get p = Inr (target i, p1)" "ok (Suc i) p1" using get_law [OF Suc.prems] by blast
  obtain p2 where "get_many get k p1 = Inr (map target [Suc i..<Suc i + k], p2)" "ok (Suc i + k) p2"
    using Suc.IH [OF p1(2)] by blast
  with p1(1) show ?case by (simp add: upt_rec [of i])
qed simp

end

section \<open>The pool provides it\<close>

definition pool_inv :: "'l \<Rightarrow> (nat \<Rightarrow> 'l) \<Rightarrow> 32 word \<Rightarrow> nat \<Rightarrow> 'l loop_pool \<Rightarrow> bool" where
  "pool_inv loop mk n i p \<longleftrightarrow> lp_started p \<and> lp_base p = loop \<and> lp_threadNum p = n \<and>
     lp_loops p = map mk [0..<unat n] \<and> (n \<noteq> 0 \<longrightarrow> lp_idx p < n \<and> unat (lp_idx p) = i mod unat n)"

definition io_loop :: "'l \<Rightarrow> (nat \<Rightarrow> 'l) \<Rightarrow> 32 word \<Rightarrow> nat \<Rightarrow> 'l" where
  "io_loop loop mk n k = (if n = 0 then loop else mk (k mod unat n))"

lemma unat_next_idx:
  fixes i n :: "32 word"
  assumes "i < n"
  shows "unat ((i + 1) mod n) = Suc (unat i) mod unat n"
proof -
  have "unat n < 2 ^ LENGTH(32)" by (rule unsigned_less)
  then have "unat (i + 1) = Suc (unat i)"
    using assms by (simp add: unat_word_ariths word_less_nat_alt)
  then show ?thesis by (simp add: unat_mod)
qed

lemma pool_inv_getLoop:
  assumes "pool_inv loop mk n i p"
  shows "\<exists>p1. EventLoopPool_getLoop True p = Inr (io_loop loop mk n i, p1) \<and> pool_inv loop mk n (Suc i) p1"
proof (cases "n = 0")
  case True
  with assms show ?thesis by (simp add: pool_inv_def EventLoopPool_getLoop_def io_loop_def)
next
  case False
  let ?p1 = "p\<lparr>lp_idx := (lp_idx p + 1) mod lp_threadNum p\<rparr>"
  have p: "lp_idx p < n" "unat (lp_idx p) = i mod unat n" "lp_loops p = map mk [0..<unat n]" "lp_started p"
    "lp_threadNum p = n"
    using assms False by (simp_all add: pool_inv_def)
  have less: "unat (lp_idx p) < unat n" using p(1) by (simp add: word_less_nat_alt)
  have "lp_idx ?p1 < n" using False p(5) by (simp add: word_mod_less_divisor word_neq_0_conv)
  moreover have "unat (lp_idx ?p1) = Suc i mod unat n"
    using unat_next_idx [OF p(1)] p(2,5) by (simp add: mod_Suc_eq)
  ultimately have "pool_inv loop mk n (Suc i) ?p1" using assms by (simp add: pool_inv_def)
  then show ?thesis
    using p less False by (intro exI [of _ ?p1]) (simp add: EventLoopPool_getLoop_def io_loop_def)
qed

interpretation spread: loop_source "pool_inv loop mk n" "EventLoopPool_getLoop True" "io_loop loop mk n"
  for loop mk n
  by unfold_locales (rule pool_inv_getLoop)

text \<open>After \<^verbatim>\<open>start\<close> the pool hands out its loops in turn: the \<open>j\<close>-th call gives loop \<open>j\<close> modulo the
  number of threads, and the loop of the owner when there are none; and changing the number of
  threads afterwards makes the next call abort.\<close>

theorem getLoop_round_robin:
  assumes "n \<noteq> 0"
  shows "\<exists>p p1. EventLoopPool_start True mk (EventLoopPool_setThreadNum n (EventLoopPool_new base)) = Inr p \<and>
     getLoops k p = Inr (map (\<lambda>j. mk (j mod unat n)) [0..<k], p1) \<and>
     (\<forall>m. m \<noteq> n \<longrightarrow> EventLoopPool_getLoop True (EventLoopPool_setThreadNum m p) =
        Inl (AssertFail ''threadNum_ == loops_.size()''))"
proof -
  let ?p = "\<lparr>lp_base = base, lp_idx = 0, lp_threadNum = n, lp_started = True, lp_loops = map mk [0..<unat n]\<rparr>"
  have start: "EventLoopPool_start True mk (EventLoopPool_setThreadNum n (EventLoopPool_new base)) = Inr ?p"
    by (simp add: EventLoopPool_start_def EventLoopPool_setThreadNum_def EventLoopPool_new_def)
  have "0 < n" using assms by (simp add: word_neq_0_conv)
  then have "pool_inv base mk n 0 ?p" by (simp add: pool_inv_def)
  from spread.get_many_targets [OF this, of k] obtain p1 where
    "getLoops k ?p = Inr (map (io_loop base mk n) [0..<k], p1)"
    by (auto simp: getLoops_def)
  moreover have "map (io_loop base mk n) [0..<k] = map (\<lambda>j. mk (j mod unat n)) [0..<k]"
    using assms by (simp add: io_loop_def)
  ultimately have "getLoops k ?p = Inr (map (\<lambda>j. mk (j mod unat n)) [0..<k], p1)" by simp
  moreover have "EventLoopPool_getLoop True (EventLoopPool_setThreadNum m ?p) =
      Inl (AssertFail ''threadNum_ == loops_.size()'')" if "m \<noteq> n" for m
  proof -
    have "unat m \<noteq> unat n" using that by (simp add: word_unat_eq_iff)
    then show ?thesis by (simp add: EventLoopPool_getLoop_def EventLoopPool_setThreadNum_def assertR_def)
  qed
  ultimately show ?thesis using start by blast
qed

lemma getLoop_round_robin_witness:
  "\<exists>p p1. EventLoopPool_start True id (EventLoopPool_setThreadNum 3 (EventLoopPool_new 9)) = Inr p \<and>
     getLoops 5 p = Inr ([0, 1, 2, 0, 1], p1)"
  using getLoop_round_robin [of 3 id 9 5] by (auto simp: upt_rec)

end
