(* ===== verification/Lotta_Reactor.thy ===== *)
theory Lotta_Reactor
  imports Lotta_Timer_Queue Lotta_Loop_Channels Lotta_Event_Loop
begin

text \<open>
  \<^verbatim>\<open>EventLoop::loop\<close> (\<^verbatim>\<open>src/event_loop.cc\<close>) with everything it drives: the poller and the channel
  objects, the timer queue and the function queue of one loop, as a single state. Callbacks of
  channels, callbacks of timers and queued functions act on the whole state.

  The environment of the loop is the list of what happens at its calls of \<^verbatim>\<open>poll\<close>: the actions of
  other threads up to its return, its return value and the reports it leaves in the array. When
  the list is used up, the loop sleeps in \<^verbatim>\<open>poll\<close>.
\<close>

section \<open>State\<close>

record ('t, 'c, 'f) reactor = "'t timer_queue" +
  rc_pw :: "'c pworld"
  rc_active :: "nat list"             \<comment> \<open>\<^verbatim>\<open>activeChannels_\<close>\<close>
  rc_el :: "'f event_loop"

type_synonym 'f poll_answer = "'f loop_action list \<times> int \<times> 16 word list"

section \<open>The loop\<close>

definition rc_loop :: "('f event_loop \<Rightarrow> 'f event_loop) \<Rightarrow> ('t, 'c, 'f, 'z) reactor_scheme \<Rightarrow> ('t, 'c, 'f, 'z) reactor_scheme" where
  "rc_loop g s = s\<lparr>rc_el := g (rc_el s)\<rparr>"

text \<open>\<^verbatim>\<open>doFuncQueue\<close>: the functions taken out of the queue are called one after the other.\<close>

fun run_functions ::
  "('f \<Rightarrow> ('t, 'c, 'f, 'z) reactor_scheme \<Rightarrow> ('t, 'c, 'f, 'z) reactor_scheme res) \<Rightarrow> 'f list \<Rightarrow>
   ('t, 'c, 'f, 'z) reactor_scheme \<Rightarrow> ('t, 'c, 'f, 'z) reactor_scheme res" where
  "run_functions call [] s = Inr s"
| "run_functions call (f # fs) s = bindR (call f (rc_loop doFuncQueue_call s)) (run_functions call fs)"

definition EventLoop_doFuncQueue ::
  "('f \<Rightarrow> ('t, 'c, 'f, 'z) reactor_scheme \<Rightarrow> ('t, 'c, 'f, 'z) reactor_scheme res) \<Rightarrow>
   ('t, 'c, 'f, 'z) reactor_scheme \<Rightarrow> ('t, 'c, 'f, 'z) reactor_scheme res" where
  "EventLoop_doFuncQueue call s =
     (let s1 = rc_loop (\<lambda>e. (doFuncQueue_swap e)\<lparr>el_pc := Running\<rparr>) s
      in bindR (run_functions call (el_functions (rc_el s1)) s1) (\<lambda>s2.
         Inr (rc_loop (\<lambda>e. (doFuncQueue_end e)\<lparr>el_pc := Testing\<rparr>) s2)))"

text \<open>The \<^verbatim>\<open>for\<close> over \<^verbatim>\<open>activeChannels_\<close>: raw pointers, read again one by one.\<close>

fun dispatch_active ::
  "('c \<Rightarrow> ('t, 'c, 'f, 'z) reactor_scheme \<Rightarrow> ('t, 'c, 'f, 'z) reactor_scheme res) \<Rightarrow> nat list \<Rightarrow>
   ('t, 'c, 'f, 'z) reactor_scheme \<Rightarrow> ('t, 'c, 'f, 'z) reactor_scheme res" where
  "dispatch_active run [] s = Inr s"
| "dispatch_active run (d # ds) s =
     bindR (Channel_handleEvent run (\<lambda>s. pw_store (rc_pw s) d) s) (dispatch_active run ds)"

text \<open>The body of the \<^verbatim>\<open>while\<close> once \<^verbatim>\<open>poll\<close> returns.\<close>

definition EventLoop_round ::
  "('c \<Rightarrow> ('t, 'c, 'f, 'z) reactor_scheme \<Rightarrow> ('t, 'c, 'f, 'z) reactor_scheme res) \<Rightarrow>
   ('f \<Rightarrow> ('t, 'c, 'f, 'z) reactor_scheme \<Rightarrow> ('t, 'c, 'f, 'z) reactor_scheme res) \<Rightarrow>
   int \<Rightarrow> 16 word list \<Rightarrow> ('t, 'c, 'f, 'z) reactor_scheme \<Rightarrow> ('t, 'c, 'f, 'z) reactor_scheme res" where
  "EventLoop_round run call num revs s =
     bindR (PollPoller_poll (rc_pw s) num revs []) (\<lambda>(w, act).
     bindR (dispatch_active run act
              (rc_loop (\<lambda>e. e\<lparr>el_pc := Handling\<rparr>) (s\<lparr>rc_pw := w, rc_active := act\<rparr>)))
       (EventLoop_doFuncQueue call))"

text \<open>Actions of other threads while the loop sleeps; one that is not possible does not happen.\<close>

fun is_other :: "'f loop_action \<Rightarrow> bool" where
  "is_other (OtherPush f) = True"
| "is_other OtherQuit = True"
| "is_other OtherWakeup = True"
| "is_other _ = False"

fun others_act :: "'f loop_action list \<Rightarrow> 'f event_loop \<Rightarrow> 'f event_loop" where
  "others_act [] e = e"
| "others_act (a # as) e =
     others_act as (if is_other a then (case loop_step a e of None \<Rightarrow> e | Some e1 \<Rightarrow> e1) else e)"

text \<open>
  The \<^verbatim>\<open>while\<close>; the flag tells whether \<^verbatim>\<open>loop()\<close> has returned.
\<close>

fun loop_while ::
  "('c \<Rightarrow> ('t, 'c, 'f, 'z) reactor_scheme \<Rightarrow> ('t, 'c, 'f, 'z) reactor_scheme res) \<Rightarrow>
   ('f \<Rightarrow> ('t, 'c, 'f, 'z) reactor_scheme \<Rightarrow> ('t, 'c, 'f, 'z) reactor_scheme res) \<Rightarrow>
   'f poll_answer list \<Rightarrow> ('t, 'c, 'f, 'z) reactor_scheme \<Rightarrow> (bool \<times> ('t, 'c, 'f, 'z) reactor_scheme) res" where
  "loop_while run call [] s =
     (if el_quit (rc_el s) then Inr (True, rc_loop (\<lambda>e. e\<lparr>el_looping := False, el_pc := Outside\<rparr>) s)
      else Inr (False, rc_loop (\<lambda>e. e\<lparr>el_pc := Polling\<rparr>) s))"
| "loop_while run call ((others, num, revs) # answers) s =
     (if el_quit (rc_el s) then Inr (True, rc_loop (\<lambda>e. e\<lparr>el_looping := False, el_pc := Outside\<rparr>) s)
      else bindR (EventLoop_round run call num revs (rc_loop (\<lambda>e. others_act others (e\<lparr>el_pc := Polling\<rparr>)) s))
             (loop_while run call answers))"

definition EventLoop_loop ::
  "('c \<Rightarrow> ('t, 'c, 'f, 'z) reactor_scheme \<Rightarrow> ('t, 'c, 'f, 'z) reactor_scheme res) \<Rightarrow>
   ('f \<Rightarrow> ('t, 'c, 'f, 'z) reactor_scheme \<Rightarrow> ('t, 'c, 'f, 'z) reactor_scheme res) \<Rightarrow>
   'f poll_answer list \<Rightarrow> ('t, 'c, 'f, 'z) reactor_scheme \<Rightarrow> (bool \<times> ('t, 'c, 'f, 'z) reactor_scheme) res" where
  "EventLoop_loop run call answers s = EventLoop_assertTheSameThread (rc_pw s) (
     loop_while run call answers
       (rc_loop (\<lambda>e. e\<lparr>el_looping := True, el_quit := False, el_pc := Testing\<rparr>) s))"

section \<open>What callbacks and functions may do to the loop\<close>

fun is_own :: "'f loop_action \<Rightarrow> bool" where
  "is_own (OwnPush f) = True"
| "is_own OwnQuit = True"
| "is_own _ = False"

definition own_effect :: "'f event_loop \<Rightarrow> 'f event_loop \<Rightarrow> bool" where
  "own_effect e e1 \<longleftrightarrow> (\<exists>as. list_all is_own as \<and> loop_run as e = Some e1)"

lemma own_effect_refl [simp, intro]: "own_effect e e"
  unfolding own_effect_def by (rule exI [of _ "[]"]) simp

lemma own_effect_trans: "own_effect e e1 \<Longrightarrow> own_effect e1 e2 \<Longrightarrow> own_effect e e2"
proof -
  assume "own_effect e e1" "own_effect e1 e2"
  then obtain as bs where "list_all is_own as" "loop_run as e = Some e1" "list_all is_own bs"
    "loop_run bs e1 = Some e2" by (auto simp: own_effect_def)
  then show ?thesis
    unfolding own_effect_def by (intro exI [of _ "as @ bs"]) (simp add: loop_run_append)
qed

lemma own_effect_step: "is_own a \<Longrightarrow> loop_step a e = Some e1 \<Longrightarrow> own_effect e e1"
  unfolding own_effect_def by (rule exI [of _ "[a]"]) simp

lemma own_step_frame:
  assumes "is_own a" "loop_step a e = Some e1"
  shows "el_pc e1 = el_pc e" "el_functions e1 = el_functions e" "el_doing e1 = el_doing e"
    and "\<not> el_doing e \<Longrightarrow> el_counter e1 = el_counter e \<and>
      loop_step a (e\<lparr>el_counter := k\<rparr>) = Some (e1\<lparr>el_counter := k\<rparr>)"
  using assms by (cases a; clarsimp simp: loop_ops Let_def split: if_split_asm)+

lemma own_run_frame:
  "list_all is_own as \<Longrightarrow> loop_run as e = Some e1 \<Longrightarrow>
   el_pc e1 = el_pc e \<and> el_functions e1 = el_functions e \<and> el_doing e1 = el_doing e \<and>
   (\<not> el_doing e \<longrightarrow> el_counter e1 = el_counter e \<and>
      loop_run as (e\<lparr>el_counter := k\<rparr>) = Some (e1\<lparr>el_counter := k\<rparr>))"
proof (induction as arbitrary: e)
  case (Cons a as)
  then obtain e2 where e2: "is_own a" "loop_step a e = Some e2" "loop_run as e2 = Some e1"
    by (cases "loop_step a e") auto
  with Cons.IH [OF _ e2(3)] Cons.prems(1) own_step_frame [OF e2(1,2)] show ?case by simp
qed simp

lemma own_effect_frame:
  assumes "own_effect e e1"
  shows "el_pc e1 = el_pc e" "el_functions e1 = el_functions e" "el_doing e1 = el_doing e"
    and "\<not> el_doing e \<Longrightarrow> el_counter e1 = el_counter e"
    and "\<not> el_doing e \<Longrightarrow> own_effect (e\<lparr>el_counter := k\<rparr>) (e1\<lparr>el_counter := k\<rparr>)"
  using assms own_run_frame [of _ e e1] unfolding own_effect_def by metis+

section \<open>What a poll makes ready\<close>

text \<open>The callbacks that the reports \<open>revs\<close> on the slots of the poller fire, in order.\<close>

definition ready_callbacks :: "'c pworld \<Rightarrow> 16 word list \<Rightarrow> 'c list" where
  "ready_callbacks w revs =
     concat (map2 (\<lambda>p r. if r = 0 then [] else
        case pw_map w (pf_fd p) of None \<Rightarrow> [] | Some d \<Rightarrow>
          (case pw_store w d of None \<Rightarrow> [] | Some ch \<Rightarrow> fired_callbacks (ch\<lparr>ch_revents := scast r\<rparr>)))
       (pw_fds w) revs)"

text \<open>
  What \<^verbatim>\<open>poll(2)\<close> documents: one report per entry, none for a negative descriptor, the count of
  the non-zero ones. The eventfd is reported exactly when its counter is not zero: the wakeup
  callback \<open>wake\<close> is among those fired.
\<close>

definition poll_answer_ok :: "'c \<Rightarrow> int \<Rightarrow> 16 word list \<Rightarrow> ('t, 'c, 'f, 'z) reactor_scheme \<Rightarrow> bool" where
  "poll_answer_ok wake num revs s \<longleftrightarrow>
     length revs = length (pw_fds (rc_pw s)) \<and>
     list_all2 (\<lambda>p r. pf_fd p < 0 \<longrightarrow> r = 0) (pw_fds (rc_pw s)) revs \<and>
     num = int (length (filter (\<lambda>r. r \<noteq> 0) revs)) \<and>
     (wake \<in> set (ready_callbacks (rc_pw s) revs) \<longleftrightarrow> 0 < el_counter (rc_el s))"

lemma concat_map_filter: "concat (map (\<lambda>x. if P x then [] else f x) xs) = concat (map f (filter (\<lambda>x. \<not> P x) xs))"
  by (induction xs) auto

lemma ready_callbacks_channels:
  assumes rep: "poller_rep w cs" and len: "length revs = length (pw_fds w)"
    and neg: "list_all2 (\<lambda>p r. pf_fd p < 0 \<longrightarrow> r = 0) (pw_fds w) revs"
  shows "ready_callbacks w revs =
    concat (map (\<lambda>d. fired_callbacks (the (reported_store (pw_store w) cs revs d)))
      (map snd (filter (\<lambda>(r, c). r \<noteq> 0) (zip revs cs))))"
proof -
  have lens: "length cs = length (pw_fds w)" using rep by (simp add: poller_rep_def)
  let ?f = "\<lambda>p r. if r = 0 then [] else
        case pw_map w (pf_fd p) of None \<Rightarrow> [] | Some d \<Rightarrow>
          (case pw_store w d of None \<Rightarrow> [] | Some ch \<Rightarrow> fired_callbacks (ch\<lparr>ch_revents := scast r\<rparr>))"
  let ?g = "\<lambda>r d. if r = (0 :: 16 word) then [] else fired_callbacks (the (reported_store (pw_store w) cs revs d))"
  have "?f (pw_fds w ! i) (revs ! i) = ?g (revs ! i) (cs ! i)" if i: "i < length cs" for i
  proof (cases "revs ! i = 0")
    case False
    have ge: "0 \<le> pf_fd (pw_fds w ! i)"
      using neg False i lens len by (auto simp: list_all2_conv_all_nth not_less [symmetric])
    obtain ch where "pw_store w (cs ! i) = Some ch" "pw_map w (ch_fd ch) = Some (cs ! i)"
      "pf_fd (pw_fds w ! i) = ch_fd ch \<or> pf_fd (pw_fds w ! i) = -1"
      using poller_rep_slot [OF rep i] by metis
    with ge have "pw_map w (pf_fd (pw_fds w ! i)) = Some (cs ! i)" "pw_store w (cs ! i) = Some ch" by auto
    then show ?thesis using False reported_store_at [OF rep _ i, of revs "pw_store w"] len lens by simp
  qed simp
  then have "map2 ?f (pw_fds w) revs = map2 ?g revs cs"
    by (intro nth_equalityI) (use len lens in simp_all)
  then have "ready_callbacks w revs = concat (map2 ?g revs cs)" by (simp add: ready_callbacks_def)
  also have "\<dots> = concat (map (\<lambda>d. fired_callbacks (the (reported_store (pw_store w) cs revs d)))
      (map snd (filter (\<lambda>(r, c). r \<noteq> 0) (zip revs cs))))"
    by (simp add: case_prod_unfold concat_map_filter comp_def)
  finally show ?thesis .
qed

text \<open>The kernel keeps to that at every \<^verbatim>\<open>poll\<close> of a run.\<close>

fun answers_ok ::
  "'c \<Rightarrow> ('c \<Rightarrow> ('t, 'c, 'f, 'z) reactor_scheme \<Rightarrow> ('t, 'c, 'f, 'z) reactor_scheme res) \<Rightarrow>
   ('f \<Rightarrow> ('t, 'c, 'f, 'z) reactor_scheme \<Rightarrow> ('t, 'c, 'f, 'z) reactor_scheme res) \<Rightarrow>
   'f poll_answer list \<Rightarrow> ('t, 'c, 'f, 'z) reactor_scheme \<Rightarrow> bool" where
  "answers_ok wake run call [] s = True"
| "answers_ok wake run call ((others, num, revs) # answers) s =
     (el_quit (rc_el s) \<or>
      (let s0 = rc_loop (\<lambda>e. others_act others (e\<lparr>el_pc := Polling\<rparr>)) s
       in poll_answer_ok wake num revs s0 \<and>
          (case EventLoop_round run call num revs s0 of Inl _ \<Rightarrow> True | Inr s1 \<Rightarrow> answers_ok wake run call answers s1)))"

lemma loop_run_trans: "loop_run as e = Some e1 \<Longrightarrow> loop_run bs e1 = Some e2 \<Longrightarrow> loop_run (as @ bs) e = Some e2"
  by (simp add: loop_run_append)

lemma others_act_run: "\<exists>as. list_all is_other as \<and> loop_run as e = Some (others_act others e)"
proof (induction others arbitrary: e)
  case Nil
  show ?case by (rule exI [of _ "[]"]) simp
next
  case (Cons a others)
  show ?case
  proof (cases "is_other a \<and> loop_step a e \<noteq> None")
    case True
    then obtain e1 where e1: "loop_step a e = Some e1" by blast
    obtain as where "list_all is_other as" "loop_run as e1 = Some (others_act others e1)" using Cons.IH by blast
    with True e1 show ?thesis by (intro exI [of _ "a # as"]) simp
  next
    case False
    then have "others_act (a # others) e = others_act others e" by auto
    with Cons.IH show ?thesis by simp
  qed
qed

lemma others_act_frame [simp]:
  "el_pc (others_act others e) = el_pc e" "el_doing (others_act others e) = el_doing e"
  "el_looping (others_act others e) = el_looping e" "el_functions (others_act others e) = el_functions e"
proof -
  have "is_other a \<Longrightarrow> loop_step a e = Some e1 \<Longrightarrow>
      el_pc e1 = el_pc e \<and> el_doing e1 = el_doing e \<and> el_looping e1 = el_looping e \<and> el_functions e1 = el_functions e" for a e e1
    by (cases a) (auto simp: loop_ops Let_def split: if_split_asm)
  then have "el_pc (others_act others e) = el_pc e \<and> el_doing (others_act others e) = el_doing e \<and>
      el_looping (others_act others e) = el_looping e \<and> el_functions (others_act others e) = el_functions e"
    by (induction others arbitrary: e) (auto split: option.splits)
  then show "el_pc (others_act others e) = el_pc e" "el_doing (others_act others e) = el_doing e"
    "el_looping (others_act others e) = el_looping e" "el_functions (others_act others e) = el_functions e" by simp_all
qed

text \<open>Once the loop is told to quit, only a new \<^verbatim>\<open>loop()\<close> can take that back.\<close>

lemma quit_step: "el_quit e \<Longrightarrow> loop_step a e = Some e1 \<Longrightarrow> a \<noteq> Enter \<Longrightarrow> el_quit e1"
  by (cases a; cases "el_functions e"; clarsimp simp: loop_ops Let_def split: if_split_asm)

lemma quit_run: "loop_run as e = Some e1 \<Longrightarrow> el_quit e \<Longrightarrow> Enter \<notin> set as \<Longrightarrow> el_quit e1"
proof (induction as arbitrary: e)
  case (Cons a as)
  then obtain e2 where e2: "loop_step a e = Some e2" "loop_run as e2 = Some e1"
    by (cases "loop_step a e") auto
  then have "el_quit e2" using Cons.prems quit_step by fastforce
  with Cons e2 show ?case by simp
qed simp

lemma others_act_quit: "OtherQuit \<in> set others \<or> el_quit e \<Longrightarrow> el_quit (others_act others e)"
proof (induction others arbitrary: e)
  case (Cons a others)
  have "el_quit e \<Longrightarrow> is_other a \<Longrightarrow> loop_step a e = Some e1 \<Longrightarrow> el_quit e1" for e1
    by (rule quit_step) auto
  moreover have "loop_step OtherQuit e = Some e1 \<Longrightarrow> el_quit e1" for e1
    by (auto simp: loop_ops Let_def)
  ultimately show ?case using Cons by (auto split: option.splits)
qed simp

text \<open>Other threads never take a wakeup back, and a quit among their actions owes one of its own.\<close>

lemma others_act_wakes:
  "el_counter e + el_pending e + (if OtherQuit \<in> set others then 1 else 0) \<le>
   el_counter (others_act others e) + el_pending (others_act others e)"
proof (induction others arbitrary: e)
  case (Cons a others)
  let ?e1 = "if is_other a then (case loop_step a e of None \<Rightarrow> e | Some e1 \<Rightarrow> e1) else e"
  have "el_counter e + el_pending e + (if a = OtherQuit then 1 else 0) \<le> el_counter ?e1 + el_pending ?e1"
    by (cases a) (auto simp: loop_ops Let_def)
  with Cons.IH [of ?e1] show ?case by (auto split: if_split_asm)
qed simp

text \<open>A run that ends with the loop asleep, and one more admissible answer of \<^verbatim>\<open>poll\<close>.\<close>

lemma answers_ok_asleep:
  "loop_while run call answers s = Inr (False, s1) \<Longrightarrow> answers_ok wake run call answers s \<Longrightarrow>
   poll_answer_ok wake num revs (rc_loop (others_act others) s1) \<Longrightarrow>
   answers_ok wake run call (answers @ [(others, num, revs)]) s"
proof (induction answers arbitrary: s)
  case Nil
  then show ?case by (auto simp: rc_loop_def Let_def split: if_split_asm sum.split)
next
  case (Cons answer answers)
  obtain others' num' revs' where answer: "answer = (others', num', revs')" by (cases answer)
  obtain s2 where "\<not> el_quit (rc_el s)"
    "EventLoop_round run call num' revs' (rc_loop (\<lambda>e. others_act others' (e\<lparr>el_pc := Polling\<rparr>)) s) = Inr s2"
    "loop_while run call answers s2 = Inr (False, s1)"
    using Cons.prems(1) answer by (auto simp: res_iffs split: if_split_asm)
  then show ?case using Cons.IH Cons.prems(2,3) answer by (simp add: Let_def)
qed

text \<open>When the wakeup channel is reported, \<^verbatim>\<open>poll\<close> did not return for its timeout.\<close>

lemma wake_reported:
  assumes "poll_answer_ok wake num revs s" and "0 < el_counter (rc_el s)"
  shows "0 < num \<and> wake \<in> set (ready_callbacks (rc_pw s) revs)"
proof -
  have wake: "wake \<in> set (ready_callbacks (rc_pw s) revs)" using assms by (simp add: poll_answer_ok_def)
  have "\<exists>r \<in> set revs. r \<noteq> 0"
  proof (rule ccontr)
    assume "\<not> ?thesis"
    then have "ready_callbacks (rc_pw s) revs = []"
      by (auto simp: ready_callbacks_def dest!: set_zip_rightD)
    with wake show False by simp
  qed
  then have "filter (\<lambda>r. r \<noteq> 0) revs \<noteq> []" by (auto simp: filter_empty_conv)
  then show ?thesis using wake assms(1) by (simp add: poll_answer_ok_def)
qed

section \<open>Dispatching a poll\<close>

text \<open>Callbacks along which the active channels stay alive with their views are run one after the
  other: for the channels in turn, and in a round in the order of the slots.\<close>

lemma dispatch_along:
  assumes along: "runs_along Q run"
  shows "\<forall>d \<in> set ds. sees Q (\<lambda>s. pw_store (rc_pw s) d) (chs d) \<Longrightarrow>
   Q (concat (map (\<lambda>d. fired_callbacks (chs d)) ds)) s \<Longrightarrow>
   dispatch_active run ds s = run_all run (concat (map (\<lambda>d. fired_callbacks (chs d)) ds)) s"
proof (induction ds arbitrary: s)
  case (Cons d ds)
  let ?rest = "concat (map (\<lambda>d. fired_callbacks (chs d)) ds)"
  have Q: "Q (fired_callbacks (chs d) @ ?rest) s" using Cons.prems(2) by simp
  have "sees Q (\<lambda>s. pw_store (rc_pw s) d) (chs d)" using Cons.prems(1) by simp
  from Channel_handleEvent_along [OF along this Q]
  have first: "Channel_handleEvent run (\<lambda>s. pw_store (rc_pw s) d) s = run_all run (fired_callbacks (chs d)) s" .
  show ?case
  proof (cases "run_all run (fired_callbacks (chs d)) s")
    case (Inr s1)
    then show ?thesis using Cons.IH [OF _ run_all_along [OF along Q Inr]] Cons.prems(1) by (simp add: first run_all_append)
  qed (simp add: first run_all_append)
qed simp

lemma dispatch_runs_on:
  assumes views: "\<And>d. keeps_view run (\<lambda>s. pw_store (rc_pw s) d)" and alive: "\<forall>d \<in> set ds. pw_store (rc_pw s) d \<noteq> None"
  shows "dispatch_active run ds s = run_all run (concat (map (\<lambda>d. fired_callbacks (the (pw_store (rc_pw s) d))) ds)) s"
proof (rule dispatch_along)
  let ?Q = "\<lambda>_ t. \<forall>d \<in> set ds. \<exists>ch1. pw_store (rc_pw t) d = Some ch1 \<and> ch_view ch1 = ch_view (the (pw_store (rc_pw s) d))"
  show "runs_along ?Q run" unfolding runs_along_def
  proof (intro allI impI ballI)
    fix f and fs :: "'b list" and w w1 d
    assume "\<forall>d \<in> set ds. \<exists>ch1. pw_store (rc_pw w) d = Some ch1 \<and> ch_view ch1 = ch_view (the (pw_store (rc_pw s) d))"
      and "run f w = Inr w1" "d \<in> set ds"
    then show "\<exists>ch1. pw_store (rc_pw w1) d = Some ch1 \<and> ch_view ch1 = ch_view (the (pw_store (rc_pw s) d))"
      using keeps_view_along [where v = "ch_view (the (pw_store (rc_pw s) d))", OF views [of d]]
      unfolding runs_along_def by blast
  qed
  show "\<forall>d \<in> set ds. sees ?Q (\<lambda>s. pw_store (rc_pw s) d) (the (pw_store (rc_pw s) d))" by (simp add: sees_def)
  show "?Q (concat (map (\<lambda>d. fired_callbacks (the (pw_store (rc_pw s) d))) ds)) s" using alive by auto
qed

definition polled_channels :: "nat list \<Rightarrow> 16 word list \<Rightarrow> nat list" where
  "polled_channels cs revs = map snd (filter (\<lambda>(r, c). r \<noteq> 0) (zip revs cs))"

lemma poll_answered:
  assumes rep: "poller_rep (rc_pw s) cs" and answer: "poll_answer_ok wake num revs s"
  shows "\<exists>w. PollPoller_poll (rc_pw s) num revs [] = Inr (w, polled_channels cs revs) \<and> poller_rep w cs \<and>
    pw_store w = reported_store (pw_store (rc_pw s)) cs revs \<and> pw_map w = pw_map (rc_pw s) \<and>
    map pf_fd (pw_fds w) = map pf_fd (pw_fds (rc_pw s)) \<and>
    (\<forall>d \<in> set (polled_channels cs revs). pw_store w d \<noteq> None) \<and>
    ready_callbacks (rc_pw s) revs =
      concat (map (\<lambda>d. fired_callbacks (the (pw_store w d))) (polled_channels cs revs))"
proof -
  have len: "length revs = length (pw_fds (rc_pw s))"
    and neg: "list_all2 (\<lambda>p r. pf_fd p < 0 \<longrightarrow> r = 0) (pw_fds (rc_pw s)) revs"
    and num: "num = int (length (filter (\<lambda>r. r \<noteq> 0) revs))"
    using answer by (simp_all add: poll_answer_ok_def)
  have neg': "\<forall>i < length revs. pf_fd (pw_fds (rc_pw s) ! i) < 0 \<longrightarrow> revs ! i = 0"
    using neg len by (auto simp: list_all2_conv_all_nth)
  let ?act = "polled_channels cs revs"
  obtain w where w: "PollPoller_poll (rc_pw s) num revs [] = Inr (w, ?act)" "pw_map w = pw_map (rc_pw s)"
    "pw_store w = reported_store (pw_store (rc_pw s)) cs revs"
    "pw_fds w = map2 (\<lambda>p r. p\<lparr>pf_revents := r\<rparr>) (pw_fds (rc_pw s)) revs" "pw_sameThread w = pw_sameThread (rc_pw s)"
    using poll_reports_ready [OF rep len neg' num, of "[]"] by (auto simp: polled_channels_def)
  have rep1: "poller_rep w cs" using poll_keeps_rep [OF rep len w(2-5)] .
  have alive: "\<forall>d \<in> set ?act. pw_store w d \<noteq> None"
  proof
    fix d assume "d \<in> set ?act"
    then have "d \<in> set cs" by (auto simp: polled_channels_def dest: set_zip_rightD)
    then obtain i where "i < length cs" "cs ! i = d" by (auto simp: in_set_conv_nth)
    then show "pw_store w d \<noteq> None" using poller_rep_slot [OF rep1] by (metis option.distinct(1))
  qed
  have fds: "map pf_fd (pw_fds w) = map pf_fd (pw_fds (rc_pw s))"
    by (intro nth_equalityI) (use w(4) len in simp_all)
  have "ready_callbacks (rc_pw s) revs = concat (map (\<lambda>d. fired_callbacks (the (pw_store w d))) ?act)"
    using ready_callbacks_channels [OF rep len neg] w(3) by (simp add: polled_channels_def)
  then show ?thesis using w rep1 fds alive by blast
qed

lemma round_runs_on:
  assumes views: "\<And>d. keeps_view run (\<lambda>s. pw_store (rc_pw s) d)"
    and rep: "poller_rep (rc_pw s) cs" and answer: "poll_answer_ok wake num revs s"
  shows "\<exists>w act. PollPoller_poll (rc_pw s) num revs [] = Inr (w, act) \<and> poller_rep w cs \<and>
    pw_store w = reported_store (pw_store (rc_pw s)) cs revs \<and> pw_map w = pw_map (rc_pw s) \<and>
    map pf_fd (pw_fds w) = map pf_fd (pw_fds (rc_pw s)) \<and>
    EventLoop_round run call num revs s =
      bindR (run_all run (ready_callbacks (rc_pw s) revs)
               (rc_loop (\<lambda>e. e\<lparr>el_pc := Handling\<rparr>) (s\<lparr>rc_pw := w, rc_active := act\<rparr>)))
        (EventLoop_doFuncQueue call)"
proof -
  obtain w where w: "PollPoller_poll (rc_pw s) num revs [] = Inr (w, polled_channels cs revs)" "poller_rep w cs"
    "pw_store w = reported_store (pw_store (rc_pw s)) cs revs" "pw_map w = pw_map (rc_pw s)"
    "map pf_fd (pw_fds w) = map pf_fd (pw_fds (rc_pw s))" "\<forall>d \<in> set (polled_channels cs revs). pw_store w d \<noteq> None"
    "ready_callbacks (rc_pw s) revs =
      concat (map (\<lambda>d. fired_callbacks (the (pw_store w d))) (polled_channels cs revs))"
    using poll_answered [OF rep answer] by blast
  let ?s = "rc_loop (\<lambda>e. e\<lparr>el_pc := Handling\<rparr>) (s\<lparr>rc_pw := w, rc_active := polled_channels cs revs\<rparr>)"
  have "dispatch_active run (polled_channels cs revs) ?s = run_all run (ready_callbacks (rc_pw s) revs) ?s"
    using dispatch_runs_on [where s = ?s and ds = "polled_channels cs revs", OF views] w(6,7) by (simp add: rc_loop_def)
  then show ?thesis using w(1-5) by (auto simp: EventLoop_round_def)
qed

section \<open>The interface between the loop and its clients\<close>

text \<open>
  \<open>run\<close> runs a callback of a channel, \<open>call\<close> a queued function, \<open>wake\<close> is the callback of the
  loop's wakeup channel and \<open>ok\<close> an invariant of the clients. They may queue functions and quit
  the loop, use the poller through its operations, but a callback may not destroy a channel object
  or touch what a dispatch reads of it.
\<close>

locale loop_clients =
  fixes run :: "'c \<Rightarrow> ('t, 'c, 'f, 'z) reactor_scheme \<Rightarrow> ('t, 'c, 'f, 'z) reactor_scheme res"
    and call :: "'f \<Rightarrow> ('t, 'c, 'f, 'z) reactor_scheme \<Rightarrow> ('t, 'c, 'f, 'z) reactor_scheme res"
    and wake :: 'c
    and ok :: "('t, 'c, 'f, 'z) reactor_scheme \<Rightarrow> bool"
  assumes run_wake: "run wake s = Inr (rc_loop EventLoop_handleWakeup s)"
    and run_own: "cb \<noteq> wake \<Longrightarrow> el_pc (rc_el s) = Handling \<Longrightarrow> run cb s = Inr s1 \<Longrightarrow>
      own_effect (rc_el s) (rc_el s1)"
    and call_own: "el_pc (rc_el s) = Running \<Longrightarrow> call f s = Inr s1 \<Longrightarrow> own_effect (rc_el s) (rc_el s1)"
    and run_ok: "ok s \<Longrightarrow> run cb s = Inr s1 \<Longrightarrow> ok s1"
    and call_ok: "ok s \<Longrightarrow> call f s = Inr s1 \<Longrightarrow> ok s1"
    and run_views: "keeps_view run (\<lambda>s. pw_store (rc_pw s) d)"
    and ok_rep: "ok s \<Longrightarrow> \<exists>cs. poller_rep (rc_pw s) cs"
    and ok_loop: "ok s \<Longrightarrow> ok (rc_loop g s)"
    and ok_poll: "ok s \<Longrightarrow> poller_rep (rc_pw s) cs \<Longrightarrow> poller_rep w cs \<Longrightarrow>
      pw_store w = reported_store (pw_store (rc_pw s)) cs revs \<Longrightarrow> ok (s\<lparr>rc_pw := w, rc_active := act\<rparr>)"
begin

lemma dispatch_runs:
  "\<forall>d \<in> set ds. pw_store (rc_pw s) d \<noteq> None \<Longrightarrow>
   dispatch_active run ds s =
     run_all run (concat (map (\<lambda>d. fired_callbacks (the (pw_store (rc_pw s) d))) ds)) s"
  by (rule dispatch_runs_on [OF run_views])

text \<open>A round fires the callbacks of the ready channels in the order of the slots, then the queue.\<close>

lemma round_runs:
  assumes ok: "ok s" and answer: "poll_answer_ok wake num revs s"
  shows "\<exists>w act. PollPoller_poll (rc_pw s) num revs [] = Inr (w, act) \<and>
    ok (s\<lparr>rc_pw := w, rc_active := act\<rparr>) \<and>
    EventLoop_round run call num revs s =
      bindR (run_all run (ready_callbacks (rc_pw s) revs)
               (rc_loop (\<lambda>e. e\<lparr>el_pc := Handling\<rparr>) (s\<lparr>rc_pw := w, rc_active := act\<rparr>)))
        (EventLoop_doFuncQueue call)"
proof -
  obtain cs where rep: "poller_rep (rc_pw s) cs" using ok_rep [OF ok] by blast
  show ?thesis
    using round_runs_on [OF run_views rep answer]
      ok_poll [OF ok rep] by meson
qed

lemma callbacks_refine:
  "ok s \<Longrightarrow> el_pc (rc_el s) = Handling \<Longrightarrow> \<not> el_doing (rc_el s) \<Longrightarrow> run_all run cbs s = Inr s1 \<Longrightarrow>
   ok s1 \<and> el_pc (rc_el s1) = Handling \<and>
   own_effect ((rc_el s)\<lparr>el_counter := 0\<rparr>) ((rc_el s1)\<lparr>el_counter := 0\<rparr>) \<and>
   el_counter (rc_el s1) = (if wake \<in> set cbs then 0 else el_counter (rc_el s))"
proof (induction cbs arbitrary: s)
  case (Cons cb cbs)
  then obtain s2 where s2: "run cb s = Inr s2" "run_all run cbs s2 = Inr s1" by (auto simp: res_iffs)
  have ok2: "ok s2" using run_ok [OF Cons.prems(1) s2(1)] .
  have step: "el_pc (rc_el s2) = Handling \<and> \<not> el_doing (rc_el s2) \<and>
      own_effect ((rc_el s)\<lparr>el_counter := 0\<rparr>) ((rc_el s2)\<lparr>el_counter := 0\<rparr>) \<and>
      el_counter (rc_el s2) = (if cb = wake then 0 else el_counter (rc_el s))"
  proof (cases "cb = wake")
    case True
    then show ?thesis
      using s2(1) run_wake [of s] Cons.prems(2,3) by (auto simp: rc_loop_def EventLoop_handleWakeup_def)
  next
    case False
    have own: "own_effect (rc_el s) (rc_el s2)" by (rule run_own [OF False Cons.prems(2) s2(1)])
    show ?thesis using own_effect_frame [OF own] Cons.prems(2,3) False by simp
  qed
  then show ?case
    using Cons.IH [OF ok2 _ _ s2(2)] own_effect_trans by auto
qed simp

lemma functions_refine:
  "ok s \<Longrightarrow> el_pc (rc_el s) = Running \<Longrightarrow> el_functions (rc_el s) = fs \<Longrightarrow> run_functions call fs s = Inr s1 \<Longrightarrow>
   ok s1 \<and> el_pc (rc_el s1) = Running \<and> el_functions (rc_el s1) = [] \<and>
   (\<exists>as. list_all (\<lambda>a. a = Call \<or> is_own a) as \<and> loop_run as (rc_el s) = Some (rc_el s1))"
proof (induction fs arbitrary: s)
  case Nil
  then show ?case by (auto intro: exI [of _ "[]"])
next
  case (Cons f fs)
  let ?s = "rc_loop doFuncQueue_call s"
  obtain s2 where s2: "call f ?s = Inr s2" "run_functions call fs s2 = Inr s1"
    using Cons.prems(4) by (auto simp: res_iffs)
  have call_step: "loop_step Call (rc_el s) = Some (rc_el ?s)" "el_pc (rc_el ?s) = Running" "el_functions (rc_el ?s) = fs"
    using Cons.prems(2,3) by (simp_all add: rc_loop_def doFuncQueue_call_def)
  have own: "own_effect (rc_el ?s) (rc_el s2)" by (rule call_own [OF call_step(2) s2(1)])
  then obtain as where as: "list_all is_own as" "loop_run as (rc_el ?s) = Some (rc_el s2)"
    by (auto simp: own_effect_def)
  have ok2: "ok s2" using call_ok [OF ok_loop [OF Cons.prems(1)] s2(1)] .
  have fields: "el_pc (rc_el s2) = Running" "el_functions (rc_el s2) = fs"
    using own_effect_frame [OF own] call_step by simp_all
  obtain bs where bs: "list_all (\<lambda>a. a = Call \<or> is_own a) bs" "loop_run bs (rc_el s2) = Some (rc_el s1)"
    and rest: "ok s1" "el_pc (rc_el s1) = Running" "el_functions (rc_el s1) = []"
    using Cons.IH [OF ok2 fields s2(2)] by blast
  have "loop_run (Call # as @ bs) (rc_el s) = Some (rc_el s1)"
    using call_step(1) as(2) bs(2) by (simp add: loop_run_append)
  moreover have "list_all (\<lambda>a. a = Call \<or> is_own a) (Call # as @ bs)"
    using as(1) bs(1) by (auto simp: list_all_iff)
  ultimately show ?case using rest by blast
qed

text \<open>A round of the detailed loop is a round of the concurrent object.\<close>

lemma round_refines:
  assumes ok: "ok s" and pc: "el_pc (rc_el s) = Polling" and idle: "\<not> el_doing (rc_el s)"
    and answer: "poll_answer_ok wake num revs s" and step: "EventLoop_round run call num revs s = Inr s1"
  shows "ok s1 \<and> el_pc (rc_el s1) = Testing \<and> \<not> el_doing (rc_el s1) \<and>
    (\<exists>as bs. list_all is_own as \<and> list_all (\<lambda>a. a = Call \<or> is_own a) bs \<and>
       loop_run (Poll # as @ Drain # bs @ [Drained]) (rc_el s) = Some (rc_el s1))"
proof -
  obtain w act where w: "ok (s\<lparr>rc_pw := w, rc_active := act\<rparr>)"
    "EventLoop_round run call num revs s =
      bindR (run_all run (ready_callbacks (rc_pw s) revs)
               (rc_loop (\<lambda>e. e\<lparr>el_pc := Handling\<rparr>) (s\<lparr>rc_pw := w, rc_active := act\<rparr>)))
        (EventLoop_doFuncQueue call)"
    using round_runs [OF ok answer] by blast
  let ?s = "rc_loop (\<lambda>e. e\<lparr>el_pc := Handling\<rparr>) (s\<lparr>rc_pw := w, rc_active := act\<rparr>)"
  obtain s2 where s2: "run_all run (ready_callbacks (rc_pw s) revs) ?s = Inr s2"
    "EventLoop_doFuncQueue call s2 = Inr s1" using step w(2) by (auto simp: res_iffs)
  have handled: "ok s2" "el_pc (rc_el s2) = Handling"
    "own_effect ((rc_el ?s)\<lparr>el_counter := 0\<rparr>) ((rc_el s2)\<lparr>el_counter := 0\<rparr>)"
    "el_counter (rc_el s2) = (if wake \<in> set (ready_callbacks (rc_pw s) revs) then 0 else el_counter (rc_el ?s))"
    using callbacks_refine [OF ok_loop [OF w(1)] _ _ s2(1)] idle by (simp_all add: rc_loop_def)
  have drained: "el_counter (rc_el s2) = 0"
    using handled(4) answer by (auto simp: poll_answer_ok_def rc_loop_def)
  then have same: "(rc_el s2)\<lparr>el_counter := 0\<rparr> = rc_el s2" by simp
  obtain as where as: "list_all is_own as" "loop_run as ((rc_el ?s)\<lparr>el_counter := 0\<rparr>) = Some (rc_el s2)"
    using handled(3) unfolding same own_effect_def by blast
  have poll: "loop_step Poll (rc_el s) = Some ((rc_el ?s)\<lparr>el_counter := 0\<rparr>)"
    using pc by (simp add: rc_loop_def EventLoop_handleWakeup_def)
  let ?s3 = "rc_loop (\<lambda>e. (doFuncQueue_swap e)\<lparr>el_pc := Running\<rparr>) s2"
  have drain: "loop_step Drain (rc_el s2) = Some (rc_el ?s3)" "el_pc (rc_el ?s3) = Running"
    using handled(2) by (simp_all add: rc_loop_def)
  obtain s4 where s4: "run_functions call (el_functions (rc_el ?s3)) ?s3 = Inr s4"
    "s1 = rc_loop (\<lambda>e. (doFuncQueue_end e)\<lparr>el_pc := Testing\<rparr>) s4"
    using s2(2) by (auto simp: EventLoop_doFuncQueue_def Let_def res_iffs)
  obtain bs where bs: "list_all (\<lambda>a. a = Call \<or> is_own a) bs" "loop_run bs (rc_el ?s3) = Some (rc_el s4)"
    and ran: "ok s4" "el_pc (rc_el s4) = Running" "el_functions (rc_el s4) = []"
    using functions_refine [OF ok_loop [OF handled(1)] drain(2) refl s4(1)] by blast
  have "loop_step Drained (rc_el s4) = Some (rc_el s1)" using ran s4(2) by (simp add: rc_loop_def)
  then have "loop_run (Poll # as @ Drain # bs @ [Drained]) (rc_el s) = Some (rc_el s1)"
    using poll as(2) drain(1) bs(2) by (simp add: loop_run_append)
  moreover have "ok s1" using s4(2) ok_loop [OF ran(1)] by simp
  moreover have "el_pc (rc_el s1) = Testing" "\<not> el_doing (rc_el s1)"
    using s4(2) by (simp_all add: rc_loop_def doFuncQueue_end_def)
  ultimately show ?thesis using as(1) bs(1) by blast
qed

text \<open>The whole \<^verbatim>\<open>while\<close>: it runs the concurrent object, and keeps the clients' invariant.\<close>

lemma loop_while_refines:
  "ok s \<Longrightarrow> el_pc (rc_el s) = Testing \<Longrightarrow> \<not> el_doing (rc_el s) \<Longrightarrow> answers_ok wake run call answers s \<Longrightarrow>
   loop_while run call answers s = Inr (done, s1) \<Longrightarrow>
   ok s1 \<and> (\<exists>as. Enter \<notin> set as \<and> loop_run as (rc_el s) = Some (rc_el s1)) \<and>
   el_pc (rc_el s1) = (if done then Outside else Polling) \<and> (done \<longleftrightarrow> el_quit (rc_el s1))"
proof (induction answers arbitrary: s)
  case Nil
  show ?case
  proof (cases "el_quit (rc_el s)")
    case True
    with Nil show ?thesis
      using ok_loop [OF Nil.prems(1)] by (auto simp: rc_loop_def intro!: exI [of _ "[Leave]"])
  next
    case False
    with Nil show ?thesis
      using ok_loop [OF Nil.prems(1)] by (auto simp: rc_loop_def intro!: exI [of _ "[Test]"])
  qed
next
  case (Cons answer answers)
  obtain others num revs where answer: "answer = (others, num, revs)" by (cases answer)
  show ?case
  proof (cases "el_quit (rc_el s)")
    case True
    with Cons.prems answer show ?thesis
      using ok_loop [OF Cons.prems(1)] by (auto simp: rc_loop_def intro!: exI [of _ "[Leave]"])
  next
    case False
    let ?s0 = "rc_loop (\<lambda>e. others_act others (e\<lparr>el_pc := Polling\<rparr>)) s"
    obtain s2 where s2: "EventLoop_round run call num revs ?s0 = Inr s2"
      "loop_while run call answers s2 = Inr (done, s1)"
      using Cons.prems(5) False answer by (auto simp: res_iffs)
    have poll: "poll_answer_ok wake num revs ?s0" "answers_ok wake run call answers s2"
      using Cons.prems(4) False answer s2(1) by (simp_all add: Let_def)
    have pc: "el_pc (rc_el ?s0) = Polling" "\<not> el_doing (rc_el ?s0)" using Cons.prems(3) by (simp_all add: rc_loop_def)
    obtain as bs where round: "ok s2" "el_pc (rc_el s2) = Testing" "\<not> el_doing (rc_el s2)"
      "list_all is_own as" "list_all (\<lambda>a. a = Call \<or> is_own a) bs"
      "loop_run (Poll # as @ Drain # bs @ [Drained]) (rc_el ?s0) = Some (rc_el s2)"
      using round_refines [OF ok_loop [OF Cons.prems(1)] pc poll(1) s2(1)] by (elim conjE exE) (rule that)
    obtain cs where rest: "ok s1" "Enter \<notin> set cs" "loop_run cs (rc_el s2) = Some (rc_el s1)"
      "el_pc (rc_el s1) = (if done then Outside else Polling)" "done \<longleftrightarrow> el_quit (rc_el s1)"
      using Cons.IH [OF round(1-3) poll(2) s2(2)] by (elim conjE exE) (rule that)
    have start: "loop_step Test (rc_el s) = Some ((rc_el s)\<lparr>el_pc := Polling\<rparr>)" using False Cons.prems(2) by simp
    obtain os where os: "list_all is_other os" "loop_run os ((rc_el s)\<lparr>el_pc := Polling\<rparr>) = Some (rc_el ?s0)"
      using others_act_run [of "(rc_el s)\<lparr>el_pc := Polling\<rparr>" others] by (auto simp: rc_loop_def)
    let ?all = "Test # os @ (Poll # as @ Drain # bs @ [Drained]) @ cs"
    have "loop_run ?all (rc_el s) = Some (rc_el s1)"
      unfolding loop_run.simps(2) [of Test] start Option.bind.simps
      by (rule loop_run_trans [OF os(2) loop_run_trans [OF round(6) rest(3)]])
    moreover have "Enter \<notin> set ?all"
      using os(1) round(4,5) rest(2) by (auto simp: list_all_iff dest!: bspec)
    ultimately show ?thesis using rest by blast
  qed
qed

text \<open>A quit from another thread ends the loop after the round it interrupts.\<close>

lemma loop_while_quits:
  "ok s \<Longrightarrow> el_pc (rc_el s) = Testing \<Longrightarrow> \<not> el_doing (rc_el s) \<Longrightarrow> answers_ok wake run call answers s \<Longrightarrow>
   (\<exists>(others, num, revs) \<in> set answers. OtherQuit \<in> set others) \<Longrightarrow>
   loop_while run call answers s = Inr (done, s1) \<Longrightarrow> done"
proof (induction answers arbitrary: s)
  case (Cons answer answers)
  obtain others num revs where answer: "answer = (others, num, revs)" by (cases answer)
  show ?case
  proof (cases "el_quit (rc_el s)")
    case True
    with Cons.prems(6) answer show ?thesis by simp
  next
    case False
    let ?s0 = "rc_loop (\<lambda>e. others_act others (e\<lparr>el_pc := Polling\<rparr>)) s"
    obtain s2 where s2: "EventLoop_round run call num revs ?s0 = Inr s2"
      "loop_while run call answers s2 = Inr (done, s1)"
      using Cons.prems(6) False answer by (auto simp: res_iffs)
    have poll: "poll_answer_ok wake num revs ?s0" "answers_ok wake run call answers s2"
      using Cons.prems(4) False answer s2(1) by (simp_all add: Let_def)
    have pc: "el_pc (rc_el ?s0) = Polling" "\<not> el_doing (rc_el ?s0)" using Cons.prems(3) by (simp_all add: rc_loop_def)
    obtain as bs where round: "ok s2" "el_pc (rc_el s2) = Testing" "\<not> el_doing (rc_el s2)"
      "list_all is_own as" "list_all (\<lambda>a. a = Call \<or> is_own a) bs"
      "loop_run (Poll # as @ Drain # bs @ [Drained]) (rc_el ?s0) = Some (rc_el s2)"
      using round_refines [OF ok_loop [OF Cons.prems(1)] pc poll(1) s2(1)] by (elim conjE exE) (rule that)
    show ?thesis
    proof (cases "OtherQuit \<in> set others")
      case True
      then have "el_quit (rc_el ?s0)" by (simp add: rc_loop_def others_act_quit)
      moreover have "Enter \<notin> set (Poll # as @ Drain # bs @ [Drained])"
        using round(4,5) by (auto simp: list_all_iff dest!: bspec)
      ultimately have "el_quit (rc_el s2)" using quit_run [OF round(6)] by blast
      with s2(2) show ?thesis by (cases answers) auto
    next
      case False
      then have "\<exists>(others, num, revs) \<in> set answers. OtherQuit \<in> set others"
        using Cons.prems(5) answer by auto
      from Cons.IH [OF round(1-3) poll(2) this s2(2)] show ?thesis .
    qed
  qed
qed simp

end

section \<open>A channel destroyed while it waits for its turn\<close>

text \<open>What the owner of a channel does to get rid of it, with the object itself.\<close>

definition close_channel :: "nat \<Rightarrow> ('t, 'c, 'f, 'z) reactor_scheme \<Rightarrow> ('t, 'c, 'f, 'z) reactor_scheme res" where
  "close_channel e s =
     bindR (Channel_disableEvents (rc_pw s) e) (\<lambda>w1.
     bindR (Channel_remove w1 e) (\<lambda>w2.
     Inr (s\<lparr>rc_pw := w2\<lparr>pw_store := (pw_store w2)(e := None)\<rparr>\<rparr>)))"

lemma handleEvent_single:
  assumes "fired_callbacks ch = [f]" "self w = Some ch" "run f w = Inr w1" "self w1 = Some ch1" "ch_view ch1 = ch_view ch"
  shows "Channel_handleEvent run self w = Inr w1"
proof -
  have view: "revents_close ch1 = revents_close ch" "ch_closeCb ch1 = ch_closeCb ch"
    "revents_error ch1 = revents_error ch" "ch_errorCb ch1 = ch_errorCb ch"
    "revents_read ch1 = revents_read ch" "ch_readCb ch1 = ch_readCb ch"
    "revents_write ch1 = revents_write ch" "ch_writeCb ch1 = ch_writeCb ch"
    using assms(5) by (simp_all add: ch_view_def revents_close_def revents_error_def revents_read_def revents_write_def)
  let ?l = "\<lambda>guard cb. if guard then (case cb of None \<Rightarrow> [] | Some f \<Rightarrow> [f]) else []"
  have "?l (revents_close ch) (ch_closeCb ch) @ ?l (revents_error ch) (ch_errorCb ch) @
      ?l (revents_read ch) (ch_readCb ch) @ ?l (revents_write ch) (ch_writeCb ch) = [f]"
    using assms(1) by (simp add: fired_callbacks_def)
  then show ?thesis
    using assms(2-4) view
    by (auto simp: Channel_handleEvent_def Channel_fire_def split: if_splits option.splits)
qed

lemma dispatch_destroyed:
  assumes "Channel_handleEvent run (\<lambda>s. pw_store (rc_pw s) d) s = Inr s1" and "pw_store (rc_pw s1) e = None"
  shows "dispatch_active run (d # e # ds) s = Inl (Undefined ''handleEvent on a destroyed channel'')"
  using assms by (simp add: Channel_handleEvent_def Channel_fire_def)

lemma close_channel_ok:
  assumes rep: "poller_rep (rc_pw s) cs" "slots_live (rc_pw s)" and e: "e \<in> set cs"
  shows "\<exists>s1. close_channel e s = Inr s1 \<and> pw_store (rc_pw s1) e = None \<and>
    (\<forall>d ch. d \<noteq> e \<longrightarrow> pw_store (rc_pw s) d = Some ch \<longrightarrow>
       (\<exists>ch1. pw_store (rc_pw s1) d = Some ch1 \<and> ch_view ch1 = ch_view ch))"
proof -
  obtain eh where eh: "pw_store (rc_pw s) e = Some eh"
    using e poller_rep_slot [OF rep(1)] by (metis in_set_conv_nth)
  obtain w1 where w1: "bindR (Channel_setMask (\<lambda>_. kEmptyEvent) (rc_pw s) e) (\<lambda>w. Channel_remove w e) = Inr w1"
    and store: "\<forall>d. \<exists>i. pw_store w1 d = map_option (\<lambda>dh. dh\<lparr>ch_idxPoll := i\<rparr>)
      (((pw_store (rc_pw s))(e \<mapsto> eh\<lparr>ch_events := 0\<rparr>)) d)"
    using poller.close_law [OF rep e eh] by blast
  have "close_channel e s = Inr (s\<lparr>rc_pw := w1\<lparr>pw_store := (pw_store w1)(e := None)\<rparr>\<rparr>)"
    using w1 by (auto simp: close_channel_def Channel_disableEvents_def res_iffs)
  moreover have "\<exists>ch1. ((pw_store w1)(e := None)) d = Some ch1 \<and> ch_view ch1 = ch_view ch"
    if "d \<noteq> e" "pw_store (rc_pw s) d = Some ch" for d ch
    using store [THEN spec, of d] that by (auto simp: ch_view_def)
  ultimately show ?thesis by simp
qed

end
