(* ===== verification/Lotta_Loop_Programs.thy ===== *)
theory Lotta_Loop_Programs
  imports Lotta_Reactor
begin

text \<open>
  Programs of the library's users that live on one loop: the clients of \<^verbatim>\<open>EventLoop::loop\<close> as data,
  the interpretation of the loop's interface on them, and what holds of every such program.
\<close>

section \<open>Programs on a loop\<close>

text \<open>
  Closures as data: what the callbacks of timers and of channels and the queued functions do with
  the loop, in order; \<open>CmdLog\<close> is an observable effect. The loop's own two channels run
  \<^verbatim>\<open>handleWakeup\<close> and \<^verbatim>\<open>handleTimer\<close>.
\<close>

datatype loop_cmd =
    CmdPush "loop_cmd list"
  | CmdQuit
  | CmdRunAfter "loop_cmd list" rat
  | CmdRunEvery "loop_cmd list" rat
  | CmdCancel nat
  | CmdToggle nat toggle
  | CmdLog string

record prog = "(loop_cmd list, loop_handler + loop_cmd list, loop_cmd list) reactor" +
  pg_log :: "string list"

fun prog_cmd :: "(nat \<Rightarrow> int) \<Rightarrow> loop_cmd \<Rightarrow> prog \<Rightarrow> prog res" where
  "prog_cmd clk (CmdPush f) s = Inr (rc_loop (EventLoop_pushQueue f) s)"
| "prog_cmd clk CmdQuit s = Inr (rc_loop (EventLoop_quit True) s)"
| "prog_cmd clk (CmdRunAfter f d) s = bindR (EventLoop_runAfter clk True f d s) (\<lambda>(_, s1). Inr s1)"
| "prog_cmd clk (CmdRunEvery f d) s = bindR (EventLoop_runEvery clk True f d s) (\<lambda>(_, s1). Inr s1)"
| "prog_cmd clk (CmdCancel t) s = EventLoop_cancel True t s"
| "prog_cmd clk (CmdToggle c t) s = bindR (Channel_toggle t (rc_pw s) c) (\<lambda>w. Inr (s\<lparr>rc_pw := w\<rparr>))"
| "prog_cmd clk (CmdLog m) s = Inr (s\<lparr>pg_log := pg_log s @ [m]\<rparr>)"

fun prog_call :: "(nat \<Rightarrow> int) \<Rightarrow> loop_cmd list \<Rightarrow> prog \<Rightarrow> prog res" where
  "prog_call clk [] s = Inr s"
| "prog_call clk (c # cs) s = bindR (prog_cmd clk c s) (prog_call clk cs)"

fun prog_run :: "(nat \<Rightarrow> int) \<Rightarrow> loop_handler + loop_cmd list \<Rightarrow> prog \<Rightarrow> prog res" where
  "prog_run clk (Inl HandleWakeup) s = Inr (rc_loop EventLoop_handleWakeup s)"
| "prog_run clk (Inl HandleTimer) s = TimerQueue_handleTimer clk (prog_call clk) True s"
| "prog_run clk (Inr cmds) s = prog_call clk cmds s"

text \<open>A loop right after its construction, with the channels and the poller \<open>w\<close>.\<close>

definition prog_new :: "(loop_handler + loop_cmd list) pworld \<Rightarrow> prog" where
  "prog_new w = timer_queue.extend TimerQueue_new
     \<lparr>rc_pw = w, rc_active = [], rc_el = EventLoop_new, pg_log = []\<rparr>"

section \<open>Channel masks keep the poller's representation\<close>

text \<open>Every channel object can be registered: a real descriptor and a mask the toggles can make.\<close>

definition channels_ok :: "'c pworld \<Rightarrow> bool" where
  "channels_ok w \<longleftrightarrow> (\<forall>d ch. pw_store w d = Some ch \<longrightarrow> 0 \<le> ch_fd ch \<and> ch_events ch \<in> event_masks)"

lemma setMask_keeps_rep:
  assumes rep: "poller_rep w cs" and ok: "channels_ok w" and step: "Channel_setMask f w d = Inr w1"
    and f: "\<And>e. e \<in> event_masks \<Longrightarrow> f e \<in> event_masks"
  shows "(\<exists>cs1. poller_rep w1 cs1) \<and> channels_ok w1"
proof -
  obtain ch where ch: "pw_store w d = Some ch" using step by (auto simp: Channel_setMask_def res_iffs)
  obtain i where store: "pw_store w1 = (pw_store w)(d \<mapsto> ch\<lparr>ch_events := f (ch_events ch), ch_idxPoll := i\<rparr>)"
    using setMask_store [OF step ch] by blast
  have e: "0 \<le> ch_fd ch" "f (ch_events ch) \<in> event_masks" using ok ch f by (auto simp: channels_ok_def)
  have "channels_ok w1" using ok ch e store by (auto simp: channels_ok_def)
  moreover have "\<exists>cs1. poller_rep w1 cs1"
  proof (cases "d \<in> set cs")
    case True
    then obtain k where k: "k < length cs" "cs ! k = d" by (auto simp: in_set_conv_nth)
    show ?thesis
      using Channel_setMask_registered [OF rep k(1), of ch f] masked_world_rep [OF rep k(1), of ch, OF _ e(2)] k(2) ch step
      by auto
  next
    case False
    let ?w0 = "w\<lparr>pw_store := (pw_store w)(d \<mapsto> ch\<lparr>ch_events := f (ch_events ch)\<rparr>)\<rparr>"
    have rep0: "poller_rep ?w0 cs" using rep_store_other [OF rep False] .
    have update: "PollPoller_updateChannel ?w0 d = Inr w1"
      using step ch by (simp add: Channel_setMask_def Channel_update_def EventLoop_updateChannel_def
          EventLoop_assertTheSameThread_def res_iffs)
    have "pw_map w (ch_fd ch) \<noteq> Some d" using rep False by (auto simp: poller_rep_def)
    then have "ch_idxPoll ch < 0" "pw_map w (ch_fd ch) = None"
      using update by (auto simp: PollPoller_updateChannel_def EventLoop_assertTheSameThread_def res_iffs Let_def
          split: if_split_asm)
    then show ?thesis
      using PollPoller_updateChannel_fresh [OF rep0, of d "ch\<lparr>ch_events := f (ch_events ch)\<rparr>"] e update by auto
  qed
  ultimately show ?thesis by blast
qed

section \<open>The timer queue leaves the rest of the loop alone\<close>

lemma resetTimerFd_more [simp]: "timer_queue.more (resetTimerFd clk p q) = timer_queue.more q"
  by (simp add: resetTimerFd_def Let_def)

lemma pushTimerToMap_more: "pushTimerToMap t q = Inr (b, q1) \<Longrightarrow> timer_queue.more q1 = timer_queue.more q"
  by (auto simp: pushTimerToMap_def res_iffs Let_def)

lemma addTask_more: "TimerQueue_addTask clk l t q = Inr q1 \<Longrightarrow> timer_queue.more q1 = timer_queue.more q"
  by (auto simp: TimerQueue_addTask_def res_iffs Let_def dest!: pushTimerToMap_more split: prod.splits if_splits)

lemma cancelTask_more: "TimerQueue_cancelTask l t q = Inr q1 \<Longrightarrow> timer_queue.more q1 = timer_queue.more q"
  by (auto simp: TimerQueue_cancelTask_def res_iffs Let_def case_prod_unfold split: if_splits)

lemma addTimer_more: "TimerQueue_addTimer clk l cb w d q = Inr (t, q1) \<Longrightarrow> timer_queue.more q1 = timer_queue.more q"
  by (auto simp: TimerQueue_addTimer_def res_iffs Let_def dest!: addTask_more split: if_splits)

lemma run_later_more:
  "EventLoop_runAfter clk l cb d q = Inr (t, q1) \<Longrightarrow> timer_queue.more q1 = timer_queue.more q"
  "EventLoop_runEvery clk l cb d q = Inr (t, q1) \<Longrightarrow> timer_queue.more q1 = timer_queue.more q"
  by (auto simp: EventLoop_runAfter_def EventLoop_runEvery_def Let_def dest!: addTimer_more)

lemma cancel_more: "EventLoop_cancel l t q = Inr q1 \<Longrightarrow> timer_queue.more q1 = timer_queue.more q"
  by (auto simp: EventLoop_cancel_def TimerQueue_cancel_def res_iffs dest!: cancelTask_more split: if_splits)

lemma expireTimers_more: "expireTimers now q = Inr (es, q1) \<Longrightarrow> timer_queue.more q1 = timer_queue.more q"
  by (auto simp: expireTimers_def res_iffs Let_def)

lemma restart_expired_more: "restart_expired es q = Inr q1 \<Longrightarrow> timer_queue.more q1 = timer_queue.more q"
proof (induction es arbitrary: q)
  case (Cons e es)
  then show ?case
    by (fastforce simp: res_iffs Let_def case_prod_unfold dest: pushTimerToMap_more split: if_splits)
qed simp

lemma resetTimers_more:
  assumes "resetTimers clk now es q = Inr q1"
  shows "timer_queue.more q1 = timer_queue.more q"
proof -
  obtain q2 where "restart_expired es q = Inr q2"
    "q1 = (case tq_timers q2 of [] \<Rightarrow> q2 | e # _ \<Rightarrow> if now < fst e then resetTimerFd clk (fst e) q2 else q2)"
    using assms by (auto simp: resetTimers_def res_iffs)
  then show ?thesis using restart_expired_more by (cases "tq_timers q2") auto
qed

text \<open>Whatever its callbacks keep of the rest, \<^verbatim>\<open>handleTimer\<close> keeps.\<close>

lemma handleTimer_rel:
  assumes R: "\<And>q q1. timer_queue.more q1 = timer_queue.more q \<Longrightarrow> R q q1"
    and trans: "\<And>q q1 q2. R q q1 \<Longrightarrow> R q1 q2 \<Longrightarrow> R q q2"
    and run: "\<And>cb q q1. run cb q = Inr q1 \<Longrightarrow> R q q1"
    and step: "TimerQueue_handleTimer clk run inLoop q = Inr q1"
  shows "R q q1"
proof -
  have expired: "run_expired run es q = Inr q1 \<Longrightarrow> R q q1" for es q q1
  proof (induction es arbitrary: q)
    case Nil
    then show ?case by (simp add: R)
  next
    case (Cons e es)
    then show ?case using run trans by (fastforce simp: res_iffs)
  qed
  let ?q1 = "q\<lparr>tq_reads := Suc (tq_reads q), tq_fdlog := tq_fdlog q @ [ReadFd]\<rparr>"
  obtain es q2 q3 q4 where q2: "expireTimers (clk (tq_reads q)) ?q1 = Inr (es, q2)"
    and q3: "run_expired run es (q2\<lparr>tq_expired := es, tq_doing := True, tq_cancelled := []\<rparr>) = Inr q3"
    and q4: "resetTimers clk (clk (tq_reads q)) es (q3\<lparr>tq_doing := False\<rparr>) = Inr q4"
    and q1: "q1 = q4\<lparr>tq_expired := []\<rparr>"
    using step by (auto simp: TimerQueue_handleTimer_def Let_def res_iffs)
  have "R q (q2\<lparr>tq_expired := es, tq_doing := True, tq_cancelled := []\<rparr>)"
    by (rule R) (use expireTimers_more [OF q2] in simp)
  moreover have "R q3 q1" by (rule R) (use resetTimers_more [OF q4] q1 in simp)
  ultimately show ?thesis using expired [OF q3] trans by blast
qed

section \<open>Programs are clients of the loop\<close>

text \<open>What one command may do: an own action on the loop, operations of the poller on live objects.\<close>

definition prog_rel :: "prog \<Rightarrow> prog \<Rightarrow> bool" where
  "prog_rel s s1 \<longleftrightarrow>
     (el_pc (rc_el s) \<in> {Handling, Running} \<longrightarrow> own_effect (rc_el s) (rc_el s1)) \<and>
     (\<forall>d. pw_store (rc_pw s) d \<noteq> None \<longrightarrow> pw_store (rc_pw s1) d \<noteq> None \<and>
        ch_view (the (pw_store (rc_pw s1) d)) = ch_view (the (pw_store (rc_pw s) d)))"

definition prog_ok :: "prog \<Rightarrow> bool" where
  "prog_ok s \<longleftrightarrow> (\<exists>cs. poller_rep (rc_pw s) cs) \<and> channels_ok (rc_pw s)"

lemma prog_rel_trans:
  assumes "prog_rel s s1" "prog_rel s1 s2"
  shows "prog_rel s s2"
proof -
  have "own_effect (rc_el s) (rc_el s2)" if pc: "el_pc (rc_el s) \<in> {Handling, Running}"
  proof -
    have first: "own_effect (rc_el s) (rc_el s1)" using assms(1) pc by (auto simp: prog_rel_def)
    then have "el_pc (rc_el s1) \<in> {Handling, Running}" using own_effect_frame(1) [OF first] pc by simp
    then have "own_effect (rc_el s1) (rc_el s2)" using assms(2) by (auto simp: prog_rel_def)
    with first show ?thesis by (rule own_effect_trans)
  qed
  moreover have "pw_store (rc_pw s2) d \<noteq> None \<and>
      ch_view (the (pw_store (rc_pw s2) d)) = ch_view (the (pw_store (rc_pw s) d))"
    if "pw_store (rc_pw s) d \<noteq> None" for d
    using assms that unfolding prog_rel_def by metis
  ultimately show ?thesis unfolding prog_rel_def by blast
qed

lemma same_more:
  fixes s s1 :: prog
  assumes "timer_queue.more s1 = timer_queue.more s"
  shows "rc_el s1 = rc_el s" "rc_pw s1 = rc_pw s" "rc_active s1 = rc_active s" "pg_log s1 = pg_log s"
  using assms by (cases s; cases s1; simp)+

lemma prog_rel_more:
  assumes "timer_queue.more s1 = timer_queue.more s"
  shows "prog_rel s s1"
  using same_more [OF assms] by (simp add: prog_rel_def)

lemma setMask_view:
  assumes "Channel_setMask f w d = Inr w1" "pw_store w e \<noteq> None"
  shows "pw_store w1 e \<noteq> None \<and> ch_view (the (pw_store w1 e)) = ch_view (the (pw_store w e))"
proof -
  obtain ch where ch: "pw_store w d = Some ch" using assms(1) by (auto simp: Channel_setMask_def res_iffs)
  show ?thesis using setMask_store [OF assms(1) ch] assms(2) ch by (auto simp: ch_view_def)
qed

text \<open>A command is an own action on the loop, a change of masks, or leaves the loop alone.\<close>

lemma prog_cmd_cases:
  assumes "prog_cmd clk c s = Inr s1"
  obtains (own) a where "is_own a" "el_pc (rc_el s) \<in> {Handling, Running} \<longrightarrow> loop_step a (rc_el s) = Some (rc_el s1)"
      "rc_pw s1 = rc_pw s"
  | (mask) d t w where "Channel_setMask (toggle_mask t) (rc_pw s) d = Inr w" "rc_pw s1 = w" "rc_el s1 = rc_el s"
  | (none) "rc_pw s1 = rc_pw s" "rc_el s1 = rc_el s"
proof (cases c)
  case (CmdPush f)
  then show thesis using assms own [of "OwnPush f"] by (auto simp: rc_loop_def)
next
  case CmdQuit
  then show thesis using assms own [of OwnQuit] by (auto simp: rc_loop_def)
next
  case (CmdRunAfter f d)
  with assms obtain t where "EventLoop_runAfter clk True f d s = Inr (t, s1)" by (auto simp: res_iffs)
  from same_more [OF run_later_more(1) [OF this]] none show thesis by blast
next
  case (CmdRunEvery f d)
  with assms obtain t where "EventLoop_runEvery clk True f d s = Inr (t, s1)" by (auto simp: res_iffs)
  from same_more [OF run_later_more(2) [OF this]] none show thesis by blast
next
  case (CmdCancel t)
  with assms have "EventLoop_cancel True t s = Inr s1" by simp
  from same_more [OF cancel_more [OF this]] none show thesis by blast
next
  case (CmdToggle d t)
  with assms obtain w where "Channel_setMask (toggle_mask t) (rc_pw s) d = Inr w" "s1 = s\<lparr>rc_pw := w\<rparr>"
    by (auto simp: res_iffs Channel_toggle_setMask)
  then show thesis using mask by simp
next
  case (CmdLog m)
  then show thesis using assms none by auto
qed

lemma prog_cmd_rel:
  assumes "prog_cmd clk c s = Inr s1"
  shows "prog_rel s s1"
  using assms
proof (cases rule: prog_cmd_cases)
  case (own a)
  then show ?thesis using own_effect_step [of a "rc_el s" "rc_el s1"] by (simp add: prog_rel_def)
next
  case (mask d t w)
  then show ?thesis by (simp add: prog_rel_def setMask_view)
qed (simp add: prog_rel_def)

lemma prog_cmd_ok:
  assumes "prog_ok s" "prog_cmd clk c s = Inr s1"
  shows "prog_ok s1"
  using assms(2)
proof (cases rule: prog_cmd_cases)
  case (mask d t w)
  then show ?thesis
    using assms(1) setMask_keeps_rep [of "rc_pw s" _ "toggle_mask t" d w] toggle_mask_closed
    by (auto simp: prog_ok_def)
qed (use assms(1) in \<open>simp_all add: prog_ok_def\<close>)

lemma prog_call_rel: "prog_call clk cs s = Inr s1 \<Longrightarrow> prog_rel s s1"
proof (induction cs arbitrary: s)
  case Nil
  then show ?case by (simp add: prog_rel_more)
next
  case (Cons c cs)
  then obtain s2 where "prog_cmd clk c s = Inr s2" "prog_call clk cs s2 = Inr s1" by (auto simp: res_iffs)
  then show ?case using Cons.IH prog_cmd_rel prog_rel_trans by blast
qed

lemma prog_call_ok: "prog_ok s \<Longrightarrow> prog_call clk cs s = Inr s1 \<Longrightarrow> prog_ok s1"
proof (induction cs arbitrary: s)
  case (Cons c cs)
  then obtain s2 where "prog_cmd clk c s = Inr s2" "prog_call clk cs s2 = Inr s1" by (auto simp: res_iffs)
  then show ?case using Cons prog_cmd_ok by blast
qed simp

lemma prog_run_rel:
  assumes "cb \<noteq> Inl HandleWakeup" "prog_run clk cb s = Inr s1"
  shows "prog_rel s s1"
proof (cases cb)
  case (Inl h)
  with assms have "TimerQueue_handleTimer clk (prog_call clk) True s = Inr s1" by (cases h) auto
  from prog_rel_more prog_rel_trans prog_call_rel this show ?thesis by (rule handleTimer_rel [of prog_rel])
next
  case (Inr cmds)
  with assms(2) show ?thesis using prog_call_rel by simp
qed

lemma prog_run_ok:
  assumes ok: "prog_ok s" and run: "prog_run clk cb s = Inr s1"
  shows "prog_ok s1"
proof (cases cb)
  case (Inl h)
  show ?thesis
  proof (cases h)
    case HandleWakeup
    with Inl ok run show ?thesis by (auto simp: prog_ok_def rc_loop_def)
  next
    case HandleTimer
    with Inl run have step: "TimerQueue_handleTimer clk (prog_call clk) True s = Inr s1" by simp
    have more: "prog_ok s \<longrightarrow> prog_ok s1" if "timer_queue.more s1 = timer_queue.more s" for s s1 :: prog
      using same_more [OF that] by (simp add: prog_ok_def)
    have "prog_ok s \<longrightarrow> prog_ok s1"
      by (rule handleTimer_rel [of "\<lambda>s s1. prog_ok s \<longrightarrow> prog_ok s1", OF more _ _ step]) (auto dest: prog_call_ok)
    with ok show ?thesis by blast
  qed
next
  case (Inr cmds)
  with ok run show ?thesis using prog_call_ok by simp
qed

lemma prog_ok_poll:
  assumes "prog_ok s" "poller_rep w cs" "pw_store w = reported_store (pw_store (rc_pw s)) cs revs"
  shows "prog_ok (s\<lparr>rc_pw := w, rc_active := act\<rparr>)"
proof -
  have "0 \<le> ch_fd ch \<and> ch_events ch \<in> event_masks" if ch: "pw_store w d = Some ch" for d ch
  proof -
    obtain f where f: "\<forall>ch. ch_fd (f ch) = ch_fd ch \<and> ch_events (f ch) = ch_events ch"
      "pw_store w d = map_option f (pw_store (rc_pw s) d)"
      using reported_store_map [of "pw_store (rc_pw s)" cs revs d] assms(3) by auto
    obtain ch0 where ch0: "pw_store (rc_pw s) d = Some ch0" "ch = f ch0"
      using f(2) ch by (cases "pw_store (rc_pw s) d") auto
    have "0 \<le> ch_fd ch0 \<and> ch_events ch0 \<in> event_masks"
      using assms(1) ch0(1) unfolding prog_ok_def channels_ok_def by blast
    then show ?thesis using f(1) ch0(2) by simp
  qed
  then show ?thesis using assms(2) by (auto simp: prog_ok_def channels_ok_def)
qed

lemma prog_keeps_view: "keeps_view (prog_run clk) (\<lambda>s. pw_store (rc_pw s) d)"
  unfolding keeps_view_def
proof (intro allI impI)
  fix cb s s1
  assume run: "prog_run clk cb s = Inr s1" and alive: "pw_store (rc_pw s) d \<noteq> None"
  show "pw_store (rc_pw s1) d \<noteq> None \<and> ch_view (the (pw_store (rc_pw s1) d)) = ch_view (the (pw_store (rc_pw s) d))"
  proof (cases "cb = Inl HandleWakeup")
    case True
    with run alive show ?thesis by (auto simp: rc_loop_def)
  next
    case False
    from prog_run_rel [OF this run] alive show ?thesis by (simp add: prog_rel_def)
  qed
qed

interpretation programs: loop_clients "prog_run clk" "prog_call clk" "Inl HandleWakeup" prog_ok for clk
proof
  fix cb s s1
  assume "cb \<noteq> Inl HandleWakeup" "el_pc (rc_el s) = Handling" "prog_run clk cb s = Inr s1"
  then show "own_effect (rc_el s) (rc_el s1)" using prog_run_rel by (auto simp: prog_rel_def)
next
  fix f s s1
  assume "el_pc (rc_el s) = Running" "prog_call clk f s = Inr s1"
  then show "own_effect (rc_el s) (rc_el s1)" using prog_call_rel by (auto simp: prog_rel_def)
next
  fix s :: prog and cs w revs act
  assume "prog_ok s" "poller_rep (rc_pw s) cs" "poller_rep w cs"
    "pw_store w = reported_store (pw_store (rc_pw s)) cs revs"
  then show "prog_ok (s\<lparr>rc_pw := w, rc_active := act\<rparr>)" using prog_ok_poll by blast
next
  fix s :: prog
  show "prog_run clk (Inl HandleWakeup) s = Inr (rc_loop EventLoop_handleWakeup s)" by simp
  show "prog_ok s \<Longrightarrow> \<exists>cs. poller_rep (rc_pw s) cs" by (simp add: prog_ok_def)
  show "prog_ok s \<Longrightarrow> prog_ok (rc_loop g s)" for g by (simp add: prog_ok_def rc_loop_def)
qed (rule prog_run_ok prog_call_ok prog_keeps_view; assumption?)+

section \<open>A loop to try things on\<close>

text \<open>A loop with its two channels, and a poll during which another thread queues a function and quits.\<close>

definition sample_channel :: "int \<Rightarrow> int \<Rightarrow> 'c \<Rightarrow> 'c channel" where
  "sample_channel fd i cb = \<lparr>ch_fd = fd, ch_events = kReadPollEvent, ch_revents = 0, ch_idxPoll = i,
     ch_readCb = Some cb, ch_writeCb = None, ch_closeCb = None, ch_errorCb = None\<rparr>"

definition sample_prog :: prog where
  "sample_prog = prog_new
     \<lparr>pw_store = [0 \<mapsto> sample_channel 4 1 (Inl HandleWakeup), 1 \<mapsto> sample_channel 3 0 (Inl HandleTimer)],
      pw_map = [3 \<mapsto> 1, 4 \<mapsto> 0],
      pw_fds = [\<lparr>pf_fd = 3, pf_events = ucast kReadPollEvent, pf_revents = 0\<rparr>,
        \<lparr>pf_fd = 4, pf_events = ucast kReadPollEvent, pf_revents = 0\<rparr>], pw_sameThread = True\<rparr>"

lemma sample_prog_fields [simp]:
  "rc_el sample_prog = EventLoop_new" "pg_log sample_prog = []"
  "rc_pw sample_prog = \<lparr>pw_store = [0 \<mapsto> sample_channel 4 1 (Inl HandleWakeup), 1 \<mapsto> sample_channel 3 0 (Inl HandleTimer)],
      pw_map = [3 \<mapsto> 1, 4 \<mapsto> 0],
      pw_fds = [\<lparr>pf_fd = 3, pf_events = ucast kReadPollEvent, pf_revents = 0\<rparr>,
        \<lparr>pf_fd = 4, pf_events = ucast kReadPollEvent, pf_revents = 0\<rparr>], pw_sameThread = True\<rparr>"
  by (simp_all add: sample_prog_def prog_new_def TimerQueue_new_def timer_queue.defs)

lemma sample_rep: "poller_rep (rc_pw sample_prog) [1, 0]"
  by (simp add: poller_rep_def slot_ok_def less_Suc_eq nth_Cons' sample_channel_def event_masks_def)

lemma sample_ok: "prog_ok sample_prog"
  using sample_rep by (auto simp: prog_ok_def channels_ok_def sample_channel_def event_masks_def)

definition sample_answers :: "loop_cmd list poll_answer list" where
  "sample_answers = [([OtherPush [CmdLog ''hi''], OtherWakeup, OtherQuit], 1, [0, 1])]"

lemmas loop_code = EventLoop_loop_def EventLoop_assertTheSameThread_def EventLoop_round_def PollPoller_poll_def
  EventLoop_doFuncQueue_def Channel_handleEvent_def Channel_fire_def revents_close_def revents_error_def
  revents_read_def revents_write_def rc_loop_def

lemma sample_run:
  "\<exists>s1. EventLoop_loop (prog_run int) (prog_call int) sample_answers sample_prog = Inr (True, s1) \<and> pg_log s1 = [''hi'']"
  by (simp add: loop_code sample_answers_def sample_channel_def EventLoop_new_def loop_ops event_defs)

lemma case_sum_True [simp]: "(case x of Inl a \<Rightarrow> True | Inr b \<Rightarrow> True) = True"
  by (cases x) auto

lemma sample_ready: "ready_callbacks (rc_pw sample_prog) [0, 1] = [Inl HandleWakeup]"
  by (simp add: ready_callbacks_def fired_callbacks_def 
      revents_close_def revents_error_def revents_read_def revents_write_def sample_channel_def event_defs)
lemma sample_answers_ok:
  "answers_ok (Inl HandleWakeup) (prog_run clk) (prog_call clk) sample_answers
     (rc_loop (\<lambda>e. e\<lparr>el_looping := True, el_quit := False, el_pc := Testing\<rparr>) sample_prog)"
  using sample_ready
  by (auto simp: sample_answers_def poll_answer_ok_def rc_loop_def EventLoop_new_def loop_ops Let_def split: sum.split)

section \<open>Properties\<close>

text \<open>\<^verbatim>\<open>loop()\<close> as the concurrent object does it.\<close>

lemma program_loop_refines:
  assumes ok: "prog_ok s" and pc: "el_pc (rc_el s) = Outside" and idle: "\<not> el_doing (rc_el s)"
    and answers: "answers_ok (Inl HandleWakeup) (prog_run clk) (prog_call clk) answers
       (rc_loop (\<lambda>e. e\<lparr>el_looping := True, el_quit := False, el_pc := Testing\<rparr>) s)"
    and run: "EventLoop_loop (prog_run clk) (prog_call clk) answers s = Inr (done, s1)"
  shows "prog_ok s1 \<and> (\<exists>as. Enter \<notin> set as \<and> loop_run (Enter # as) (rc_el s) = Some (rc_el s1)) \<and>
     el_pc (rc_el s1) = (if done then Outside else Polling) \<and> (done \<longleftrightarrow> el_quit (rc_el s1))"
proof -
  let ?s = "rc_loop (\<lambda>e. e\<lparr>el_looping := True, el_quit := False, el_pc := Testing\<rparr>) s"
  have enter: "loop_step Enter (rc_el s) = Some (rc_el ?s)" using pc by (simp add: rc_loop_def)
  have start: "prog_ok ?s" "el_pc (rc_el ?s) = Testing" "\<not> el_doing (rc_el ?s)"
    using ok idle by (simp_all add: rc_loop_def prog_ok_def)
  have "loop_while (prog_run clk) (prog_call clk) answers ?s = Inr (done, s1)"
    using run by (simp add: EventLoop_loop_def EventLoop_assertTheSameThread_def assertR_Inr_iff)
  from programs.loop_while_refines [OF start answers this] obtain as where
    "prog_ok s1" "Enter \<notin> set as" "loop_run as (rc_el ?s) = Some (rc_el s1)"
    "el_pc (rc_el s1) = (if done then Outside else Polling)" "done \<longleftrightarrow> el_quit (rc_el s1)"
    by (elim conjE exE) (rule that)
  then show ?thesis unfolding loop_run.simps(2) enter by auto
qed

text \<open>C4. The detailed loop, with its poller, its channels, its timers and its queue, is the concurrent
  object: whatever a program's callbacks and functions do, a run of \<^verbatim>\<open>loop()\<close> is a run of atomic
  actions of the object, and so every function any thread has queued has run at most once and in
  order, with none forgotten; and the poller is left in order.\<close>

theorem loop_refines_object:
  assumes ok: "prog_ok s" and reach: "loop_reach False (rc_el s)" and pc: "el_pc (rc_el s) = Outside"
    and answers: "answers_ok (Inl HandleWakeup) (prog_run clk) (prog_call clk) answers
       (rc_loop (\<lambda>e. e\<lparr>el_looping := True, el_quit := False, el_pc := Testing\<rparr>) s)"
    and run: "EventLoop_loop (prog_run clk) (prog_call clk) answers s = Inr (done, s1)"
  shows "(\<exists>as. loop_run as (rc_el s) = Some (rc_el s1)) \<and> loop_reach False (rc_el s1) \<and>
     el_ran (rc_el s1) @ el_queue (rc_el s1) = el_pushed (rc_el s1) \<and>
     el_pc (rc_el s1) = (if done then Outside else Polling) \<and> (\<exists>cs. poller_rep (rc_pw s1) cs)"
proof -
  have "\<not> el_doing (rc_el s)" using loop_inv_reach [OF reach] pc by (auto simp: loop_inv_def)
  from program_loop_refines [OF ok pc this answers run] obtain as where
    s1: "prog_ok s1" "loop_run (Enter # as) (rc_el s) = Some (rc_el s1)"
    "el_pc (rc_el s1) = (if done then Outside else Polling)" by blast
  have reach1: "loop_reach False (rc_el s1)" using reach_run [OF reach s1(2)] .
  have "el_functions (rc_el s1) = []"
    using loop_inv_reach [OF reach1] s1(3) by (cases "done") (auto simp: loop_inv_def)
  then have "el_ran (rc_el s1) @ el_queue (rc_el s1) = el_pushed (rc_el s1)"
    using loop_inv_reach [OF reach1] by (simp add: loop_inv_def)
  moreover have "\<exists>cs. poller_rep (rc_pw s1) cs" using s1(1) by (simp add: prog_ok_def)
  ultimately show ?thesis using s1(2,3) reach1 by blast
qed

lemma loop_refines_object_witness:
  "\<exists>s1. EventLoop_loop (prog_run int) (prog_call int) sample_answers sample_prog = Inr (True, s1) \<and>
     pg_log s1 = [''hi''] \<and> el_ran (rc_el s1) @ el_queue (rc_el s1) = el_pushed (rc_el s1)"
proof -
  obtain s1 where s1: "EventLoop_loop (prog_run int) (prog_call int) sample_answers sample_prog = Inr (True, s1)"
    "pg_log s1 = [''hi'']" using sample_run by blast
  have "loop_reach False (rc_el sample_prog)" by (simp add: loop_reach.new)
  from loop_refines_object [OF sample_ok this _ sample_answers_ok s1(1)] s1 show ?thesis
    by (simp add: EventLoop_new_def)
qed

text \<open>C16. Telling a loop to quit wakes it and ends it: when the loop sleeps in \<^verbatim>\<open>poll\<close> and other threads
  act, one of them calling \<^verbatim>\<open>quit\<close>, then as soon as no thread still owes its write to the eventfd,
  \<^verbatim>\<open>poll\<close> can no longer time out, it has the wakeup channel to report; and with whatever it
  reports, and whatever the program's callbacks and functions then do, \<^verbatim>\<open>loop()\<close> returns after
  that round, unless the round stops at a fault.\<close>

theorem loop_returns_on_quit:
  assumes ok: "prog_ok s" and pc: "el_pc (rc_el s) = Outside" and idle: "\<not> el_doing (rc_el s)"
    and answers: "answers_ok (Inl HandleWakeup) (prog_run clk) (prog_call clk) answers
       (rc_loop (\<lambda>e. e\<lparr>el_looping := True, el_quit := False, el_pc := Testing\<rparr>) s)"
    and asleep: "EventLoop_loop (prog_run clk) (prog_call clk) answers s = Inr (False, s1)"
    and quit: "OtherQuit \<in> set others" and written: "el_pending (others_act others (rc_el s1)) = 0"
    and poll: "poll_answer_ok (Inl HandleWakeup) num revs (rc_loop (others_act others) s1)"
  shows "0 < num \<and> Inl HandleWakeup \<in> set (ready_callbacks (rc_pw s1) revs) \<and>
     (case EventLoop_loop (prog_run clk) (prog_call clk) (answers @ [(others, num, revs)]) s of
        Inl _ \<Rightarrow> True
      | Inr (done, s2) \<Rightarrow> done \<and> el_pc (rc_el s2) = Outside)"
proof -
  let ?s = "rc_loop (\<lambda>e. e\<lparr>el_looping := True, el_quit := False, el_pc := Testing\<rparr>) s"
  let ?answers = "answers @ [(others, num, revs)]"
  have start: "prog_ok ?s" "el_pc (rc_el ?s) = Testing" "\<not> el_doing (rc_el ?s)"
    using ok idle by (simp_all add: rc_loop_def prog_ok_def)
  have unfold: "EventLoop_loop (prog_run clk) (prog_call clk) as s = Inr x \<Longrightarrow>
      loop_while (prog_run clk) (prog_call clk) as ?s = Inr x" for as x
    by (simp add: EventLoop_loop_def EventLoop_assertTheSameThread_def assertR_Inr_iff)
  have "0 < el_counter (others_act others (rc_el s1))"
    using others_act_wakes [of "rc_el s1" others] quit written by simp
  then have wake: "0 < num" "Inl HandleWakeup \<in> set (ready_callbacks (rc_pw s1) revs)"
    using wake_reported [OF poll] by (simp_all add: rc_loop_def)
  have all: "answers_ok (Inl HandleWakeup) (prog_run clk) (prog_call clk) ?answers ?s"
    using answers_ok_asleep [OF unfold [OF asleep] answers poll] .
  have quits: "\<exists>(others, num, revs) \<in> set ?answers. OtherQuit \<in> set others" using quit by auto
  have "done \<and> el_pc (rc_el s2) = Outside"
    if run: "EventLoop_loop (prog_run clk) (prog_call clk) ?answers s = Inr (done, s2)" for "done" s2
    using programs.loop_while_quits [OF start all quits unfold [OF run]]
      program_loop_refines [OF ok pc idle all run] by simp
  then show ?thesis using wake by (auto split: sum.split)
qed

text \<open>The sleeping loop is told to quit, and the eventfd is written to.\<close>

lemma loop_returns_on_quit_witness:
  "\<exists>s1 s2. EventLoop_loop (prog_run int) (prog_call int) [] sample_prog = Inr (False, s1) \<and>
     el_pc (rc_el s1) = Polling \<and> Inl HandleWakeup \<in> set (ready_callbacks (rc_pw s1) [0, 1]) \<and>
     EventLoop_loop (prog_run int) (prog_call int) [([OtherQuit, OtherWakeup], 1, [0, 1])] sample_prog = Inr (True, s2) \<and>
     el_pc (rc_el s2) = Outside"
proof -
  let ?others = "[OtherQuit, OtherWakeup] :: loop_cmd list loop_action list"
  obtain s1 where s1: "EventLoop_loop (prog_run int) (prog_call int) [] sample_prog = Inr (False, s1)"
    "el_pc (rc_el s1) = Polling" "rc_pw s1 = rc_pw sample_prog"
    "el_pending (others_act ?others (rc_el s1)) = 0" "0 < el_counter (others_act ?others (rc_el s1))"
    by (simp add: EventLoop_loop_def EventLoop_assertTheSameThread_def rc_loop_def EventLoop_new_def loop_ops)
  obtain x where x: "EventLoop_loop (prog_run int) (prog_call int) [(?others, 1, [0, 1])] sample_prog = Inr x"
    by (simp add: loop_code sample_channel_def EventLoop_new_def loop_ops event_defs)
  have poll: "poll_answer_ok (Inl HandleWakeup) 1 [0, 1] (rc_loop (others_act ?others) s1)"
    using s1(3,5) sample_ready by (simp add: poll_answer_ok_def rc_loop_def)
  have start: "el_pc (rc_el sample_prog) = Outside" "\<not> el_doing (rc_el sample_prog)"
    by (simp_all add: EventLoop_new_def)
  have none: "answers_ok (Inl HandleWakeup) (prog_run int) (prog_call int) []
      (rc_loop (\<lambda>e. e\<lparr>el_looping := True, el_quit := False, el_pc := Testing\<rparr>) sample_prog)" by simp
  show ?thesis
    using loop_returns_on_quit [OF sample_ok start none s1(1) _ s1(4) poll] s1(1,2) x
    by (cases x) auto
qed

text \<open>C21. A round of the loop: \<^verbatim>\<open>poll\<close> passes its asserts, and then exactly the callbacks that the reports
  select are run, channel by channel in the order of the poller's slots and within a channel in
  the order of \<^verbatim>\<open>handleEvent\<close>, whatever they do to each other's interest masks, followed by the
  function queue; the round stops at the first fault.\<close>

theorem round_fires_ready:
  assumes "prog_ok s" and "poll_answer_ok (Inl HandleWakeup) num revs s"
  shows "\<exists>w act. PollPoller_poll (rc_pw s) num revs [] = Inr (w, act) \<and>
    EventLoop_round (prog_run clk) (prog_call clk) num revs s =
      bindR (run_all (prog_run clk) (ready_callbacks (rc_pw s) revs)
               (s\<lparr>rc_pw := w, rc_active := act, rc_el := (rc_el s)\<lparr>el_pc := Handling\<rparr>\<rparr>))
        (EventLoop_doFuncQueue (prog_call clk))"
  using programs.round_runs [OF assms, of clk] by (auto simp: rc_loop_def)

lemma round_fires_ready_witness:
  "\<exists>w act. PollPoller_poll (rc_pw sample_prog) 1 [1, 0] [] = Inr (w, act) \<and>
     EventLoop_round (prog_run int) (prog_call int) 1 [1, 0] sample_prog =
       bindR (prog_run int (Inl HandleTimer) (sample_prog\<lparr>rc_pw := w, rc_active := act, rc_el := EventLoop_new\<lparr>el_pc := Handling\<rparr>\<rparr>))
         (EventLoop_doFuncQueue (prog_call int))"
proof -
  have ready: "ready_callbacks (rc_pw sample_prog) [1, 0] = [Inl HandleTimer]"
    by (simp add: ready_callbacks_def fired_callbacks_def revents_close_def revents_error_def revents_read_def
        revents_write_def sample_channel_def event_defs)
  then have answer: "poll_answer_ok (Inl HandleWakeup) 1 [1, 0] sample_prog"
    by (simp add: poll_answer_ok_def EventLoop_new_def)
  have single: "run_all run [f] s = run f s" for run f and s :: prog by (cases "run f s") simp_all
  show ?thesis using round_fires_ready [OF sample_ok answer, of int] unfolding ready single by simp
qed

text \<open>C27. The list of active channels holds raw pointers: when two channels are ready in one poll and
  the callback of the first closes the other and destroys it (an idle timeout for a connection that
  has just become readable), the loop goes on to call \<^verbatim>\<open>handleEvent\<close> on freed memory.\<close>

theorem stale_active_channel:
  assumes rep: "poller_rep (rc_pw s) cs" "slots_live (rc_pw s)" and answer: "poll_answer_ok wake num revs s"
    and ready: "map snd (filter (\<lambda>(r, c). r \<noteq> 0) (zip revs cs)) = d # e # ds"
    and ch: "pw_store (rc_pw s) d = Some ch" "(r, d) \<in> set (zip revs cs)"
    and f: "fired_callbacks (ch\<lparr>ch_revents := scast r\<rparr>) = [f]" "\<forall>s. run f s = close_channel e s"
  shows "EventLoop_round run call num revs s = Inl (Undefined ''handleEvent on a destroyed channel'')"
proof -
  have lens: "length cs = length (pw_fds (rc_pw s))" using rep(1) by (simp add: poller_rep_def)
  have len: "length revs = length (pw_fds (rc_pw s))" "length revs = length cs"
    and neg': "list_all2 (\<lambda>p r. pf_fd p < 0 \<longrightarrow> r = 0) (pw_fds (rc_pw s)) revs"
    and num: "num = int (length (filter (\<lambda>r. r \<noteq> 0) revs))"
    using answer lens by (simp_all add: poll_answer_ok_def)
  have neg: "\<forall>i < length revs. pf_fd (pw_fds (rc_pw s) ! i) < 0 \<longrightarrow> revs ! i = 0"
    using neg' len(1) by (simp add: list_all2_conv_all_nth)
  obtain w where w: "PollPoller_poll (rc_pw s) num revs [] = Inr (w, d # e # ds)" "pw_map w = pw_map (rc_pw s)"
    "pw_store w = reported_store (pw_store (rc_pw s)) cs revs"
    "pw_fds w = map2 (\<lambda>p r. p\<lparr>pf_revents := r\<rparr>) (pw_fds (rc_pw s)) revs" "pw_sameThread w = pw_sameThread (rc_pw s)"
    using poll_reports_ready [OF rep(1) len(1) neg num, of "[]"] ready by auto
  have rep1: "poller_rep w cs" using poll_keeps_rep [OF rep(1) len(1) w(2-5)] .
  have live1: "slots_live w"
    using rep(2) w(4) len(1) by (auto simp: slots_live_nth)
  have distinct: "distinct cs" using poller_rep_distinct [OF rep(1)] .
  have members: "set (d # e # ds) \<subseteq> set cs" unfolding ready [symmetric] by (auto dest: set_zip_rightD)
  have "distinct (map snd (zip revs cs))" using distinct len(2) by simp
  then have "distinct (d # e # ds)" unfolding ready [symmetric] by (rule distinct_map_filter)
  then have de: "d \<noteq> e" by simp
  obtain i where i: "i < length cs" "revs ! i = r" "cs ! i = d" using ch(2) by (auto simp: in_set_zip)
  have "d \<in> snd ` set (filter (\<lambda>(r, c). r \<noteq> 0) (zip revs cs))" using ready by (metis list.set_intros(1) list.set_map)
  then obtain r' where "(r', d) \<in> set (zip revs cs)" "r' \<noteq> 0" by auto
  then obtain j where "j < length cs" "revs ! j \<noteq> 0" "cs ! j = d" by (auto simp: in_set_zip)
  then have "r \<noteq> 0" using i distinct by (auto simp: nth_eq_iff_index_eq)
  then have dw: "pw_store w d = Some (ch\<lparr>ch_revents := scast r\<rparr>)"
    using reported_store_at [OF rep(1) len(2) i(1), of "pw_store (rc_pw s)"] w(3) i ch(1) by simp
  let ?s = "rc_loop (\<lambda>e. e\<lparr>el_pc := Handling\<rparr>) (s\<lparr>rc_pw := w, rc_active := d # e # ds\<rparr>)"
  obtain s1 where s1: "close_channel e ?s = Inr s1" "pw_store (rc_pw s1) e = None"
    "\<exists>ch1. pw_store (rc_pw s1) d = Some ch1 \<and> ch_view ch1 = ch_view (ch\<lparr>ch_revents := scast r\<rparr>)"
    using close_channel_ok [of ?s cs e] rep1 live1 members de dw by (auto simp: rc_loop_def)
  have "Channel_handleEvent run (\<lambda>s. pw_store (rc_pw s) d) ?s = Inr s1"
    using handleEvent_single [OF f(1), of "\<lambda>s. pw_store (rc_pw s) d" ?s run s1] s1 f(2) dw by (auto simp: rc_loop_def)
  from dispatch_destroyed [OF this s1(2)] w(1) show ?thesis by (simp add: EventLoop_round_def)
qed

lemma stale_active_channel_witness:
  "EventLoop_round (\<lambda>_. close_channel 0) (prog_call int) 2 [1, 1] sample_prog =
     Inl (Undefined ''handleEvent on a destroyed channel'')"
proof -
  have live: "slots_live (rc_pw sample_prog)" by (simp add: slots_live_def)
  have answer: "poll_answer_ok (Inr []) 2 [1, 1] sample_prog"
    by (simp add: poll_answer_ok_def ready_callbacks_def fired_callbacks_def revents_close_def revents_error_def
        revents_read_def revents_write_def sample_channel_def EventLoop_new_def event_defs)
  show ?thesis
    by (rule stale_active_channel [OF sample_rep live answer, of 1 0 "[]" "sample_channel 3 0 (Inl HandleTimer)" 1 "Inl HandleTimer"])
      (simp_all add: sample_channel_def fired_callbacks_def revents_close_def revents_error_def revents_read_def
        revents_write_def event_defs)
qed

end
