(* ===== verification/Lotta_Timed_Loop.thy ===== *)
theory Lotta_Timed_Loop
  imports Lotta_Loop_Programs
begin

text \<open>
  Timers on a running loop: \<^verbatim>\<open>TimerQueue::handleTimer\<close> as the callback of a channel that the poller
  reports, with callbacks that act on the whole loop.
\<close>

section \<open>Programs keep the timer queue in order\<close>

lemma prog_cmd_wf:
  assumes wf: "tq_wf s" and step: "prog_cmd clk c s = Inr s1"
  shows "tq_wf s1 \<and> tq_frame s s1"
proof -
  have reads: "tq_wf (s\<lparr>tq_reads := Suc (tq_reads s)\<rparr>)" using wf by (auto elim: tq_inv_cong)
  have frame: "tq_frame (s\<lparr>tq_reads := Suc (tq_reads s)\<rparr>) s1 \<longleftrightarrow> tq_frame s s1" by (simp add: tq_frame_def)
  have same: "tq_wf s1 \<and> tq_frame s s1"
    if "tq_heap s1 = tq_heap s" "tq_next s1 = tq_next s" "tq_timers s1 = tq_timers s"
      "tq_cancelled s1 = tq_cancelled s" "tq_queued s1 = tq_queued s" "tq_expired s1 = tq_expired s" "tq_doing s1 = tq_doing s"
    using tq_inv_cong [OF wf that(1-5)] that by (simp add: tq_frame_def)
  show ?thesis
  proof (cases c)
    case (CmdRunAfter f d)
    then show ?thesis
      using step addTimer_frame_wf [OF reads] frame by (auto simp: EventLoop_runAfter_def res_iffs Let_def)
  next
    case (CmdRunEvery f d)
    then show ?thesis
      using step addTimer_frame_wf [OF reads] frame by (auto simp: EventLoop_runEvery_def res_iffs Let_def)
  next
    case (CmdCancel t)
    then show ?thesis using cancel_inv [OF wf, of t True] step by (auto simp: EventLoop_cancel_def)
  next
    case (CmdPush f)
    with step same show ?thesis by (auto simp: rc_loop_def)
  next
    case CmdQuit
    with step same show ?thesis by (auto simp: rc_loop_def)
  next
    case (CmdToggle e t)
    with step obtain w where "s1 = s\<lparr>rc_pw := w\<rparr>" by (auto simp: res_iffs)
    with same show ?thesis by simp
  next
    case (CmdLog m)
    with step same show ?thesis by auto
  qed
qed

lemma prog_call_wf: "tq_wf s \<Longrightarrow> prog_call clk cs s = Inr s1 \<Longrightarrow> tq_wf s1 \<and> tq_frame s s1"
proof (induction cs arbitrary: s)
  case (Cons c cs)
  then obtain s2 where s2: "prog_cmd clk c s = Inr s2" "prog_call clk cs s2 = Inr s1" by (auto simp: res_iffs)
  have first: "tq_wf s2 \<and> tq_frame s s2" by (rule prog_cmd_wf [OF Cons.prems(1) s2(1)])
  then have "tq_wf s1 \<and> tq_frame s2 s1" using Cons.IH s2(2) by blast
  with first show ?case by (blast intro: tq_frame_trans)
qed simp

interpretation program_timers: timer_callbacks "prog_call clk" for clk
  by unfold_locales (rule prog_call_wf)

lemma prog_call_append: "prog_call clk (cs @ ds) s = bindR (prog_call clk cs s) (prog_call clk ds)"
proof (induction cs arbitrary: s)
  case (Cons c cs)
  then show ?case by (cases "prog_cmd clk c s") simp_all
qed simp

lemma run_all_prog: "run_all (prog_call clk) css s = prog_call clk (concat css) s"
proof (induction css arbitrary: s)
  case (Cons cs css)
  then show ?case by (cases "prog_call clk cs s") (simp_all add: prog_call_append)
qed simp

section \<open>A timer from \<^verbatim>\<open>runAfter\<close> to its callback\<close>

text \<open>Callbacks that only log and quit always succeed.\<close>

fun logs :: "loop_cmd list \<Rightarrow> string list" where
  "logs [] = []"
| "logs (CmdLog m # cs) = m # logs cs"
| "logs (_ # cs) = logs cs"

definition plain_cmds :: "loop_cmd list \<Rightarrow> bool" where
  "plain_cmds cs \<longleftrightarrow> list_all (\<lambda>c. c = CmdQuit \<or> (\<exists>m. c = CmdLog m)) cs"

lemma prog_call_plain:
  "plain_cmds cs \<Longrightarrow>
   prog_call clk cs s = Inr (s\<lparr>rc_el := (rc_el s)\<lparr>el_quit := el_quit (rc_el s) \<or> CmdQuit \<in> set cs\<rparr>,
     pg_log := pg_log s @ logs cs\<rparr>)"
proof (induction cs arbitrary: s)
  case (Cons c cs)
  then have "c = CmdQuit \<or> (\<exists>m. c = CmdLog m)" "plain_cmds cs" by (simp_all add: plain_cmds_def)
  then show ?case using Cons.IH by (auto simp: rc_loop_def EventLoop_quit_def)
qed simp

text \<open>\<^verbatim>\<open>runAfter\<close> with a deadline before all others sets the timerfd.\<close>

lemma runAfter_first:
  assumes first: "\<forall>e \<in> set (tq_timers q). w < fst e"
    and w: "w = duration_cast (of_int (clk (tq_reads q)) / 1000000000 + delay)"
  shows "EventLoop_runAfter clk True cb delay q = Inr (tq_next q, resetTimerFd clk w
     (q\<lparr>tq_reads := Suc (tq_reads q), tq_heap := (tq_heap q)(tq_next q \<mapsto> Timer_new cb w 0),
        tq_next := Suc (tq_next q), tq_timers := (w, tq_next q) # tq_timers q\<rparr>))"
proof -
  have "takeWhile (\<lambda>x. fst x \<le> w) (tq_timers q) = []" "dropWhile (\<lambda>x. fst x \<le> w) (tq_timers q) = tq_timers q"
    using first by (cases "tq_timers q"; auto)+
  then show ?thesis
    using first unfolding w [symmetric] EventLoop_runAfter_def TimerQueue_addTimer_def TimerQueue_addTask_def
      pushTimerToMap_def multimap_insert_def Timer_new_def Let_def
    by (auto simp: w [symmetric] split: list.split)
qed

text \<open>A single overdue timer that does not repeat leaves nothing behind; the timerfd is set for the
  next one.\<close>

definition set_for_first :: "(nat \<Rightarrow> int) \<Rightarrow> prog \<Rightarrow> prog" where
  "set_for_first clk q = (case tq_timers q of [] \<Rightarrow> q | e # _ \<Rightarrow> resetTimerFd clk (fst e) q)"

lemma resetTimers_single:
  assumes "tq_heap q t = Some tm" "\<not> tm_repeat tm" "\<forall>e \<in> set (tq_timers q). now < fst e"
  shows "resetTimers clk now [(w, t)] q = Inr (set_for_first clk q)"
  using assms by (auto simp: resetTimers_def set_for_first_def case_prod_unfold split: list.split)

lemma set_for_first_fields [simp]:
  "tq_timers (set_for_first clk q) = tq_timers q" "rc_el (set_for_first clk q) = rc_el q"
  "pg_log (set_for_first clk q) = pg_log q"
  using same_more [of "resetTimerFd clk p q" q for p]
  by (auto simp: set_for_first_def split: list.split)

section \<open>A round that fires timers\<close>

text \<open>A poll that reports the timerfd makes the loop run, on its whole state, the callbacks of exactly
  the overdue timers in the order of their deadlines, put the repeating ones back, and then run
  the functions queued meanwhile; unless a deadline is exactly the time read, where it stops at an assert.\<close>

lemma timer_round:
  assumes ok: "prog_ok s" and idle: "tq_idle s" and answer: "poll_answer_ok (Inl HandleWakeup) num revs s"
    and ready: "ready_callbacks (rc_pw s) revs = [Inl HandleTimer]"
  shows "\<exists>w act. PollPoller_poll (rc_pw s) num revs [] = Inr (w, act) \<and>
    EventLoop_round (prog_run clk) (prog_call clk) num revs s =
      (let now = clk (tq_reads s); es = due now (tq_timers s) in
       if now \<in> fst ` set (tq_timers s)
       then Inl (AssertFail ''expiredEnd == timers_.end() || now < expiredEnd->first'')
       else bindR (prog_call clk (concat (map (\<lambda>e. tm_callback (the (tq_heap s (snd e)))) es))
              (s\<lparr>rc_pw := w, rc_active := act, rc_el := (rc_el s)\<lparr>el_pc := Handling\<rparr>,
                 tq_reads := Suc (tq_reads s), tq_fdlog := tq_fdlog s @ [ReadFd],
                 tq_timers := filter (\<lambda>e. now < fst e) (tq_timers s), tq_expired := es,
                 tq_doing := True, tq_cancelled := []\<rparr>)) (\<lambda>s3.
            bindR (resetTimers clk now es (s3\<lparr>tq_doing := False\<rparr>)) (\<lambda>s4.
            EventLoop_doFuncQueue (prog_call clk) (s4\<lparr>tq_expired := []\<rparr>))))"
proof -
  obtain w act where w: "PollPoller_poll (rc_pw s) num revs [] = Inr (w, act)"
    and round: "EventLoop_round (prog_run clk) (prog_call clk) num revs s =
      bindR (run_all (prog_run clk) (ready_callbacks (rc_pw s) revs)
               (rc_loop (\<lambda>e. e\<lparr>el_pc := Handling\<rparr>) (s\<lparr>rc_pw := w, rc_active := act\<rparr>)))
        (EventLoop_doFuncQueue (prog_call clk))"
    using programs.round_runs [OF ok answer] by blast
  let ?s = "s\<lparr>rc_pw := w, rc_active := act, rc_el := (rc_el s)\<lparr>el_pc := Handling\<rparr>\<rparr>"
  have idle1: "tq_idle ?s" using idle by (auto simp: tq_idle_def elim: tq_inv_cong)
  have "EventLoop_round (prog_run clk) (prog_call clk) num revs s =
      bindR (TimerQueue_handleTimer clk (prog_call clk) True ?s) (EventLoop_doFuncQueue (prog_call clk))"
    unfolding round ready by (cases "TimerQueue_handleTimer clk (prog_call clk) True ?s") (simp_all add: rc_loop_def)
  then show ?thesis
    using w program_timers.handleTimer_eq [OF idle1 refl, of clk clk]
    by (intro exI [of _ w] exI [of _ act]) (simp add: Let_def run_all_prog bindR_assoc)
qed

section \<open>Properties\<close>

text \<open>C17. From \<^verbatim>\<open>runAfter\<close> to its callback: on a loop that is not running a timer and has an empty
  function queue, \<^verbatim>\<open>runAfter\<close> with a callback that logs or quits sets the timerfd for the deadline,
  provided the deadline is still ahead when the timerfd is set and before those of all waiting
  timers; and a round in which the poll reports the timerfd alone, at a time after the deadline
  and before the others, runs the callback exactly once on the loop (its log entries appear, its
  quit takes effect), forgets the timer and keeps the others.\<close>

theorem runAfter_fires:
  assumes ok: "prog_ok s" and idle: "tq_idle s" and none: "el_queue (rc_el s) = []"
    and later: "\<forall>e \<in> set (tq_timers s). clk (Suc (Suc (tq_reads s))) < fst e"
    and f: "plain_cmds f"
    and ahead: "w = duration_cast (of_int (clk (tq_reads s)) / 1000000000 + delay)" "clk (Suc (tq_reads s)) < w"
    and due: "w < clk (Suc (Suc (tq_reads s)))"
    and answer: "poll_answer_ok (Inl HandleWakeup) num revs s" "ready_callbacks (rc_pw s) revs = [Inl HandleTimer]"
  shows "\<exists>s1 s2. prog_cmd clk (CmdRunAfter f delay) s = Inr s1 \<and> pending_expiry (tq_fdlog s1) = Some w \<and>
     EventLoop_round (prog_run clk) (prog_call clk) num revs s1 = Inr s2 \<and>
     pg_log s2 = pg_log s @ logs f \<and> (el_quit (rc_el s2) \<longleftrightarrow> el_quit (rc_el s) \<or> CmdQuit \<in> set f) \<and>
     tq_timers s2 = tq_timers s"
proof -
  let ?t = "tq_next s"
  let ?ts = "tq_timers s"
  let ?q = "s\<lparr>tq_reads := Suc (tq_reads s), tq_heap := (tq_heap s)(?t \<mapsto> Timer_new f w 0),
        tq_next := Suc ?t, tq_timers := (w, ?t) # ?ts\<rparr>"
  let ?s1 = "resetTimerFd clk w ?q"
  have step: "prog_cmd clk (CmdRunAfter f delay) s = Inr ?s1"
    using runAfter_first [where q = s and clk = clk and w = w and cb = f, OF _ ahead(1)] later due by fastforce
  have idle1: "tq_idle ?s1"
    using prog_cmd_wf [of s clk "CmdRunAfter f delay" ?s1] step idle by (auto simp: tq_idle_def tq_frame_def)
  have same: "rc_pw ?s1 = rc_pw s" "rc_el ?s1 = rc_el s" "pg_log ?s1 = pg_log s" "rc_active ?s1 = rc_active s"
    using same_more [of ?s1 ?q] by simp_all
  have reads: "tq_reads ?s1 = Suc (Suc (tq_reads s))" by (simp add: resetTimerFd_def Let_def)
  have armed: "pending_expiry (tq_fdlog ?s1) = Some w"
  proof (rule resetTimerFd_pending)
    show "in_future (last (tq_fdlog ?s1))"
      using ahead(2) resetTimerFd_log [of clk w ?q] by auto
  qed
  have heap: "tq_heap ?s1 ?t = Some (Timer_new f w 0)" "tq_timers ?s1 = (w, ?t) # ?ts" by simp_all
  define s1 where "s1 = ?s1"
  note step = step [folded s1_def] and idle1 = idle1 [folded s1_def] and same = same [folded s1_def]
    and reads = reads [folded s1_def] and armed = armed [folded s1_def] and heap = heap [folded s1_def]
  have ok1: "prog_ok s1" "poll_answer_ok (Inl HandleWakeup) num revs s1" "ready_callbacks (rc_pw s1) revs = [Inl HandleTimer]"
    using ok answer by (simp_all add: prog_ok_def poll_answer_ok_def same)
  let ?now = "clk (Suc (Suc (tq_reads s)))"
  have timers: "due ?now (tq_timers s1) = [(w, ?t)]" "filter (\<lambda>e. ?now < fst e) (tq_timers s1) = ?ts"
    "?now \<notin> fst ` set (tq_timers s1)" "tm_callback (the (tq_heap s1 ?t)) = f"
    using due heap later by (auto simp: due_def Timer_new_def filter_empty_conv filter_id_conv)
  obtain p act where round: "EventLoop_round (prog_run clk) (prog_call clk) num revs s1 =
      bindR (prog_call clk f (s1\<lparr>rc_pw := p, rc_active := act, rc_el := (rc_el s1)\<lparr>el_pc := Handling\<rparr>,
         tq_reads := Suc (tq_reads s1), tq_fdlog := tq_fdlog s1 @ [ReadFd], tq_timers := ?ts,
         tq_expired := [(w, ?t)], tq_doing := True, tq_cancelled := []\<rparr>)) (\<lambda>s3.
      bindR (resetTimers clk ?now [(w, ?t)] (s3\<lparr>tq_doing := False\<rparr>)) (\<lambda>s4.
      EventLoop_doFuncQueue (prog_call clk) (s4\<lparr>tq_expired := []\<rparr>)))"
    using timer_round [OF ok1(1) idle1 ok1(2,3), of clk] timers reads by (auto simp: Let_def)
  let ?s3 = "s1\<lparr>rc_pw := p, rc_active := act, tq_reads := Suc (tq_reads s1), tq_fdlog := tq_fdlog s1 @ [ReadFd],
      tq_timers := ?ts, tq_expired := [(w, ?t)], tq_doing := True, tq_cancelled := [],
      rc_el := (rc_el s1)\<lparr>el_pc := Handling, el_quit := el_quit (rc_el s) \<or> CmdQuit \<in> set f\<rparr>, pg_log := pg_log s @ logs f\<rparr>"
  have call: "prog_call clk f (s1\<lparr>rc_pw := p, rc_active := act, rc_el := (rc_el s1)\<lparr>el_pc := Handling\<rparr>,
         tq_reads := Suc (tq_reads s1), tq_fdlog := tq_fdlog s1 @ [ReadFd], tq_timers := ?ts,
         tq_expired := [(w, ?t)], tq_doing := True, tq_cancelled := []\<rparr>) = Inr ?s3"
    using prog_call_plain [OF f] same by simp
  have reset: "resetTimers clk ?now [(w, ?t)] (?s3\<lparr>tq_doing := False\<rparr>) = Inr (set_for_first clk (?s3\<lparr>tq_doing := False\<rparr>))"
    by (rule resetTimers_single [of _ _ "Timer_new f w 0"]) (use later in \<open>simp_all add: heap Timer_new_def\<close>)
  let ?s4 = "(set_for_first clk (?s3\<lparr>tq_doing := False\<rparr>))\<lparr>tq_expired := []\<rparr>"
  have "EventLoop_doFuncQueue (prog_call clk) ?s4 =
      Inr (rc_loop (\<lambda>e. (doFuncQueue_end ((doFuncQueue_swap e)\<lparr>el_pc := Running\<rparr>))\<lparr>el_pc := Testing\<rparr>) ?s4)"
    using none same by (simp add: EventLoop_doFuncQueue_def Let_def rc_loop_def doFuncQueue_swap_def)
  then have "EventLoop_round (prog_run clk) (prog_call clk) num revs s1 =
      Inr (rc_loop (\<lambda>e. (doFuncQueue_end ((doFuncQueue_swap e)\<lparr>el_pc := Running\<rparr>))\<lparr>el_pc := Testing\<rparr>) ?s4)"
    unfolding round call bindR_simps reset by simp
  then have "\<exists>s2. EventLoop_round (prog_run clk) (prog_call clk) num revs s1 = Inr s2 \<and>
     pg_log s2 = pg_log s @ logs f \<and> (el_quit (rc_el s2) \<longleftrightarrow> el_quit (rc_el s) \<or> CmdQuit \<in> set f) \<and> tq_timers s2 = ?ts"
    by (simp add: rc_loop_def doFuncQueue_swap_def doFuncQueue_end_def)
  with step armed show ?thesis by blast
qed

text \<open>A timer of 1.5 seconds in front of one of 9 seconds.\<close>

lemma runAfter_fires_witness:
  "\<exists>s0 s1 s2. prog_cmd (\<lambda>n. int n * 1000000000) (CmdRunAfter [CmdLog ''later''] 9) sample_prog = Inr s0 \<and>
     prog_cmd (\<lambda>n. int n * 1000000000) (CmdRunAfter [CmdLog ''soon'', CmdQuit] (3 / 2)) s0 = Inr s1 \<and>
     EventLoop_round (prog_run (\<lambda>n. int n * 1000000000)) (prog_call (\<lambda>n. int n * 1000000000)) 1 [1, 0] s1 = Inr s2 \<and>
     pg_log s2 = [''soon''] \<and> el_quit (rc_el s2) \<and> tq_timers s2 = [(9000000000, 0)]"
proof -
  let ?clk = "\<lambda>n. int n * 1000000000"
  have fields: "tq_reads sample_prog = 0" "tq_timers sample_prog = []" "tq_next sample_prog = 0" "tq_idle sample_prog"
    by (simp_all add: sample_prog_def prog_new_def timer_queue.defs TimerQueue_new_def tq_idle_def tq_inv_def)
  let ?q = "sample_prog\<lparr>tq_reads := 1, tq_heap := (tq_heap sample_prog)(0 \<mapsto> Timer_new [CmdLog ''later''] 9000000000 0),
        tq_next := 1, tq_timers := [(9000000000, 0)]\<rparr>"
  define s0 where "s0 = resetTimerFd ?clk 9000000000 ?q"
  have w0: "9000000000 = duration_cast (of_int (?clk (tq_reads sample_prog)) / 1000000000 + 9)"
    using fields(1) by (simp add: duration_cast_def)
  have first: "\<forall>e \<in> set (tq_timers sample_prog). (9000000000 :: int) < fst e" by (simp add: fields(2))
  have "EventLoop_runAfter ?clk True [CmdLog ''later''] 9 sample_prog = Inr (0, s0)"
    using runAfter_first [where clk = ?clk, OF first w0, of "[CmdLog ''later'']"]
    unfolding s0_def fields(1-3) One_nat_def .
  then have step: "prog_cmd ?clk (CmdRunAfter [CmdLog ''later''] 9) sample_prog = Inr s0" by simp
  have "timer_queue.more s0 = timer_queue.more ?q" by (simp add: s0_def)
  from same_more [OF this] have s0: "tq_timers s0 = [(9000000000, 0)]" "tq_reads s0 = 2" "rc_pw s0 = rc_pw sample_prog"
    "rc_el s0 = EventLoop_new" "pg_log s0 = []"
    by (simp_all add: s0_def) (simp add: resetTimerFd_def Let_def)
  note s0 = step s0(2,1,3-)
  have idle: "tq_idle s0" using prog_cmd_wf [OF _ s0(1)] fields(4) by (auto simp: tq_idle_def tq_frame_def)
  have ok: "prog_ok s0" using sample_ok s0(4) by (simp add: prog_ok_def)
  have ready: "ready_callbacks (rc_pw s0) [1, 0] = [Inl HandleTimer]" unfolding s0(4)
    by (simp add: ready_callbacks_def fired_callbacks_def revents_close_def revents_error_def revents_read_def
        revents_write_def sample_channel_def event_defs)
  then have answer: "poll_answer_ok (Inl HandleWakeup) 1 [1, 0] s0"
    by (simp add: poll_answer_ok_def s0(4,5) EventLoop_new_def)
  have w: "3500000000 = duration_cast (of_int (?clk (tq_reads s0)) / 1000000000 + 3 / 2)"
    using s0(2) by (simp add: duration_cast_def)
  show ?thesis
    using runAfter_fires [where clk = ?clk, OF ok idle _ _ _ w _ _ answer ready, of "[CmdLog ''soon'', CmdQuit]"] s0
    by (auto simp: plain_cmds_def EventLoop_new_def)
qed

end
