(* ===== verification/Lotta_Net.thy ===== *)
theory Lotta_Net
  imports Lotta_Poller "HOL-Library.Multiset"
begin

text \<open>
  \<^verbatim>\<open>NetAddr\<close> (\<^verbatim>\<open>src/net_addr.cc\<close>), \<^verbatim>\<open>Connector\<close> (\<^verbatim>\<open>src/connector.cc\<close>) and \<^verbatim>\<open>Acceptor\<close>
  (\<^verbatim>\<open>src/acceptor.cc\<close>).

  What system calls return is an argument of the operation that makes them: the descriptor of
  \<^verbatim>\<open>socket\<close>, the outcome of \<^verbatim>\<open>connect\<close>, \<^verbatim>\<open>accept4\<close>, \<^verbatim>\<open>open\<close> and \<^verbatim>\<open>getsockopt\<close>; Lotta\_Socket puts
  the calls themselves beside them. The text form of an address is that of \<^verbatim>\<open>inet_ntop\<close>, the
  parameter \<open>ntop\<close>.
\<close>

unbundle bit_operations_syntax

section \<open>Addresses\<close>

text \<open>The fields of \<^verbatim>\<open>sockaddr_storage\<close> that the code uses; ports are in network byte order.\<close>

abbreviation (input) AF_INET :: "16 word" where "AF_INET \<equiv> 2"
abbreviation (input) AF_INET6 :: "16 word" where "AF_INET6 \<equiv> 10"

record net_addr =
  na_family :: "16 word"
  na_port :: "16 word"
  na_in :: "32 word"
  na_in6 :: "128 word"

definition htons :: "16 word \<Rightarrow> 16 word" where
  "htons x = push_bit 8 x OR drop_bit 8 x"

definition ntohs :: "16 word \<Rightarrow> 16 word" where
  "ntohs x = push_bit 8 x OR drop_bit 8 x"

definition htonl :: "32 word \<Rightarrow> 32 word" where
  "htonl x = push_bit 24 x OR (push_bit 8 x AND 0xFF0000) OR (drop_bit 8 x AND 0xFF00) OR drop_bit 24 x"

definition NetAddr_empty :: net_addr where
  "NetAddr_empty = \<lparr>na_family = 0, na_port = 0, na_in = 0, na_in6 = 0\<rparr>"

text \<open>\<^verbatim>\<open>INADDR_LOOPBACK\<close> is 127.0.0.1, \<^verbatim>\<open>in6addr_loopback\<close> ends in a byte 1 (the number is read
  in memory order).\<close>

definition NetAddr_port :: "16 word \<Rightarrow> bool \<Rightarrow> bool \<Rightarrow> net_addr" where
  "NetAddr_port p loopback ipv6 =
     (if ipv6 then NetAddr_empty\<lparr>na_family := AF_INET6, na_port := htons p,
        na_in6 := (if loopback then push_bit 120 1 else 0)\<rparr>
      else NetAddr_empty\<lparr>na_family := AF_INET, na_port := htons p,
        na_in := htonl (if loopback then 0x7F000001 else 0)\<rparr>)"

text \<open>\<open>pton4\<close>, \<open>pton6\<close> stand for \<^verbatim>\<open>inet_pton\<close>: \<open>None\<close> leaves the zeroed field alone.\<close>

definition NetAddr_host_port ::
  "(string \<Rightarrow> 32 word option) \<Rightarrow> (string \<Rightarrow> 128 word option) \<Rightarrow> string \<Rightarrow> 16 word \<Rightarrow> bool \<Rightarrow> net_addr" where
  "NetAddr_host_port pton4 pton6 host p ipv6 =
     (if ipv6 then (let a = NetAddr_empty\<lparr>na_family := AF_INET6, na_port := htons p\<rparr>
        in case pton6 host of None \<Rightarrow> a | Some x \<Rightarrow> a\<lparr>na_in6 := x\<rparr>)
      else (let a = NetAddr_empty\<lparr>na_family := AF_INET, na_port := htons p\<rparr>
        in case pton4 host of None \<Rightarrow> a | Some x \<Rightarrow> a\<lparr>na_in := x\<rparr>))"

text \<open>Copies of what the kernel fills in: \<^verbatim>\<open>sockaddr_in\<close> and \<^verbatim>\<open>sockaddr_in6\<close> over zeroed storage, or
  the whole storage.\<close>

definition NetAddr_of_in :: "16 word \<Rightarrow> 16 word \<Rightarrow> 32 word \<Rightarrow> net_addr" where
  "NetAddr_of_in family port addr = NetAddr_empty\<lparr>na_family := family, na_port := port, na_in := addr\<rparr>"

definition NetAddr_of_in6 :: "16 word \<Rightarrow> 16 word \<Rightarrow> 128 word \<Rightarrow> net_addr" where
  "NetAddr_of_in6 family port addr = NetAddr_empty\<lparr>na_family := family, na_port := port, na_in6 := addr\<rparr>"

definition NetAddr_of_storage :: "net_addr \<Rightarrow> net_addr" where
  "NetAddr_of_storage a = a"

definition NetAddr_family :: "net_addr \<Rightarrow> 16 word" where
  [simp]: "NetAddr_family a = na_family a"

definition NetAddr_getPort :: "net_addr \<Rightarrow> 16 word" where
  "NetAddr_getPort a = (if na_family a = AF_INET6 then ntohs (na_port a) else ntohs (na_port a))"

definition NetAddr_host :: "(32 word \<Rightarrow> string) \<Rightarrow> (128 word \<Rightarrow> string) \<Rightarrow> net_addr \<Rightarrow> string" where
  "NetAddr_host ntop4 ntop6 a = (if na_family a = AF_INET6 then ntop6 (na_in6 a) else ntop4 (na_in a))"

definition NetAddr_addr :: "(32 word \<Rightarrow> string) \<Rightarrow> (128 word \<Rightarrow> string) \<Rightarrow> net_addr \<Rightarrow> string" where
  "NetAddr_addr ntop4 ntop6 a =
     NetAddr_host ntop4 ntop6 a @ '':'' @ nat_to_string (unat (NetAddr_getPort a))"

text \<open>\<^verbatim>\<open>getsockopt(SO_ERROR)\<close> gives the pending error, or fails with an \<^verbatim>\<open>errno\<close>.\<close>

definition getSocketErrno :: "int + int \<Rightarrow> int" where
  "getSocketErrno sockopt = (case sockopt of Inl errno \<Rightarrow> errno | Inr val \<Rightarrow> val)"

section \<open>The connector\<close>

datatype connector_state = CtConnecting | CtConnected | CtDisconnected

datatype connector_handler = CtHandleWrite | CtHandleError

record connector =
  ct_pw :: "connector_handler pworld"
  ct_channel :: "nat option"          \<comment> \<open>\<^verbatim>\<open>channel_\<close>\<close>
  ct_next :: nat                      \<comment> \<open>identity of the next channel\<close>
  ct_state :: connector_state
  ct_toQuit :: bool
  ct_retrySec :: nat
  ct_timers :: "nat list"             \<comment> \<open>delays after which \<^verbatim>\<open>startTask\<close> runs again\<close>
  ct_resets :: nat                    \<comment> \<open>queued \<^verbatim>\<open>channel_.reset()\<close>\<close>
  ct_default :: bool                  \<comment> \<open>\<^verbatim>\<open>connCallback_\<close> is still the default one\<close>
  ct_handed :: "int list"             \<comment> \<open>descriptors given to a user's \<^verbatim>\<open>connCallback_\<close>\<close>
  ct_closed :: "int list"

definition kInitRetrySec :: nat where
  "kInitRetrySec = 1"

definition kMaxRetrySec :: nat where
  "kMaxRetrySec = 30"

definition Connector_new :: "connector_handler pworld \<Rightarrow> nat \<Rightarrow> connector" where
  "Connector_new w d = \<lparr>ct_pw = w, ct_channel = None, ct_next = d, ct_state = CtDisconnected,
     ct_toQuit = False, ct_retrySec = kInitRetrySec, ct_timers = [], ct_resets = 0, ct_default = True, ct_handed = [], ct_closed = []\<rparr>"

definition Connector_setConnCallback :: "connector \<Rightarrow> connector" where
  "Connector_setConnCallback c = c\<lparr>ct_default := False\<rparr>"

text \<open>The default callback makes a new channel and so destroys the one \<^verbatim>\<open>channel_\<close> still owns.\<close>

definition Connector_defaultConnCallback :: "int \<Rightarrow> connector \<Rightarrow> connector" where
  "Connector_defaultConnCallback fd c =
     (let st = (pw_store (ct_pw c))(ct_next c \<mapsto> Channel_new fd)
      in c\<lparr>ct_channel := Some (ct_next c), ct_next := Suc (ct_next c),
           ct_pw := (ct_pw c)\<lparr>pw_store := (case ct_channel c of None \<Rightarrow> st | Some d \<Rightarrow> st(d := None))\<rparr>\<rparr>)"

definition Connector_connected :: "int \<Rightarrow> connector \<Rightarrow> connector res" where
  "Connector_connected fd c =
     (let c1 = c\<lparr>ct_state := CtConnecting\<rparr> in
      assertR (ct_channel c1 = None) ''channel_ == nullptr'' (
      let d = ct_next c1;
          w = (ct_pw c1)\<lparr>pw_store := (pw_store (ct_pw c1))(d \<mapsto>
                Channel_setErrorCallback CtHandleError (Channel_setWriteCallback CtHandleWrite (Channel_new fd)))\<rparr>
      in bindR (Channel_enableWriting w d) (\<lambda>w1.
        Inr (c1\<lparr>ct_channel := Some d, ct_next := Suc d, ct_pw := w1\<rparr>))))"

definition Connector_retry :: "int \<Rightarrow> connector \<Rightarrow> connector" where
  "Connector_retry fd c =
     (let c1 = c\<lparr>ct_closed := ct_closed c @ [fd], ct_state := CtDisconnected\<rparr> in
      if ct_toQuit c1 then c1
      else c1\<lparr>ct_timers := ct_timers c1 @ [ct_retrySec c1],
              ct_retrySec := min (ct_retrySec c1 * 2) kMaxRetrySec\<rparr>)"

text \<open>The classes of \<^verbatim>\<open>errno\<close> after \<^verbatim>\<open>connect\<close> (Linux numbers).\<close>

definition connect_pending :: "int set" where
  "connect_pending = {0, 115, 4, 106}"           \<comment> \<open>0, \<^verbatim>\<open>EINPROGRESS, EINTR, EISCONN\<close>\<close>

definition connect_retryable :: "int set" where
  "connect_retryable = {99, 11, 111, 101, 110}"
    \<comment> \<open>\<^verbatim>\<open>EADDRNOTAVAIL, EAGAIN, ECONNREFUSED, ENETUNREACH, ETIMEDOUT\<close>\<close>

definition Connector_startTask :: "int \<Rightarrow> int \<Rightarrow> connector \<Rightarrow> connector res" where
  "Connector_startTask fd err c = EventLoop_assertTheSameThread (ct_pw c) (
     assertR (ct_state c = CtDisconnected) ''state_ == State::Disconnected'' (
     if ct_toQuit c then Inr c
     else if err \<in> connect_pending then Connector_connected fd c
     else if err \<in> connect_retryable then Inr (Connector_retry fd c)
     else Inr c))"

definition Connector_start :: "int \<Rightarrow> int \<Rightarrow> connector \<Rightarrow> connector res" where
  "Connector_start fd err c = Connector_startTask fd err (c\<lparr>ct_toQuit := False\<rparr>)"

definition Connector_removeChannel :: "connector \<Rightarrow> (int \<times> connector) res" where
  "Connector_removeChannel c = derefR (ct_channel c) ''channel_'' (\<lambda>d.
     derefR (pw_store (ct_pw c) d) ''channel'' (\<lambda>ch.
     bindR (Channel_disableEvents (ct_pw c) d) (\<lambda>w1.
     bindR (Channel_remove w1 d) (\<lambda>w2.
     Inr (ch_fd ch, c\<lparr>ct_pw := w2, ct_resets := Suc (ct_resets c)\<rparr>)))))"

definition Connector_handleWrite :: "int + int \<Rightarrow> connector \<Rightarrow> connector res" where
  "Connector_handleWrite sockopt c =
     (if ct_state c \<noteq> CtConnecting then Inr c
      else bindR (Connector_removeChannel c) (\<lambda>(fd, c1).
        let err = getSocketErrno sockopt in
        if err < 0 then Inr (Connector_retry fd c1)
        else if ct_toQuit c1 then Inr (c1\<lparr>ct_closed := ct_closed c1 @ [fd], ct_state := CtDisconnected\<rparr>)
        else let c2 = c1\<lparr>ct_state := CtConnected\<rparr> in
          Inr (if ct_default c2 then Connector_defaultConnCallback fd c2
               else c2\<lparr>ct_handed := ct_handed c2 @ [fd]\<rparr>)))"

definition Connector_handleError :: "connector \<Rightarrow> connector res" where
  "Connector_handleError c =
     (if ct_state c \<noteq> CtConnecting then Inr c
      else bindR (Connector_removeChannel c) (\<lambda>(fd, c1). Inr (Connector_retry fd c1)))"

text \<open>The queued \<^verbatim>\<open>c.reset()\<close>, as the loop's queue runs it: the object goes with the pointer.\<close>

definition Connector_reset :: "connector \<Rightarrow> connector" where
  "Connector_reset c =
     (if ct_resets c = 0 then c
      else c\<lparr>ct_resets := ct_resets c - 1, ct_channel := None,
             ct_pw := (case ct_channel c of None \<Rightarrow> ct_pw c
               | Some d \<Rightarrow> (ct_pw c)\<lparr>pw_store := (pw_store (ct_pw c))(d := None)\<rparr>)\<rparr>)"

definition Connector_destroy :: "connector \<Rightarrow> connector res" where
  "Connector_destroy c = (case ct_channel c of
     None \<Rightarrow> Inr c
   | Some d \<Rightarrow> derefR (pw_store (ct_pw c) d) ''channel'' (\<lambda>ch.
       bindR (Channel_disableEvents (ct_pw c) d) (\<lambda>w1.
       bindR (Channel_remove w1 d) (\<lambda>w2.
       Inr (c\<lparr>ct_channel := None, ct_pw := w2\<lparr>pw_store := (pw_store w2)(d := None)\<rparr>,
              ct_closed := ct_closed c @ [ch_fd ch]\<rparr>)))))"

fun connector_run :: "int + int \<Rightarrow> connector_handler \<Rightarrow> connector \<Rightarrow> connector res" where
  "connector_run sockopt CtHandleWrite c = Connector_handleWrite sockopt c"
| "connector_run sockopt CtHandleError c = Connector_handleError c"

text \<open>One report for the connecting socket; the channel object is \<open>d\<close>.\<close>

definition connector_dispatch :: "int + int \<Rightarrow> nat \<Rightarrow> connector \<Rightarrow> connector res" where
  "connector_dispatch sockopt d c =
     Channel_handleEvent (connector_run sockopt) (\<lambda>c. pw_store (ct_pw c) d) c"

section \<open>The acceptor\<close>

record acceptor =
  ac_pw :: "unit pworld"
  ac_channel :: nat
  ac_idleFd :: int
  ac_callback :: bool                 \<comment> \<open>\<^verbatim>\<open>connCallback_\<close> is set\<close>
  ac_handed :: "int list"
  ac_closed :: "int list"

definition Acceptor_new :: "unit pworld \<Rightarrow> nat \<Rightarrow> int \<Rightarrow> int \<Rightarrow> bool \<Rightarrow> acceptor res" where
  "Acceptor_new w d idleFd fd callback = assertR (0 \<le> idleFd) ''idleFd_ >= 0'' (
     Inr \<lparr>ac_pw = w\<lparr>pw_store := (pw_store w)(d \<mapsto> Channel_setReadCallback () (Channel_new fd))\<rparr>,
       ac_channel = d, ac_idleFd = idleFd, ac_callback = callback, ac_handed = [], ac_closed = []\<rparr>)"

definition Acceptor_setConnCallback :: "acceptor \<Rightarrow> acceptor" where
  "Acceptor_setConnCallback a = a\<lparr>ac_callback := True\<rparr>"

definition Acceptor_listen :: "acceptor \<Rightarrow> acceptor res" where
  "Acceptor_listen a = EventLoop_assertTheSameThread (ac_pw a) (
     bindR (Channel_enableReading (ac_pw a) (ac_channel a)) (\<lambda>w. Inr (a\<lparr>ac_pw := w\<rparr>)))"

text \<open>The members \<^verbatim>\<open>channel_\<close> and \<^verbatim>\<open>socket_\<close> go after the body of the destructor; the latter
  closes the listening descriptor.\<close>

definition Acceptor_destroy :: "acceptor \<Rightarrow> acceptor res" where
  "Acceptor_destroy a =
     derefR (pw_store (ac_pw a) (ac_channel a)) ''channel_'' (\<lambda>ch.
     bindR (Channel_disableEvents (ac_pw a) (ac_channel a)) (\<lambda>w1.
     bindR (Channel_remove w1 (ac_channel a)) (\<lambda>w2.
     Inr (a\<lparr>ac_pw := w2\<lparr>pw_store := (pw_store w2)(ac_channel a := None)\<rparr>,
            ac_closed := ac_closed a @ [ac_idleFd a, ch_fd ch]\<rparr>))))"

text \<open>
  An accept is a descriptor or an \<^verbatim>\<open>errno\<close> (23 is \<^verbatim>\<open>ENFILE\<close>); \<open>again\<close> is the second accept and
  \<open>reopened\<close> the new idle descriptor.
\<close>

definition accept_fd :: "int + int \<Rightarrow> int" where
  "accept_fd r = (case r of Inl errno \<Rightarrow> -1 | Inr fd \<Rightarrow> fd)"

definition Acceptor_handleAccept :: "int + int \<Rightarrow> int + int \<Rightarrow> int \<Rightarrow> acceptor \<Rightarrow> acceptor res" where
  "Acceptor_handleAccept first again reopened a = EventLoop_assertTheSameThread (ac_pw a) (
     if 0 \<le> accept_fd first then
       Inr (if ac_callback a then a\<lparr>ac_handed := ac_handed a @ [accept_fd first]\<rparr>
            else a\<lparr>ac_closed := ac_closed a @ [accept_fd first]\<rparr>)
     else if first = Inl 23 then
       (let a1 = a\<lparr>ac_closed := ac_closed a @ [ac_idleFd a, accept_fd again], ac_idleFd := reopened\<rparr>
        in assertR (0 \<le> reopened) ''idleFd_ >= 0'' (Inr a1))
     else Inr a)"


section \<open>Addresses and their text\<close>

lemma ntohs_htons [simp]: "ntohs (htons p) = p"
proof (rule bit_word_eqI)
  fix n assume n: "n < LENGTH(16)"
  show "bit (ntohs (htons p)) n = bit p n"
  proof (cases "n < 8")
    case True
    then show ?thesis
      by (simp add: ntohs_def htons_def bit_or_iff bit_push_bit_iff bit_drop_bit_eq bit_simps)
  next
    case False
    then show ?thesis using n
      by (simp add: ntohs_def htons_def bit_or_iff bit_push_bit_iff bit_drop_bit_eq bit_simps)
  qed
qed

lemma separators_not_digits: "\<not> is_digit (CHR '':'')" "\<not> is_digit (CHR ''#'')"
  by (simp_all add: is_digit_def of_char_def)

lemma NetAddr_text_inject:
  assumes "NetAddr_addr f g a = NetAddr_addr f g b"
  shows "NetAddr_host f g a = NetAddr_host f g b \<and> NetAddr_getPort a = NetAddr_getPort b"
proof -
  have "NetAddr_host f g a @ CHR '':'' # nat_to_string (unat (NetAddr_getPort a)) =
      NetAddr_host f g b @ CHR '':'' # nat_to_string (unat (NetAddr_getPort b))"
    using assms by (simp add: NetAddr_addr_def)
  from digits_suffix_inject [OF this separators_not_digits(1)] show ?thesis
    by (simp add: word_unat_eq_iff)
qed

lemma htons_ntohs [simp]: "htons (ntohs p) = p"
  using ntohs_htons by (simp add: htons_def ntohs_def)

definition net_addr_wf :: "net_addr \<Rightarrow> bool" where
  "net_addr_wf a \<longleftrightarrow> na_family a = AF_INET \<and> na_in6 a = 0 \<or> na_family a = AF_INET6 \<and> na_in a = 0"

lemma net_addr_reconstruct:
  assumes "\<forall>x. pton4 (ntop4 x) = Some x" "\<forall>x. pton6 (ntop6 x) = Some x" and "net_addr_wf a"
  shows "NetAddr_host_port pton4 pton6 (NetAddr_host ntop4 ntop6 a) (NetAddr_getPort a) (na_family a = AF_INET6) = a"
  using assms
  by (cases a) (auto simp: net_addr_wf_def NetAddr_host_port_def NetAddr_host_def NetAddr_getPort_def
      NetAddr_empty_def)

text \<open>Nothing of an address is lost in the kernel's structures.\<close>

lemma net_addr_copies:
  assumes "net_addr_wf a"
  shows "(if NetAddr_family a = AF_INET6 then NetAddr_of_in6 (na_family a) (na_port a) (na_in6 a)
      else NetAddr_of_in (na_family a) (na_port a) (na_in a)) = NetAddr_of_storage a"
  using assms
  by (cases a) (auto simp: net_addr_wf_def NetAddr_of_in_def NetAddr_of_in6_def NetAddr_of_storage_def NetAddr_empty_def)

text \<open>An IPv4 or IPv6 address is determined by its host text and its port: constructing a
  \<^verbatim>\<open>NetAddr\<close> from them gives the address back, when \<^verbatim>\<open>inet_pton\<close> reads what \<^verbatim>\<open>inet_ntop\<close>
  writes; and two addresses of one family with the same \<^verbatim>\<open>addr()\<close> are equal.\<close>

theorem netaddr_roundtrip:
  assumes "\<forall>x. pton4 (ntop4 x) = Some x" "\<forall>x. pton6 (ntop6 x) = Some x"
    and "net_addr_wf a" "net_addr_wf b" "na_family b = na_family a"
  shows "NetAddr_host_port pton4 pton6 (NetAddr_host ntop4 ntop6 a) (NetAddr_getPort a) (na_family a = AF_INET6) = a \<and>
    (NetAddr_addr ntop4 ntop6 a = NetAddr_addr ntop4 ntop6 b \<longleftrightarrow> a = b)"
  using net_addr_reconstruct [OF assms(1,2,3)] net_addr_reconstruct [OF assms(1,2,4)] assms(5)
    NetAddr_text_inject [of ntop4 ntop6 a b] by metis

definition sample_ntop :: "'a::len word \<Rightarrow> string" where
  "sample_ntop x = nat_to_string (unat x)"

definition sample_pton :: "string \<Rightarrow> 'a::len word option" where
  "sample_pton s = Some (of_nat (decimal_value s))"

lemma netaddr_roundtrip_witness:
  "NetAddr_addr sample_ntop sample_ntop (NetAddr_port 8000 True False) \<noteq>
   NetAddr_addr sample_ntop sample_ntop (NetAddr_port 8001 True False)"
proof -
  have re: "\<forall>x. sample_pton (sample_ntop x) = Some x"
    by (simp add: sample_pton_def sample_ntop_def decimal_value_to_string)
  let ?a = "NetAddr_port 8000 True False" and ?b = "NetAddr_port 8001 True False"
  have "net_addr_wf ?a" "net_addr_wf ?b" "na_family ?b = na_family ?a"
    by (simp_all add: net_addr_wf_def NetAddr_port_def NetAddr_empty_def)
  moreover have "?a \<noteq> ?b"
    by (simp add: NetAddr_port_def NetAddr_empty_def htons_def)
  ultimately show ?thesis
    using netaddr_roundtrip [OF re re, of ?a ?b] by simp
qed

section \<open>The connector between its steps\<close>

text \<open>
  A connector at rest, with no channel, and one that waits for the outcome of a connect on \<open>fd\<close>,
  whose channel is registered for writability. Identities from \<open>ct_next\<close> on are unused.
\<close>

definition connector_fresh :: "connector \<Rightarrow> bool" where
  "connector_fresh c \<longleftrightarrow> (\<forall>e \<ge> ct_next c. pw_store (ct_pw c) e = None)"

definition connector_idle :: "connector \<Rightarrow> bool" where
  "connector_idle c \<longleftrightarrow> (\<exists>cs. poller_rep (ct_pw c) cs) \<and> slots_live (ct_pw c) \<and> connector_fresh c \<and>
     ct_state c = CtDisconnected \<and> ct_channel c = None \<and> ct_resets c = 0 \<and> \<not> ct_toQuit c"

definition connector_channel :: "connector \<Rightarrow> connector_handler channel option" where
  "connector_channel c = Option.bind (ct_channel c) (pw_store (ct_pw c))"

definition connector_trying :: "int \<Rightarrow> connector \<Rightarrow> bool" where
  "connector_trying fd c \<longleftrightarrow>
     (\<exists>cs d. poller_rep (ct_pw c) cs \<and> d \<in> set cs \<and> ct_channel c = Some d \<and> d < ct_next c) \<and>
     slots_live (ct_pw c) \<and> connector_fresh c \<and>
     ct_state c = CtConnecting \<and> ct_resets c = 0 \<and> \<not> ct_toQuit c \<and>
     (\<exists>ch. connector_channel c = Some ch \<and> ch_fd ch = fd \<and> ch_readCb ch = None \<and> ch_closeCb ch = None \<and>
        ch_writeCb ch = Some CtHandleWrite \<and> ch_errorCb ch = Some CtHandleError)"

lemma connector_fresh_not_registered:
  assumes "poller_rep (ct_pw c) cs" "connector_fresh c"
  shows "ct_next c \<notin> set cs"
proof
  assume "ct_next c \<in> set cs"
  then obtain i where "i < length cs" "cs ! i = ct_next c" by (auto simp: in_set_conv_nth)
  with poller_rep_slot [OF assms(1)] assms(2) show False
    by (metis connector_fresh_def option.distinct(1) order_refl)
qed

lemma Connector_connected_idle:
  assumes idle: "connector_idle c" and fd: "0 \<le> fd" "fd \<notin> dom (pw_map (ct_pw c))"
  shows "\<exists>w d. Connector_connected fd c =
       Inr (c\<lparr>ct_state := CtConnecting, ct_channel := Some d, ct_next := Suc d, ct_pw := w\<rparr>) \<and>
     connector_trying fd (c\<lparr>ct_state := CtConnecting, ct_channel := Some d, ct_next := Suc d, ct_pw := w\<rparr>) \<and>
     kernel_watch (pw_fds w) = (kernel_watch (pw_fds (ct_pw c)))(fd \<mapsto> 4)"
proof -
  obtain cs where rep: "poller_rep (ct_pw c) cs" and live: "slots_live (ct_pw c)" and fresh: "connector_fresh c"
    and c: "ct_channel c = None" "ct_resets c = 0" "\<not> ct_toQuit c"
    using idle by (auto simp: connector_idle_def)
  let ?d = "ct_next c"
  let ?ch = "Channel_setErrorCallback CtHandleError (Channel_setWriteCallback CtHandleWrite (Channel_new fd))"
  let ?w0 = "(ct_pw c)\<lparr>pw_store := (pw_store (ct_pw c))(?d \<mapsto> ?ch)\<rparr>"
  have rep0: "poller_rep ?w0 cs"
    using rep_store_other [OF rep connector_fresh_not_registered [OF rep fresh]] .
  have live0: "slots_live ?w0" using live by (simp add: slots_live_def)
  have ch: "ch_idxPoll ?ch < 0" "ch_fd ?ch = fd" "mask_enableWriting (ch_events ?ch) = 4"
    "ch_readCb ?ch = None" "ch_closeCb ?ch = None" "ch_writeCb ?ch = Some CtHandleWrite"
    "ch_errorCb ?ch = Some CtHandleError"
    by (simp_all add: Channel_new_def Channel_setWriteCallback_def Channel_setErrorCallback_def
        mask_enableWriting_def kWritePollEvent_def)
  have mask: "(4 :: 32 word) \<in> event_masks" by (simp add: event_masks_def event_defs)
  obtain w i where w: "Channel_setMask mask_enableWriting ?w0 ?d = Inr w" "poller_rep w (cs @ [?d])" "slots_live w"
    "pw_store w = (pw_store ?w0)(?d \<mapsto> ?ch\<lparr>ch_events := 4, ch_idxPoll := i\<rparr>)"
    "kernel_watch (pw_fds w) = (kernel_watch (pw_fds ?w0))(fd \<mapsto> ucast (4 :: 32 word))"
    using poller.add_law [OF rep0 live0 _ ch(1), of ?d mask_enableWriting] fd ch(2,3) mask by auto
  let ?c1 = "c\<lparr>ct_state := CtConnecting, ct_channel := Some ?d, ct_next := Suc ?d, ct_pw := w\<rparr>"
  have "Connector_connected fd c = Inr ?c1"
    using w(1) c(1) by (simp add: Connector_connected_def Channel_enableWriting_def Let_def)
  moreover have "connector_trying fd ?c1"
    using w(2,3,4) c fresh ch
    by (auto simp: connector_trying_def connector_channel_def connector_fresh_def)
  ultimately show ?thesis using w(5) by auto
qed

text \<open>After \<^verbatim>\<open>removeChannel\<close> the channel object lives on, unregistered, until the queued reset.\<close>

lemma Connector_removeChannel_trying:
  assumes trying: "connector_trying fd c" and ch: "connector_channel c = Some ch"
  shows "\<exists>w cs1 d ch1. Connector_removeChannel c = Inr (fd, c\<lparr>ct_pw := w, ct_resets := Suc (ct_resets c)\<rparr>) \<and>
     poller_rep w cs1 \<and> slots_live w \<and> ct_channel c = Some d \<and> d \<notin> set cs1 \<and>
     pw_store w d = Some ch1 \<and> ch_revents ch1 = ch_revents ch \<and> ch_writeCb ch1 = Some CtHandleWrite \<and>
     ch_readCb ch1 = None \<and> (\<forall>e \<ge> ct_next c. pw_store w e = None) \<and>
     dom (pw_map w) = dom (pw_map (ct_pw c)) - {fd} \<and>
     kernel_watch (pw_fds w) = (kernel_watch (pw_fds (ct_pw c)))(fd := None)"
proof -
  obtain cs d where cs: "poller_rep (ct_pw c) cs" "d \<in> set cs" "ct_channel c = Some d" "d < ct_next c"
    and live: "slots_live (ct_pw c)" and fresh: "connector_fresh c"
    and ch': "ch_fd ch = fd" "ch_readCb ch = None" "ch_writeCb ch = Some CtHandleWrite"
    using trying ch by (auto simp: connector_trying_def)
  have st: "pw_store (ct_pw c) d = Some ch" using ch cs(3) by (simp add: connector_channel_def)
  obtain w cs1 where w: "bindR (Channel_setMask (\<lambda>_. kEmptyEvent) (ct_pw c) d) (\<lambda>w. Channel_remove w d) = Inr w"
    "poller_rep w cs1" "slots_live w" "set cs1 = set cs - {d}" "dom (pw_map w) = dom (pw_map (ct_pw c)) - {ch_fd ch}"
    and obj: "\<forall>e. \<exists>i. pw_store w e = map_option (\<lambda>dh. dh\<lparr>ch_idxPoll := i\<rparr>)
       (((pw_store (ct_pw c))(d \<mapsto> ch\<lparr>ch_events := 0\<rparr>)) e)"
    and watch: "kernel_watch (pw_fds w) = (kernel_watch (pw_fds (ct_pw c)))(ch_fd ch := None)"
    using poller.close_law [OF cs(1) live cs(2) st] by blast
  obtain i where i: "pw_store w d = Some (ch\<lparr>ch_events := 0, ch_idxPoll := i\<rparr>)"
    using obj by (metis fun_upd_same option.simps(9))
  have "pw_store w e = None" if "ct_next c \<le> e" for e
    using obj fresh that cs(4) by (metis connector_fresh_def fun_upd_other leD option.simps(8))
  moreover have "Connector_removeChannel c = Inr (fd, c\<lparr>ct_pw := w, ct_resets := Suc (ct_resets c)\<rparr>)"
    using w(1) cs(3) st ch'(1)
    by (simp add: Connector_removeChannel_def Channel_disableEvents_def bindR_assoc [symmetric])
  ultimately show ?thesis
    using w(2-5) i watch ch' cs(3)
    by (intro exI [of _ w] exI [of _ cs1] exI [of _ d] exI [of _ "ch\<lparr>ch_events := 0, ch_idxPoll := i\<rparr>"]) simp
qed

section \<open>Outcomes of a connect\<close>

lemma connector_reset_idle:
  assumes rep: "poller_rep (ct_pw c) cs" and live: "slots_live (ct_pw c)" and d: "ct_channel c = Some d" "d \<notin> set cs"
    and fresh: "\<forall>e \<ge> ct_next c. pw_store (ct_pw c) e = None"
    and st: "ct_state c = CtDisconnected" "ct_resets c = Suc 0" "\<not> ct_toQuit c"
  shows "connector_idle (Connector_reset c) \<and> pw_map (ct_pw (Connector_reset c)) = pw_map (ct_pw c) \<and>
     pw_fds (ct_pw (Connector_reset c)) = pw_fds (ct_pw c)"
proof -
  let ?w = "(ct_pw c)\<lparr>pw_store := (pw_store (ct_pw c))(d := None)\<rparr>"
  have "poller_rep ?w cs" using rep_store_other [OF rep d(2)] .
  then have "\<exists>cs. poller_rep ?w cs" ..
  moreover have "slots_live ?w" using live by (simp add: slots_live_def)
  ultimately show ?thesis
    using d st fresh by (simp add: Connector_reset_def connector_idle_def connector_fresh_def)
qed

lemma connector_dispatch_error:
  assumes trying: "connector_trying fd c" and d: "ct_channel c = Some d" and ch: "connector_channel c = Some ch"
    and err: "ch_revents ch AND 40 \<noteq> 0"
  shows "\<exists>w. let c1 = Connector_retry fd (c\<lparr>ct_pw := w, ct_resets := 1\<rparr>) in
     connector_dispatch sockopt d c = Inr c1 \<and> connector_idle (Connector_reset c1) \<and>
     dom (pw_map (ct_pw (Connector_reset c1))) = dom (pw_map (ct_pw c)) - {fd} \<and>
     pw_fds (ct_pw (Connector_reset c1)) = pw_fds w \<and>
     kernel_watch (pw_fds w) = (kernel_watch (pw_fds (ct_pw c)))(fd := None)"
proof -
  obtain w cs1 d' ch1 where w:
    "Connector_removeChannel c = Inr (fd, c\<lparr>ct_pw := w, ct_resets := Suc (ct_resets c)\<rparr>)"
    "poller_rep w cs1" "slots_live w" "ct_channel c = Some d'" "d' \<notin> set cs1" "pw_store w d' = Some ch1"
    "ch_revents ch1 = ch_revents ch" "ch_writeCb ch1 = Some CtHandleWrite" "ch_readCb ch1 = None" "\<forall>e \<ge> ct_next c. pw_store w e = None"
    "dom (pw_map w) = dom (pw_map (ct_pw c)) - {fd}"
    "kernel_watch (pw_fds w) = (kernel_watch (pw_fds (ct_pw c)))(fd := None)"
    using Connector_removeChannel_trying [OF trying ch] by (elim exE conjE) (rule that)
  have c: "ct_state c = CtConnecting" "ct_resets c = 0" "\<not> ct_toQuit c" "ch_closeCb ch = None"
    "ch_errorCb ch = Some CtHandleError" "pw_store (ct_pw c) d = Some ch" "d' = d"
    using trying ch d w(4) by (auto simp: connector_trying_def connector_channel_def)
  let ?c1 = "Connector_retry fd (c\<lparr>ct_pw := w, ct_resets := 1\<rparr>)"
  have c1: "ct_pw ?c1 = w" "ct_state ?c1 = CtDisconnected" "ct_resets ?c1 = Suc 0" "\<not> ct_toQuit ?c1"
    "ct_channel ?c1 = Some d" "ct_next ?c1 = ct_next c"
    using c d by (simp_all add: Connector_retry_def)
  have "Connector_handleError c = Inr ?c1" using w(1) c by (simp add: Connector_handleError_def)
  then have "connector_dispatch sockopt d c = Inr ?c1"
    using c w(6-9) c1 err
    by (simp add: connector_dispatch_def Channel_handleEvent_def Channel_fire_def revents_error_def event_defs
        Connector_handleWrite_def)
  moreover have "connector_idle (Connector_reset ?c1) \<and> pw_map (ct_pw (Connector_reset ?c1)) = pw_map (ct_pw ?c1) \<and>
     pw_fds (ct_pw (Connector_reset ?c1)) = pw_fds (ct_pw ?c1)"
    by (rule connector_reset_idle [where d = d and cs = cs1]) (use w c1 c in simp_all)
  ultimately show ?thesis
    using w c1 by (intro exI [of _ w]) (simp add: Let_def)
qed

lemma connector_dispatch_write:
  assumes trying: "connector_trying fd c" and d: "ct_channel c = Some d" and ch: "connector_channel c = Some ch"
    and rev: "ch_revents ch AND 40 = 0" "ch_revents ch AND 4 \<noteq> 0"
    and err: "0 \<le> getSocketErrno sockopt" and cb: "\<not> ct_default c"
  shows "\<exists>w. connector_dispatch sockopt d c =
       Inr (c\<lparr>ct_pw := w, ct_resets := 1, ct_state := CtConnected, ct_handed := ct_handed c @ [fd]\<rparr>) \<and>
     kernel_watch (pw_fds w) = (kernel_watch (pw_fds (ct_pw c)))(fd := None)"
proof -
  obtain w where w:
    "Connector_removeChannel c = Inr (fd, c\<lparr>ct_pw := w, ct_resets := Suc (ct_resets c)\<rparr>)"
    "kernel_watch (pw_fds w) = (kernel_watch (pw_fds (ct_pw c)))(fd := None)"
    using Connector_removeChannel_trying [OF trying ch] by blast
  have c: "ct_state c = CtConnecting" "ct_resets c = 0" "\<not> ct_toQuit c" "ch_closeCb ch = None"
    "ch_readCb ch = None" "ch_writeCb ch = Some CtHandleWrite" "pw_store (ct_pw c) d = Some ch"
    using trying ch d by (auto simp: connector_trying_def connector_channel_def)
  have "Connector_handleWrite sockopt c =
      Inr (c\<lparr>ct_pw := w, ct_resets := 1, ct_state := CtConnected, ct_handed := ct_handed c @ [fd]\<rparr>)"
    using w(1) c err cb by (simp add: Connector_handleWrite_def)
  then show ?thesis
    using c rev w(2)
    by (intro exI [of _ w]) (simp add: connector_dispatch_def Channel_handleEvent_def Channel_fire_def
        revents_error_def revents_write_def event_defs)
qed

text \<open>A connector that waits for the connect of descriptor 5 and has the report \<open>r\<close> for it.\<close>

definition sample_connector :: "32 word \<Rightarrow> connector" where
  "sample_connector r =
     (let ch = \<lparr>ch_fd = 5, ch_events = 4, ch_revents = r, ch_idxPoll = 0, ch_readCb = None,
        ch_writeCb = Some CtHandleWrite, ch_closeCb = None, ch_errorCb = Some CtHandleError\<rparr>
      in \<lparr>ct_pw = \<lparr>pw_store = [0 \<mapsto> ch], pw_map = [5 \<mapsto> 0],
            pw_fds = [\<lparr>pf_fd = 5, pf_events = 4, pf_revents = ucast r\<rparr>], pw_sameThread = True\<rparr>,
          ct_channel = Some 0, ct_next = 1, ct_state = CtConnecting, ct_toQuit = False, ct_retrySec = 1,
          ct_timers = [], ct_resets = 0, ct_default = False, ct_handed = [], ct_closed = []\<rparr>)"

lemma sample_connector_trying: "connector_trying 5 (sample_connector r)"
proof -
  have "poller_rep (ct_pw (sample_connector r)) [0]"
    by (simp add: sample_connector_def poller_rep_def slot_ok_def event_masks_def event_defs)
  then have "\<exists>cs d. poller_rep (ct_pw (sample_connector r)) cs \<and> d \<in> set cs \<and>
      ct_channel (sample_connector r) = Some d \<and> d < ct_next (sample_connector r)"
    by (intro exI [of _ "[0]"] exI [of _ 0]) (simp add: sample_connector_def)
  then show ?thesis
    by (simp add: connector_trying_def connector_channel_def connector_fresh_def slots_live_def sample_connector_def)
qed

lemma sample_connector_fields:
  "ct_channel (sample_connector r) = Some 0" "ct_default (sample_connector r) = False"
  "ct_retrySec (sample_connector r) = 1" "ct_timers (sample_connector r) = []"
  "ct_closed (sample_connector r) = []" "ct_handed (sample_connector r) = []"
  "dom (pw_map (ct_pw (sample_connector r))) = {5}"
  "\<exists>ch. connector_channel (sample_connector r) = Some ch \<and> ch_revents ch = r"
  by (auto simp: sample_connector_def connector_channel_def)

text \<open>C19. A report with an error bit for a connecting socket ends the attempt: the descriptor is
  closed and no longer watched, nothing is handed over, and exactly one retry is scheduled after
  the current delay, which then doubles up to 30 seconds (the write callback that the same report
  may trigger is ignored). And the retry works: after the queued reset of the channel, the timer's
  \<^verbatim>\<open>startTask\<close> with a pending connect on a new descriptor makes the connector wait for that one,
  watched for writability, with all the other descriptors watched as before.\<close>

theorem failed_connect_retries:
  assumes "connector_trying fd c" and "ct_channel c = Some d" and "connector_channel c = Some ch"
    and "ch_revents ch AND 40 \<noteq> 0"
    and "0 \<le> fd2" "fd2 = fd \<or> fd2 \<notin> dom (pw_map (ct_pw c))" "err \<in> connect_pending"
  shows "\<exists>c1 c2. connector_dispatch sockopt d c = Inr c1 \<and> ct_state c1 = CtDisconnected \<and>
     ct_closed c1 = ct_closed c @ [fd] \<and> ct_handed c1 = ct_handed c \<and>
     ct_timers c1 = ct_timers c @ [ct_retrySec c] \<and> ct_retrySec c1 = min (2 * ct_retrySec c) 30 \<and>
     kernel_watch (pw_fds (ct_pw c1)) = (kernel_watch (pw_fds (ct_pw c)))(fd := None) \<and>
     Connector_startTask fd2 err (Connector_reset c1) = Inr c2 \<and> connector_trying fd2 c2 \<and>
     kernel_watch (pw_fds (ct_pw c2)) = (kernel_watch (pw_fds (ct_pw c)))(fd := None, fd2 \<mapsto> 4)"
proof -
  obtain w where w:
    "connector_dispatch sockopt d c = Inr (Connector_retry fd (c\<lparr>ct_pw := w, ct_resets := 1\<rparr>))"
    "connector_idle (Connector_reset (Connector_retry fd (c\<lparr>ct_pw := w, ct_resets := 1\<rparr>)))"
    "dom (pw_map (ct_pw (Connector_reset (Connector_retry fd (c\<lparr>ct_pw := w, ct_resets := 1\<rparr>))))) =
       dom (pw_map (ct_pw c)) - {fd}"
    "pw_fds (ct_pw (Connector_reset (Connector_retry fd (c\<lparr>ct_pw := w, ct_resets := 1\<rparr>)))) = pw_fds w"
    "kernel_watch (pw_fds w) = (kernel_watch (pw_fds (ct_pw c)))(fd := None)"
    using connector_dispatch_error [OF assms(1-4), of sockopt] unfolding Let_def by blast
  let ?c1 = "Connector_retry fd (c\<lparr>ct_pw := w, ct_resets := 1\<rparr>)"
  have free: "fd2 \<notin> dom (pw_map (ct_pw (Connector_reset ?c1)))" using w(3) assms(6) by blast
  obtain w2 d2 where w2: "Connector_connected fd2 (Connector_reset ?c1) =
       Inr ((Connector_reset ?c1)\<lparr>ct_state := CtConnecting, ct_channel := Some d2, ct_next := Suc d2, ct_pw := w2\<rparr>)"
     "connector_trying fd2 ((Connector_reset ?c1)\<lparr>ct_state := CtConnecting, ct_channel := Some d2, ct_next := Suc d2, ct_pw := w2\<rparr>)"
     "kernel_watch (pw_fds w2) = (kernel_watch (pw_fds (ct_pw (Connector_reset ?c1))))(fd2 \<mapsto> 4)"
    using Connector_connected_idle [OF w(2) assms(5) free] by blast
  have "pw_sameThread (ct_pw (Connector_reset ?c1))" "ct_state (Connector_reset ?c1) = CtDisconnected"
    "\<not> ct_toQuit (Connector_reset ?c1)"
    using w(2) by (auto simp: connector_idle_def poller_rep_def)
  then have "Connector_startTask fd2 err (Connector_reset ?c1) = Connector_connected fd2 (Connector_reset ?c1)"
    using assms(7) by (simp add: Connector_startTask_def EventLoop_assertTheSameThread_def)
  moreover have "\<not> ct_toQuit c" using assms(1) by (simp add: connector_trying_def)
  then have "ct_state ?c1 = CtDisconnected" "ct_closed ?c1 = ct_closed c @ [fd]" "ct_handed ?c1 = ct_handed c"
    "ct_timers ?c1 = ct_timers c @ [ct_retrySec c]" "ct_retrySec ?c1 = min (2 * ct_retrySec c) 30" "ct_pw ?c1 = w"
    by (simp_all add: Connector_retry_def kMaxRetrySec_def)
  ultimately show ?thesis
    using w(1,4,5) w2
    by (intro exI [of _ ?c1] exI [of _ "(Connector_reset ?c1)\<lparr>ct_state := CtConnecting,
        ct_channel := Some d2, ct_next := Suc d2, ct_pw := w2\<rparr>"]) simp
qed

lemma failed_connect_retries_witness:
  "\<exists>c1 c2. connector_dispatch (Inr 111) 0 (sample_connector 12) = Inr c1 \<and>
     ct_closed c1 = [5] \<and> ct_timers c1 = [1] \<and> ct_retrySec c1 = 2 \<and> ct_handed c1 = [] \<and>
     Connector_startTask 5 115 (Connector_reset c1) = Inr c2 \<and> connector_trying 5 c2"
proof -
  obtain ch where "connector_channel (sample_connector 12) = Some ch" "ch_revents ch = 12"
    using sample_connector_fields(8) by blast
  with failed_connect_retries [OF sample_connector_trying sample_connector_fields(1), of 12 ch 5 115 "Inr 111"]
  show ?thesis by (auto simp: connect_pending_def sample_connector_fields)
qed

text \<open>C36. A writability report without an error bit hands the descriptor over whatever error
  \<^verbatim>\<open>getSocketErrno\<close> finds on it: errors are positive, and the test is for a negative one. Also
  a refused connect (111) counts as established.\<close>

theorem pending_error_handed_over:
  assumes "connector_trying fd c" and "ct_channel c = Some d" and "connector_channel c = Some ch"
    and "ch_revents ch AND 40 = 0" "ch_revents ch AND 4 \<noteq> 0" and "\<not> ct_default c"
    and "0 \<le> e" "sockopt = Inr e \<or> sockopt = Inl e"
  shows "\<exists>c1. connector_dispatch sockopt d c = Inr c1 \<and> ct_state c1 = CtConnected \<and>
     ct_handed c1 = ct_handed c @ [fd] \<and> ct_closed c1 = ct_closed c \<and> ct_timers c1 = ct_timers c \<and>
     kernel_watch (pw_fds (ct_pw c1)) = (kernel_watch (pw_fds (ct_pw c)))(fd := None)"
proof -
  have "0 \<le> getSocketErrno sockopt" using assms(7,8) by (auto simp: getSocketErrno_def)
  from connector_dispatch_write [OF assms(1-5) this assms(6)] show ?thesis by auto
qed

lemma pending_error_handed_over_witness:
  "\<exists>c1. connector_dispatch (Inr 111) 0 (sample_connector 4) = Inr c1 \<and> ct_handed c1 = [5] \<and> ct_closed c1 = []"
proof -
  obtain ch where "connector_channel (sample_connector 4) = Some ch" "ch_revents ch = 4"
    using sample_connector_fields(8) by blast
  with pending_error_handed_over [OF sample_connector_trying sample_connector_fields(1), of 4 ch 111 "Inr 111"]
  show ?thesis by (auto simp: sample_connector_fields)
qed

text \<open>Successive attempts, each with its descriptor and the outcome of \<^verbatim>\<open>connect\<close>.\<close>

fun Connector_attempts :: "(int \<times> int) list \<Rightarrow> connector \<Rightarrow> connector res" where
  "Connector_attempts [] c = Inr c"
| "Connector_attempts ((fd, err) # as) c = bindR (Connector_startTask fd err c) (Connector_attempts as)"

lemma Connector_attempts_fail:
  assumes "\<forall>(fd, err) \<in> set as. err \<in> connect_retryable"
    and "pw_sameThread (ct_pw c)" "ct_state c = CtDisconnected" "\<not> ct_toQuit c"
    and "ct_retrySec c = min (2 ^ k) 30"
  shows "\<exists>c1. Connector_attempts as c = Inr c1 \<and> ct_closed c1 = ct_closed c @ map fst as \<and>
     ct_timers c1 = ct_timers c @ map (\<lambda>i. min (2 ^ (k + i)) 30) [0..<length as] \<and>
     ct_handed c1 = ct_handed c \<and> ct_pw c1 = ct_pw c"
  using assms
proof (induction as arbitrary: c k)
  case (Cons a as)
  obtain fd err where a: "a = (fd, err)" by (cases a)
  let ?c1 = "Connector_retry fd c"
  have pend: "err \<notin> connect_pending" "err \<in> connect_retryable"
    using Cons.prems(1) a by (auto simp: connect_pending_def connect_retryable_def)
  then have step: "Connector_startTask fd err c = Inr ?c1"
    using Cons.prems by (simp add: Connector_startTask_def EventLoop_assertTheSameThread_def)
  have c1: "pw_sameThread (ct_pw ?c1)" "ct_state ?c1 = CtDisconnected" "\<not> ct_toQuit ?c1"
    "ct_retrySec ?c1 = min (2 ^ Suc k) 30" "ct_closed ?c1 = ct_closed c @ [fd]"
    "ct_timers ?c1 = ct_timers c @ [min (2 ^ k) 30]" "ct_handed ?c1 = ct_handed c" "ct_pw ?c1 = ct_pw c"
    using Cons.prems by (simp_all add: Connector_retry_def kMaxRetrySec_def)
  have "[0..<length (a # as)] = 0 # map Suc [0..<length as]" by (simp add: map_Suc_upt upt_conv_Cons del: upt_Suc)
  then have "map (\<lambda>i. min (2 ^ (k + i)) 30) [0..<length (a # as)] =
      min (2 ^ k) 30 # map (\<lambda>i. min (2 ^ (Suc k + i)) (30 :: nat)) [0..<length as]"
    by (simp add: comp_def del: upt_Suc)
  with Cons.IH [OF _ c1(1-4)] Cons.prems(1) c1(5-8) step a show ?case by auto
qed simp

text \<open>C32. When every connect of a new connector fails at once with one of the errors that
  \<^verbatim>\<open>startTask\<close> retries (\<open>connect_retryable\<close>; for the others see \<open>connect_error_leaks\<close>), the delays are
  1, 2, 4, 8, 16 and then always 30 seconds: the \<open>i\<close>-th one is \<open>2 ^ i\<close> capped at 30, one per attempt,
  and the descriptor of each attempt is closed, none handed over.\<close>

theorem retry_backoff:
  assumes "\<forall>(fd, err) \<in> set as. err \<in> connect_retryable" and "pw_sameThread w"
  shows "\<exists>c1. Connector_attempts as (Connector_new w d) = Inr c1 \<and> ct_closed c1 = map fst as \<and>
     ct_timers c1 = map (\<lambda>i. min (2 ^ i) 30) [0..<length as] \<and> ct_handed c1 = []"
  using Connector_attempts_fail [of as "Connector_new w d" 0] assms
  by (auto simp: Connector_new_def kInitRetrySec_def)

lemma retry_backoff_witness:
  "\<exists>c1. Connector_attempts [(5, 111), (6, 110), (5, 111), (7, 101), (5, 111), (5, 99), (5, 11)]
      (Connector_new PollPoller_new 0) = Inr c1 \<and> ct_timers c1 = [1, 2, 4, 8, 16, 30, 30]"
  using retry_backoff [of "[(5, 111), (6, 110), (5, 111), (7, 101), (5, 111), (5, 99), (5, 11)]" PollPoller_new 0]
  by (auto simp: connect_retryable_def PollPoller_new_def upt_rec numeral_eq_Suc)

section \<open>The acceptor's descriptors\<close>

text \<open>
  One readiness of the listening socket: the outcome of the first accept, and, for when that is
  \<^verbatim>\<open>ENFILE\<close>, of the second accept and of reopening the idle descriptor.
\<close>

type_synonym accept_event = "(int + int) \<times> (int + int) \<times> int"

fun Acceptor_accepts :: "accept_event list \<Rightarrow> acceptor \<Rightarrow> acceptor res" where
  "Acceptor_accepts [] a = Inr a"
| "Acceptor_accepts ((first, again, reopened) # es) a =
     bindR (Acceptor_handleAccept first again reopened a) (Acceptor_accepts es)"

definition result_fds :: "int + int \<Rightarrow> int multiset" where
  "result_fds r = (case r of Inl _ \<Rightarrow> {#} | Inr fd \<Rightarrow> {#fd#})"

text \<open>The descriptors the kernel gives out in one event, and those taken by its first accept.\<close>

fun event_fds :: "accept_event \<Rightarrow> int multiset" where
  "event_fds (first, again, reopened) =
     result_fds first + (if first = Inl 23 then add_mset reopened (result_fds again) else {#})"

fun event_accepted :: "accept_event \<Rightarrow> int list" where
  "event_accepted (first, again, reopened) = (case first of Inl _ \<Rightarrow> [] | Inr fd \<Rightarrow> [fd])"

definition result_ok :: "int + int \<Rightarrow> bool" where
  "result_ok r \<longleftrightarrow> (case r of Inl _ \<Rightarrow> True | Inr fd \<Rightarrow> 0 \<le> fd)"

fun event_ok :: "accept_event \<Rightarrow> bool" where
  "event_ok (first, again, reopened) \<longleftrightarrow> result_ok first \<and> result_ok again \<and> (first = Inl 23 \<longrightarrow> 0 \<le> reopened)"

text \<open>The descriptors an acceptor is responsible for or has given away or closed.\<close>

definition acceptor_fds :: "acceptor \<Rightarrow> int multiset" where
  "acceptor_fds a = add_mset (ac_idleFd a) (filter_mset (\<lambda>fd. 0 \<le> fd) (mset (ac_handed a @ ac_closed a)))"

lemma Acceptor_handleAccept_fds:
  assumes "event_ok (first, again, reopened)" "pw_sameThread (ac_pw a)" "0 \<le> ac_idleFd a"
  shows "\<exists>a1. Acceptor_handleAccept first again reopened a = Inr a1 \<and>
     acceptor_fds a1 = acceptor_fds a + event_fds (first, again, reopened) \<and>
     ac_handed a1 = ac_handed a @ (if ac_callback a then event_accepted (first, again, reopened) else []) \<and>
     ac_pw a1 = ac_pw a \<and> ac_callback a1 = ac_callback a \<and> 0 \<le> ac_idleFd a1"
  using assms
  by (cases first; cases again)
    (auto simp: Acceptor_handleAccept_def EventLoop_assertTheSameThread_def accept_fd_def acceptor_fds_def
      result_fds_def result_ok_def Let_def)

lemma Acceptor_accepts_fds:
  assumes "\<forall>e \<in> set es. event_ok e" "pw_sameThread (ac_pw a)" "0 \<le> ac_idleFd a"
  shows "\<exists>a1. Acceptor_accepts es a = Inr a1 \<and> acceptor_fds a1 = acceptor_fds a + sum_list (map event_fds es) \<and>
     ac_handed a1 = ac_handed a @ (if ac_callback a then concat (map event_accepted es) else []) \<and>
     ac_pw a1 = ac_pw a \<and> 0 \<le> ac_idleFd a1"
  using assms
proof (induction es arbitrary: a)
  case (Cons e es)
  obtain first again reopened where e: "e = (first, again, reopened)" by (cases e)
  with Cons.prems have "event_ok (first, again, reopened)" by simp
  from Acceptor_handleAccept_fds [OF this Cons.prems(2,3)] obtain a1 where a1:
    "Acceptor_handleAccept first again reopened a = Inr a1"
    "acceptor_fds a1 = acceptor_fds a + event_fds e"
    "ac_handed a1 = ac_handed a @ (if ac_callback a then event_accepted e else [])"
    "ac_pw a1 = ac_pw a" "ac_callback a1 = ac_callback a" "0 \<le> ac_idleFd a1"
    using e by blast
  obtain a2 where a2: "Acceptor_accepts es a1 = Inr a2"
    "acceptor_fds a2 = acceptor_fds a1 + sum_list (map event_fds es)"
    "ac_handed a2 = ac_handed a1 @ (if ac_callback a1 then concat (map event_accepted es) else [])"
    "ac_pw a2 = ac_pw a1" "0 \<le> ac_idleFd a2"
    using Cons.IH [of a1] Cons.prems(1,2) a1(4,6) by auto
  from a1 a2 show ?case by (simp add: e del: event_fds.simps event_accepted.simps)
qed simp

text \<open>No descriptor is lost or closed twice by an acceptor: over any sequence of readiness
  events, with any failures of \<^verbatim>\<open>accept\<close>, the ones handed over, the ones closed and the idle
  one make up exactly those the kernel gave out; with a callback the accepted connections are
  handed over in order, and the listening channel is left as it was. (For any \<^verbatim>\<open>errno\<close>
  other than \<^verbatim>\<open>ENFILE\<close>, that of a process out of descriptors (24) among them, an event
  changes nothing.)\<close>

theorem acceptor_keeps_descriptors:
  assumes "\<forall>e \<in> set es. event_ok e" and "pw_sameThread (ac_pw a)" "0 \<le> ac_idleFd a"
  shows "(\<exists>a1. Acceptor_accepts es a = Inr a1 \<and> acceptor_fds a1 = acceptor_fds a + sum_list (map event_fds es) \<and>
       ac_handed a1 = ac_handed a @ (if ac_callback a then concat (map event_accepted es) else []) \<and>
       ac_pw a1 = ac_pw a \<and> 0 \<le> ac_idleFd a1) \<and>
     (\<forall>errno. errno \<noteq> 23 \<longrightarrow> Acceptor_handleAccept (Inl errno) again reopened a = Inr a)"
  using Acceptor_accepts_fds [OF assms] assms(2)
  by (simp add: Acceptor_handleAccept_def EventLoop_assertTheSameThread_def accept_fd_def)

lemma acceptor_keeps_descriptors_witness:
  "\<exists>a a1. Acceptor_new PollPoller_new 0 3 4 True = Inr a \<and>
     Acceptor_accepts [(Inr 5, Inl 11, 0), (Inl 23, Inr 3, 3), (Inl 24, Inl 0, 0), (Inr 6, Inl 11, 0)] a = Inr a1 \<and>
     ac_handed a1 = [5, 6] \<and> acceptor_fds a1 = {#3, 3, 3, 5, 6#}"
proof -
  let ?es = "[(Inr 5, Inl 11, 0), (Inl 23, Inr 3, 3), (Inl 24, Inl 0, 0), (Inr 6, Inl 11, 0)] :: accept_event list"
  obtain a where a: "Acceptor_new PollPoller_new 0 3 4 True = Inr a" "pw_sameThread (ac_pw a)" "ac_idleFd a = 3"
    "ac_callback a" "ac_handed a = []" "acceptor_fds a = {#3#}"
    by (simp add: Acceptor_new_def PollPoller_new_def acceptor_fds_def)
  have "\<forall>e \<in> set ?es. event_ok e" by (simp add: result_ok_def)
  from acceptor_keeps_descriptors [OF this a(2), of "Inl 0" 0] a show ?thesis
    by (auto simp: result_fds_def add_mset_commute)
qed

end
