(* ===== verification/Lotta_Socket.thy ===== *)
theory Lotta_Socket
  imports Lotta_Net
begin

text \<open>
  The system calls of the library: the free functions of \<^verbatim>\<open>lotta::socket\<close> and the class
  \<^verbatim>\<open>Socket\<close> (\<^verbatim>\<open>include/lotta/socket.h\<close>, \<^verbatim>\<open>src/socket.cc\<close>), and the parts of \<^verbatim>\<open>Acceptor\<close>,
  \<^verbatim>\<open>Connector\<close> and \<^verbatim>\<open>EventLoop\<close> that make them; and the ids of threads.

  The kernel is a parameter: a function from the calls made so far and the new call to its answer.
  The state is the history of the calls, \<^verbatim>\<open>errno\<close>, and what the \<^verbatim>\<open>SPDLOG_ERRNO\<close> macros reported
  (\<^verbatim>\<open>strerror(errno)\<close> is kept as the number; other output is left out).
\<close>

section \<open>The kernel\<close>

datatype sock_option = ReuseAddr | ReusePort | KeepAlive | TcpNoDelay

datatype sys_call =
    SysRead int nat
  | SysWrite int string
  | SysClose int
  | SysShutdownWrite int
  | SysSocket "16 word"
  | SysConnect int net_addr
  | SysOpen string
  | SysGetSockName int
  | SysGetPeerName int
  | SysGetSoError int
  | SysListen int
  | SysBind int net_addr
  | SysAccept int
  | SysSetOption int sock_option int
  | SysEventFd
  | SysTimerFd

text \<open>The result is an \<^verbatim>\<open>errno\<close> or a value; the other components are out-parameters.\<close>

record sys_answer =
  an_ret :: "int + int"
  an_addr :: net_addr
  an_val :: int
  an_data :: string

type_synonym kernel = "sys_call list \<Rightarrow> sys_call \<Rightarrow> sys_answer"

datatype log_level = LogWarn | LogError

text \<open>What a message says beside the function and the error.\<close>

datatype log_extra = NoExtra | LogText string | LogFd int

type_synonym log_entry = "log_level \<times> string \<times> int \<times> log_extra"    \<comment> \<open>the number is \<^verbatim>\<open>errno\<close>\<close>

record sys =
  sy_calls :: "sys_call list"
  sy_errno :: int
  sy_log :: "log_entry list"

definition sys_init :: sys where
  "sys_init = \<lparr>sy_calls = [], sy_errno = 0, sy_log = []\<rparr>"

text \<open>A failing call returns \<open>-1\<close> and sets \<^verbatim>\<open>errno\<close>.\<close>

definition syscall :: "kernel \<Rightarrow> sys_call \<Rightarrow> sys \<Rightarrow> int \<times> sys_answer \<times> sys" where
  "syscall k call s =
     (let a = k (sy_calls s) call; s1 = s\<lparr>sy_calls := sy_calls s @ [call]\<rparr>
      in case an_ret a of
           Inl e \<Rightarrow> (-1, a, s1\<lparr>sy_errno := e\<rparr>)
         | Inr v \<Rightarrow> (v, a, s1))"

section \<open>Logging of failures\<close>

definition SPDLOG_ERRNO :: "string \<Rightarrow> sys \<Rightarrow> sys" where
  "SPDLOG_ERRNO fn s = s\<lparr>sy_log := sy_log s @ [(LogError, fn, sy_errno s, NoExtra)]\<rparr>"

definition SPDLOG_ERRNO_L :: "log_level \<Rightarrow> string \<Rightarrow> string \<Rightarrow> sys \<Rightarrow> sys" where
  "SPDLOG_ERRNO_L level text fn s = s\<lparr>sy_log := sy_log s @ [(level, fn, sy_errno s, LogText text)]\<rparr>"

definition SPDLOG_ERRNO_IF :: "bool \<Rightarrow> string \<Rightarrow> sys \<Rightarrow> sys" where
  "SPDLOG_ERRNO_IF condition fn s = (if condition then SPDLOG_ERRNO fn s else s)"

definition SPDLOG_ERRNO_IF_F :: "bool \<Rightarrow> log_extra \<Rightarrow> string \<Rightarrow> sys \<Rightarrow> sys" where
  "SPDLOG_ERRNO_IF_F condition extra fn s =
     (if condition then s\<lparr>sy_log := sy_log s @ [(LogError, fn, sy_errno s, extra)]\<rparr> else s)"

section \<open>Free functions\<close>

definition socket_read :: "kernel \<Rightarrow> int \<Rightarrow> nat \<Rightarrow> sys \<Rightarrow> int \<times> string \<times> sys" where
  "socket_read k fd n s = (let (r, a, s1) = syscall k (SysRead fd n) s in (r, an_data a, s1))"

definition socket_write :: "kernel \<Rightarrow> int \<Rightarrow> string \<Rightarrow> sys \<Rightarrow> int \<times> sys" where
  "socket_write k fd bs s = (let (r, _, s1) = syscall k (SysWrite fd bs) s in (r, s1))"

definition socket_close :: "kernel \<Rightarrow> int \<Rightarrow> sys \<Rightarrow> int \<times> sys" where
  "socket_close k fd s = (let (r, _, s1) = syscall k (SysClose fd) s in (r, s1))"

definition socket_socket :: "kernel \<Rightarrow> 16 word \<Rightarrow> sys \<Rightarrow> int \<times> sys" where
  "socket_socket k domain s = (let (r, _, s1) = syscall k (SysSocket domain) s in (r, s1))"

definition socket_connect :: "kernel \<Rightarrow> int \<Rightarrow> net_addr \<Rightarrow> sys \<Rightarrow> int \<times> sys" where
  "socket_connect k fd addr s = (let (r, _, s1) = syscall k (SysConnect fd addr) s in (r, s1))"

definition socket_open :: "kernel \<Rightarrow> string \<Rightarrow> sys \<Rightarrow> int \<times> sys" where
  "socket_open k path s = (let (r, _, s1) = syscall k (SysOpen path) s in (r, s1))"

definition socket_shutdownWrite :: "kernel \<Rightarrow> int \<Rightarrow> sys \<Rightarrow> int \<times> sys" where
  "socket_shutdownWrite k fd s =
     (let (n, _, s1) = syscall k (SysShutdownWrite fd) s
      in (n, SPDLOG_ERRNO_IF_F (n < 0) (LogFd fd) ''shutdownWrite'' s1))"

text \<open>\<^verbatim>\<open>addr\<close> is zero-initialised, and a failing call leaves it so.\<close>

definition socket_getSockName :: "kernel \<Rightarrow> int \<Rightarrow> sys \<Rightarrow> net_addr \<times> sys" where
  "socket_getSockName k fd s =
     (let (n, a, s1) = syscall k (SysGetSockName fd) s
      in (if n < 0 then NetAddr_empty else an_addr a, SPDLOG_ERRNO_IF_F (n < 0) (LogFd fd) ''getSockName'' s1))"

definition socket_getPeerName :: "kernel \<Rightarrow> int \<Rightarrow> sys \<Rightarrow> net_addr \<times> sys" where
  "socket_getPeerName k fd s =
     (let (n, a, s1) = syscall k (SysGetPeerName fd) s
      in (if n < 0 then NetAddr_empty else an_addr a, SPDLOG_ERRNO_IF_F (n < 0) (LogFd fd) ''getPeerName'' s1))"

definition socket_getSocketErrno :: "kernel \<Rightarrow> int \<Rightarrow> sys \<Rightarrow> int \<times> sys" where
  "socket_getSocketErrno k fd s =
     (let (n, a, s1) = syscall k (SysGetSoError fd) s
      in if n < 0 then (sy_errno s1, s1) else (an_val a, s1))"

section \<open>The class Socket\<close>

record socket =
  so_fd :: int

definition Socket_new :: "int \<Rightarrow> socket" where
  "Socket_new fd = \<lparr>so_fd = fd\<rparr>"

definition Socket_destroy :: "kernel \<Rightarrow> socket \<Rightarrow> sys \<Rightarrow> sys" where
  "Socket_destroy k so s = snd (socket_close k (so_fd so) s)"

definition Socket_listen :: "kernel \<Rightarrow> socket \<Rightarrow> sys \<Rightarrow> sys" where
  "Socket_listen k so s = (let (n, _, s1) = syscall k (SysListen (so_fd so)) s in SPDLOG_ERRNO_IF (n < 0) ''listen'' s1)"

definition Socket_bind :: "kernel \<Rightarrow> socket \<Rightarrow> net_addr \<Rightarrow> sys \<Rightarrow> sys" where
  "Socket_bind k so addr s =
     (let (n, _, s1) = syscall k (SysBind (so_fd so) addr) s in SPDLOG_ERRNO_IF (n < 0) ''bind'' s1)"

text \<open>\<^verbatim>\<open>EAGAIN, ENETDOWN, EPROTO, ENOPROTOOPT, EHOSTDOWN, ENONET, EHOSTUNREACH, EOPNOTSUPP,
  ENETUNREACH\<close> (Linux numbers).\<close>

definition accept_acceptable :: "int set" where
  "accept_acceptable = {11, 100, 71, 92, 112, 64, 113, 95, 101}"

definition Socket_accept :: "kernel \<Rightarrow> socket \<Rightarrow> net_addr \<Rightarrow> sys \<Rightarrow> int \<times> net_addr \<times> sys" where
  "Socket_accept k so addr s =
     (let (fd, a, s1) = syscall k (SysAccept (so_fd so)) s in
      if fd < 0
      then (fd, addr, if sy_errno s1 \<in> accept_acceptable then SPDLOG_ERRNO_L LogWarn ''acceptable err'' ''accept'' s1
                      else SPDLOG_ERRNO ''accept'' s1)
      else (fd, an_addr a, s1))"

definition Socket_setReuseAddr :: "kernel \<Rightarrow> socket \<Rightarrow> bool \<Rightarrow> sys \<Rightarrow> sys" where
  "Socket_setReuseAddr k so b s =
     (let v = if b then 1 else 0; (n, _, s1) = syscall k (SysSetOption (so_fd so) ReuseAddr v) s
      in SPDLOG_ERRNO_IF (n < 0) ''setReuseAddr'' s1)"

definition Socket_setReusePort :: "kernel \<Rightarrow> socket \<Rightarrow> bool \<Rightarrow> sys \<Rightarrow> sys" where
  "Socket_setReusePort k so b s =
     (let v = if b then 1 else 0; (n, _, s1) = syscall k (SysSetOption (so_fd so) ReusePort v) s
      in SPDLOG_ERRNO_IF (n < 0) ''setReusePort'' s1)"

definition Socket_setKeepAlive :: "kernel \<Rightarrow> socket \<Rightarrow> bool \<Rightarrow> sys \<Rightarrow> sys" where
  "Socket_setKeepAlive k so b s =
     (let v = if b then 1 else 0; (n, _, s1) = syscall k (SysSetOption (so_fd so) KeepAlive v) s
      in SPDLOG_ERRNO_IF (n < 0) ''setKeepAlive'' s1)"

definition Socket_setTcpNoDelay :: "kernel \<Rightarrow> socket \<Rightarrow> bool \<Rightarrow> sys \<Rightarrow> sys" where
  "Socket_setTcpNoDelay k so b s =
     (let v = if b then 1 else 0; (n, _, s1) = syscall k (SysSetOption (so_fd so) TcpNoDelay v) s
      in SPDLOG_ERRNO_IF (n < 0) ''setTcpNoDelay'' s1)"

definition Socket_fd :: "socket \<Rightarrow> int" where
  "Socket_fd so = so_fd so"

section \<open>The life of a socket\<close>

datatype socket_op =
    OpListen
  | OpBind net_addr
  | OpAccept
  | OpReuseAddr bool
  | OpReusePort bool
  | OpKeepAlive bool
  | OpTcpNoDelay bool

fun socket_step :: "kernel \<Rightarrow> socket \<Rightarrow> socket_op \<Rightarrow> sys \<Rightarrow> sys" where
  "socket_step k so OpListen s = Socket_listen k so s"
| "socket_step k so (OpBind addr) s = Socket_bind k so addr s"
| "socket_step k so OpAccept s = snd (snd (Socket_accept k so NetAddr_empty s))"
| "socket_step k so (OpReuseAddr b) s = Socket_setReuseAddr k so b s"
| "socket_step k so (OpReusePort b) s = Socket_setReusePort k so b s"
| "socket_step k so (OpKeepAlive b) s = Socket_setKeepAlive k so b s"
| "socket_step k so (OpTcpNoDelay b) s = Socket_setTcpNoDelay k so b s"

fun socket_run :: "kernel \<Rightarrow> socket \<Rightarrow> socket_op list \<Rightarrow> sys \<Rightarrow> sys" where
  "socket_run k so [] s = s"
| "socket_run k so (op # ops) s = socket_run k so ops (socket_step k so op s)"

text \<open>What each operation asks of the kernel, and how its failure is reported.\<close>

fun op_call :: "int \<Rightarrow> socket_op \<Rightarrow> sys_call" where
  "op_call fd OpListen = SysListen fd"
| "op_call fd (OpBind addr) = SysBind fd addr"
| "op_call fd OpAccept = SysAccept fd"
| "op_call fd (OpReuseAddr b) = SysSetOption fd ReuseAddr (of_bool b)"
| "op_call fd (OpReusePort b) = SysSetOption fd ReusePort (of_bool b)"
| "op_call fd (OpKeepAlive b) = SysSetOption fd KeepAlive (of_bool b)"
| "op_call fd (OpTcpNoDelay b) = SysSetOption fd TcpNoDelay (of_bool b)"

fun op_name :: "socket_op \<Rightarrow> string" where
  "op_name OpListen = ''listen''"
| "op_name (OpBind addr) = ''bind''"
| "op_name OpAccept = ''accept''"
| "op_name (OpReuseAddr b) = ''setReuseAddr''"
| "op_name (OpReusePort b) = ''setReusePort''"
| "op_name (OpKeepAlive b) = ''setKeepAlive''"
| "op_name (OpTcpNoDelay b) = ''setTcpNoDelay''"

definition op_report :: "socket_op \<Rightarrow> sys_answer \<Rightarrow> log_entry list" where
  "op_report op a = (case an_ret a of
       Inl e \<Rightarrow> (if op = OpAccept \<and> e \<in> accept_acceptable then [(LogWarn, op_name op, e, LogText ''acceptable err'')]
                else [(LogError, op_name op, e, NoExtra)])
     | Inr _ \<Rightarrow> [])"

fun op_reports :: "kernel \<Rightarrow> int \<Rightarrow> sys_call list \<Rightarrow> socket_op list \<Rightarrow> log_entry list" where
  "op_reports k fd h [] = []"
| "op_reports k fd h (op # ops) = op_report op (k h (op_call fd op)) @ op_reports k fd (h @ [op_call fd op]) ops"

text \<open>System calls that succeed do not return a negative number.\<close>

definition kernel_ok :: "kernel \<Rightarrow> bool" where
  "kernel_ok k \<longleftrightarrow> (\<forall>h call v. an_ret (k h call) = Inr v \<longrightarrow> 0 \<le> v)"

lemma kernel_ok_ret: "kernel_ok k \<Longrightarrow> an_ret (k h call) = Inr v \<Longrightarrow> 0 \<le> v"
  by (simp add: kernel_ok_def)

text \<open>A call whose failure is logged as an error.\<close>

definition logged_call :: "kernel \<Rightarrow> sys_call \<Rightarrow> string \<Rightarrow> sys \<Rightarrow> sys" where
  "logged_call k call fn s = (let (n, _, s1) = syscall k call s in SPDLOG_ERRNO_IF (n < 0) fn s1)"

lemma logged_call_spec:
  assumes "kernel_ok k"
  shows "sy_calls (logged_call k call fn s) = sy_calls s @ [call] \<and>
    sy_log (logged_call k call fn s) = sy_log s @
      (case an_ret (k (sy_calls s) call) of Inl e \<Rightarrow> [(LogError, fn, e, NoExtra)] | Inr _ \<Rightarrow> [])"
  using kernel_ok_ret [OF assms, of "sy_calls s" call]
  by (cases "an_ret (k (sy_calls s) call)")
    (force simp: logged_call_def syscall_def SPDLOG_ERRNO_IF_def SPDLOG_ERRNO_def)+

lemma socket_step_logged:
  "op \<noteq> OpAccept \<Longrightarrow> socket_step k so op s = logged_call k (op_call (so_fd so) op) (op_name op) s"
  by (cases op) (simp_all add: logged_call_def Socket_listen_def Socket_bind_def Socket_setReuseAddr_def
      Socket_setReusePort_def Socket_setKeepAlive_def Socket_setTcpNoDelay_def of_bool_def)

lemma socket_step_spec:
  assumes ok: "kernel_ok k"
  shows "sy_calls (socket_step k so op s) = sy_calls s @ [op_call (so_fd so) op] \<and>
    sy_log (socket_step k so op s) = sy_log s @ op_report op (k (sy_calls s) (op_call (so_fd so) op))"
proof (cases "op = OpAccept")
  case True
  show ?thesis
  proof (cases "an_ret (k (sy_calls s) (SysAccept (so_fd so)))")
    case (Inl e)
    then show ?thesis
      using True by (simp add: Socket_accept_def syscall_def op_report_def SPDLOG_ERRNO_def SPDLOG_ERRNO_L_def)
  next
    case (Inr v)
    then show ?thesis
      using True kernel_ok_ret [OF ok Inr] by (simp add: Socket_accept_def syscall_def op_report_def)
  qed
next
  case False
  then show ?thesis
    using logged_call_spec [OF ok, of "op_call (so_fd so) op" "op_name op" s]
    by (simp add: socket_step_logged op_report_def split: sum.split)
qed

lemma socket_run_spec:
  assumes "kernel_ok k"
  shows "sy_calls (socket_run k so ops s) = sy_calls s @ map (op_call (so_fd so)) ops \<and>
    sy_log (socket_run k so ops s) = sy_log s @ op_reports k (so_fd so) (sy_calls s) ops"
proof (induction ops arbitrary: s)
  case (Cons op ops)
  then show ?case using socket_step_spec [OF assms, of so op s] by simp
qed simp

text \<open>A \<^verbatim>\<open>Socket\<close> owns its descriptor: whatever operations are made on it and whatever the kernel
  answers, each operation is exactly one system call on its own descriptor with the argument the
  caller gave, in order, the destructor closes that descriptor as the last call, and exactly the
  failed operations are reported, with their own \<^verbatim>\<open>errno\<close>, an \<^verbatim>\<open>accept\<close> that failed for
  the peer's or the network's sake as a warning and everything else as an error.\<close>

theorem socket_life:
  assumes "kernel_ok k"
  shows "sy_calls (Socket_destroy k (Socket_new fd) (socket_run k (Socket_new fd) ops s)) =
      sy_calls s @ map (op_call fd) ops @ [SysClose fd] \<and>
    sy_log (Socket_destroy k (Socket_new fd) (socket_run k (Socket_new fd) ops s)) =
      sy_log s @ op_reports k fd (sy_calls s) ops"
  using socket_run_spec [OF assms, of "Socket_new fd" ops s]
  by (simp add: Socket_destroy_def Socket_new_def socket_close_def syscall_def Let_def split: sum.split)

text \<open>A kernel on which \<^verbatim>\<open>bind\<close> fails with \<^verbatim>\<open>EADDRINUSE\<close> and the accepts meet \<^verbatim>\<open>EAGAIN\<close>.\<close>

definition sample_kernel :: kernel where
  "sample_kernel h call = \<lparr>an_ret = (case call of SysBind fd addr \<Rightarrow> Inl 98 | SysAccept fd \<Rightarrow> Inl 11 | _ \<Rightarrow> Inr 0),
     an_addr = NetAddr_empty, an_val = 0, an_data = []\<rparr>"

lemma socket_life_witness:
  "sy_log (Socket_destroy sample_kernel (Socket_new 5)
      (socket_run sample_kernel (Socket_new 5) [OpReuseAddr True, OpBind NetAddr_empty, OpListen, OpAccept] sys_init)) =
    [(LogError, ''bind'', 98, NoExtra), (LogWarn, ''accept'', 11, LogText ''acceptable err'')]"
proof -
  have "kernel_ok sample_kernel" by (auto simp: kernel_ok_def sample_kernel_def split: sys_call.splits)
  from socket_life [OF this, of 5 "[OpReuseAddr True, OpBind NetAddr_empty, OpListen, OpAccept]" sys_init] show ?thesis
    by (simp add: op_report_def sample_kernel_def sys_init_def accept_acceptable_def)
qed

section \<open>The ledger of descriptors\<close>

text \<open>The descriptors a call brings into the process, and the one it takes out.\<close>

fun call_opens :: "sys_call \<Rightarrow> sys_answer \<Rightarrow> int multiset" where
  "call_opens (SysSocket domain) a = result_fds (an_ret a)"
| "call_opens (SysAccept fd) a = result_fds (an_ret a)"
| "call_opens (SysOpen path) a = result_fds (an_ret a)"
| "call_opens SysEventFd a = result_fds (an_ret a)"
| "call_opens SysTimerFd a = result_fds (an_ret a)"
| "call_opens _ a = {#}"

fun call_closes :: "sys_call \<Rightarrow> int multiset" where
  "call_closes (SysClose fd) = (if 0 \<le> fd then {#fd#} else {#})"
| "call_closes _ = {#}"

fun opened_from :: "kernel \<Rightarrow> sys_call list \<Rightarrow> sys_call list \<Rightarrow> int multiset" where
  "opened_from k h [] = {#}"
| "opened_from k h (c # cs) = call_opens c (k h c) + opened_from k (h @ [c]) cs"

definition opened_fds :: "kernel \<Rightarrow> sys_call list \<Rightarrow> int multiset" where
  "opened_fds k cs = opened_from k [] cs"

definition closed_fds :: "sys_call list \<Rightarrow> int multiset" where
  "closed_fds cs = sum_list (map call_closes cs)"

lemma opened_from_append: "opened_from k h (cs @ ds) = opened_from k h cs + opened_from k (h @ cs) ds"
  by (induction cs arbitrary: h) (simp_all add: add.assoc)

lemma ledger_simps [simp]:
  "opened_fds k [] = {#}" "opened_fds k (cs @ c # ds) = opened_fds k cs + opened_from k cs (c # ds)"
  "closed_fds [] = {#}" "closed_fds (cs @ c # ds) = closed_fds cs + sum_list (map call_closes (c # ds))"
  by (simp_all add: opened_fds_def closed_fds_def opened_from_append)

section \<open>The acceptor on the kernel\<close>

text \<open>The acceptor with its \<^verbatim>\<open>Socket\<close>, every call to the kernel in its place.\<close>

record sys_acceptor =
  sa_acc :: acceptor
  sa_socket :: socket
  sa_sys :: sys

definition Acceptor_create ::
  "kernel \<Rightarrow> unit pworld \<Rightarrow> nat \<Rightarrow> net_addr \<Rightarrow> bool \<Rightarrow> sys \<Rightarrow> sys_acceptor res" where
  "Acceptor_create k w d addr callback s =
     (let (idleFd, s1) = socket_open k ''/dev/null'' s;
          (fd, s2) = socket_socket k (NetAddr_family addr) s1;
          so = Socket_new fd
      in bindR (Acceptor_new w d idleFd (Socket_fd so) callback) (\<lambda>a.
      let s3 = Socket_setReuseAddr k so True s2;
          s4 = Socket_setReusePort k so True s3;
          s5 = Socket_bind k so addr s4
      in Inr \<lparr>sa_acc = a, sa_socket = so, sa_sys = s5\<rparr>))"

definition Acceptor_listenOn :: "kernel \<Rightarrow> sys_acceptor \<Rightarrow> sys_acceptor res" where
  "Acceptor_listenOn k a = bindR (Acceptor_listen (sa_acc a)) (\<lambda>acc.
     Inr (a\<lparr>sa_acc := acc, sa_sys := Socket_listen k (sa_socket a) (sa_sys a)\<rparr>))"

definition Acceptor_accept :: "kernel \<Rightarrow> sys_acceptor \<Rightarrow> sys_acceptor res" where
  "Acceptor_accept k a = EventLoop_assertTheSameThread (ac_pw (sa_acc a)) (
     let acc = sa_acc a; (fd, peer, s1) = Socket_accept k (sa_socket a) NetAddr_empty (sa_sys a) in
     if 0 \<le> fd then
       (if ac_callback acc then Inr (a\<lparr>sa_acc := acc\<lparr>ac_handed := ac_handed acc @ [fd]\<rparr>, sa_sys := s1\<rparr>)
        else Inr (a\<lparr>sa_acc := acc\<lparr>ac_closed := ac_closed acc @ [fd]\<rparr>, sa_sys := snd (socket_close k fd s1)\<rparr>))
     else if sy_errno s1 = 23 then
       (let (_, s2) = socket_close k (ac_idleFd acc) s1;
            (fd2, peer2, s3) = Socket_accept k (sa_socket a) peer s2;
            (_, s4) = socket_close k fd2 s3;
            (idleFd, s5) = socket_open k ''/dev/null'' s4
        in assertR (0 \<le> idleFd) ''idleFd_ >= 0''
          (Inr (a\<lparr>sa_acc := acc\<lparr>ac_closed := ac_closed acc @ [ac_idleFd acc, fd2], ac_idleFd := idleFd\<rparr>, sa_sys := s5\<rparr>)))
     else Inr (a\<lparr>sa_sys := s1\<rparr>))"

definition Acceptor_end :: "kernel \<Rightarrow> sys_acceptor \<Rightarrow> sys_acceptor res" where
  "Acceptor_end k a = bindR (Acceptor_destroy (sa_acc a)) (\<lambda>acc.
     let (_, s1) = socket_close k (ac_idleFd (sa_acc a)) (sa_sys a)
     in Inr (a\<lparr>sa_acc := acc, sa_sys := Socket_destroy k (sa_socket a) s1\<rparr>))"

fun Acceptor_rounds :: "kernel \<Rightarrow> nat \<Rightarrow> sys_acceptor \<Rightarrow> sys_acceptor res" where
  "Acceptor_rounds k 0 a = Inr a"
| "Acceptor_rounds k (Suc n) a = bindR (Acceptor_accept k a) (Acceptor_rounds k n)"

text \<open>Every descriptor the process got is closed, idle, listening or given to the callback.\<close>

definition ledger_ok :: "kernel \<Rightarrow> sys_acceptor \<Rightarrow> bool" where
  "ledger_ok k a \<longleftrightarrow> opened_fds k (sy_calls (sa_sys a)) =
     closed_fds (sy_calls (sa_sys a)) + mset (ac_handed (sa_acc a)) + {#ac_idleFd (sa_acc a), so_fd (sa_socket a)#}"

text \<open>Opening \<^verbatim>\<open>/dev/null\<close> and making sockets succeeds, the latter with unused descriptors.\<close>

definition kernel_gives :: "kernel \<Rightarrow> int set \<Rightarrow> bool" where
  "kernel_gives k used \<longleftrightarrow> kernel_ok k \<and>
     (\<forall>h path. \<exists>fd. an_ret (k h (SysOpen path)) = Inr fd) \<and>
     (\<forall>h domain. \<exists>fd. an_ret (k h (SysSocket domain)) = Inr fd \<and> fd \<notin> used)"

lemma socket_accept_cases:
  assumes "kernel_ok k"
  obtains
    (taken) fd where "an_ret (k (sy_calls s) (SysAccept (so_fd so))) = Inr fd" "0 \<le> fd"
      "Socket_accept k so addr s = (fd, an_addr (k (sy_calls s) (SysAccept (so_fd so))), s\<lparr>sy_calls := sy_calls s @ [SysAccept (so_fd so)]\<rparr>)"
  | (failed) e s1 where "an_ret (k (sy_calls s) (SysAccept (so_fd so))) = Inl e" "Socket_accept k so addr s = (-1, addr, s1)"
      "sy_calls s1 = sy_calls s @ [SysAccept (so_fd so)]" "sy_errno s1 = e"
proof (cases "an_ret (k (sy_calls s) (SysAccept (so_fd so)))")
  case (Inl e)
  then show thesis
    using failed by (auto simp: Socket_accept_def syscall_def SPDLOG_ERRNO_def SPDLOG_ERRNO_L_def Let_def split: if_splits)
next
  case (Inr fd)
  then show thesis
    using taken kernel_ok_ret [OF assms Inr] by (simp add: Socket_accept_def syscall_def)
qed

lemma socket_close_calls [simp]: "sy_calls (snd (socket_close k fd s)) = sy_calls s @ [SysClose fd]"
  by (simp add: socket_close_def syscall_def Let_def split: sum.split)

lemma socket_open_spec:
  assumes "kernel_gives k U"
  obtains fd where "socket_open k path s = (fd, s\<lparr>sy_calls := sy_calls s @ [SysOpen path]\<rparr>)"
    "an_ret (k (sy_calls s) (SysOpen path)) = Inr fd" "0 \<le> fd"
proof -
  obtain fd where fd: "an_ret (k (sy_calls s) (SysOpen path)) = Inr fd"
    using assms unfolding kernel_gives_def by blast
  moreover have "0 \<le> fd" using assms fd unfolding kernel_gives_def kernel_ok_def by blast
  ultimately show thesis using that by (simp add: socket_open_def syscall_def)
qed

lemma Acceptor_accept_ledger:
  assumes gives: "kernel_gives k U" and same: "pw_sameThread (ac_pw (sa_acc a))" "0 \<le> ac_idleFd (sa_acc a)"
    and ledger: "ledger_ok k a"
  shows "\<exists>a1 again reopened. Acceptor_accept k a = Inr a1 \<and> ledger_ok k a1 \<and> sa_socket a1 = sa_socket a \<and>
     Acceptor_handleAccept (an_ret (k (sy_calls (sa_sys a)) (SysAccept (so_fd (sa_socket a))))) again reopened (sa_acc a) =
       Inr (sa_acc a1) \<and>
     ac_pw (sa_acc a1) = ac_pw (sa_acc a) \<and> ac_channel (sa_acc a1) = ac_channel (sa_acc a) \<and> 0 \<le> ac_idleFd (sa_acc a1)"
proof -
  have ok: "kernel_ok k" using gives by (simp add: kernel_gives_def)
  let ?fd = "so_fd (sa_socket a)" and ?s = "sa_sys a"
  note code = Acceptor_accept_def Acceptor_handleAccept_def EventLoop_assertTheSameThread_def same accept_fd_def Let_def
  note book = ledger_ok_def result_fds_def
  from ok show ?thesis
  proof (cases rule: socket_accept_cases [where s = ?s and so = "sa_socket a" and addr = NetAddr_empty])
    case (taken fd)
    have "ledger_ok k (a\<lparr>sa_acc := (sa_acc a)\<lparr>ac_handed := ac_handed (sa_acc a) @ [fd]\<rparr>,
        sa_sys := ?s\<lparr>sy_calls := sy_calls ?s @ [SysAccept ?fd]\<rparr>\<rparr>)"
      "ledger_ok k (a\<lparr>sa_acc := (sa_acc a)\<lparr>ac_closed := ac_closed (sa_acc a) @ [fd]\<rparr>,
        sa_sys := snd (socket_close k fd (?s\<lparr>sy_calls := sy_calls ?s @ [SysAccept ?fd]\<rparr>))\<rparr>)"
      using ledger taken(1,2) by (simp_all add: book)
    then show ?thesis using taken same by (cases "ac_callback (sa_acc a)") (simp_all add: code)
  next
    case (failed e s1)
    show ?thesis
    proof (cases "e = 23")
      case False
      have "ledger_ok k (a\<lparr>sa_sys := s1\<rparr>)" using ledger failed by (simp add: book)
      then show ?thesis using failed False same by (simp add: code)
    next
      case True
      let ?s2 = "snd (socket_close k (ac_idleFd (sa_acc a)) s1)"
      obtain fd2 peer2 s3 where s3: "Socket_accept k (sa_socket a) NetAddr_empty ?s2 = (fd2, peer2, s3)"
        "sy_calls s3 = sy_calls ?s2 @ [SysAccept ?fd]"
        "fd2 = accept_fd (an_ret (k (sy_calls ?s2) (SysAccept ?fd)))"
        "result_fds (an_ret (k (sy_calls ?s2) (SysAccept ?fd))) = call_closes (SysClose fd2)"
        using ok
        by (cases rule: socket_accept_cases [where s = ?s2 and so = "sa_socket a" and addr = NetAddr_empty])
          (auto simp: accept_fd_def result_fds_def)
      let ?s4 = "snd (socket_close k fd2 s3)"
      obtain idle where idle: "socket_open k ''/dev/null'' ?s4 = (idle, ?s4\<lparr>sy_calls := sy_calls ?s4 @ [SysOpen ''/dev/null'']\<rparr>)"
        "an_ret (k (sy_calls ?s4) (SysOpen ''/dev/null'')) = Inr idle" "0 \<le> idle"
        by (rule socket_open_spec [OF gives])
      let ?a1 = "a\<lparr>sa_acc := (sa_acc a)\<lparr>ac_closed := ac_closed (sa_acc a) @ [ac_idleFd (sa_acc a), fd2], ac_idleFd := idle\<rparr>,
        sa_sys := ?s4\<lparr>sy_calls := sy_calls ?s4 @ [SysOpen ''/dev/null'']\<rparr>\<rparr>"
      have "Acceptor_accept k a = Inr ?a1"
        using failed True s3(1) idle(1,3) same by (simp add: code case_prod_unfold)
      moreover have "ledger_ok k ?a1"
        using ledger failed(1,3) s3(2,4) idle(2) same(2) by (simp add: book)
      moreover have "Acceptor_handleAccept (Inl 23) (an_ret (k (sy_calls ?s2) (SysAccept ?fd))) idle (sa_acc a) = Inr (sa_acc ?a1)"
        using s3(3) idle(3) by (simp add: code)
      ultimately show ?thesis using failed(1) True idle(3) by (intro exI [of _ ?a1]) auto
    qed
  qed
qed

lemma Acceptor_rounds_ledger:
  assumes gives: "kernel_gives k U"
  shows "pw_sameThread (ac_pw (sa_acc a)) \<Longrightarrow> 0 \<le> ac_idleFd (sa_acc a) \<Longrightarrow> ledger_ok k a \<Longrightarrow>
    \<exists>a1. Acceptor_rounds k n a = Inr a1 \<and> ledger_ok k a1 \<and> sa_socket a1 = sa_socket a \<and>
      ac_pw (sa_acc a1) = ac_pw (sa_acc a) \<and> ac_channel (sa_acc a1) = ac_channel (sa_acc a) \<and> 0 \<le> ac_idleFd (sa_acc a1)"
proof (induction n arbitrary: a)
  case (Suc n)
  obtain a1 where "Acceptor_accept k a = Inr a1" "ledger_ok k a1" "sa_socket a1 = sa_socket a"
    "ac_pw (sa_acc a1) = ac_pw (sa_acc a)" "ac_channel (sa_acc a1) = ac_channel (sa_acc a)" "0 \<le> ac_idleFd (sa_acc a1)"
    using Acceptor_accept_ledger [OF gives Suc.prems] by blast
  then show ?case using Suc.IH [of a1] Suc.prems by auto
qed simp

text \<open>The calls of the constructor.\<close>

lemma logged_calls [simp]:
  assumes "kernel_ok k"
  shows "sy_calls (Socket_setReuseAddr k so b s) = sy_calls s @ [SysSetOption (so_fd so) ReuseAddr (of_bool b)]"
    and "sy_calls (Socket_setReusePort k so b s) = sy_calls s @ [SysSetOption (so_fd so) ReusePort (of_bool b)]"
    and "sy_calls (Socket_bind k so addr s) = sy_calls s @ [SysBind (so_fd so) addr]"
    and "sy_calls (Socket_listen k so s) = sy_calls s @ [SysListen (so_fd so)]"
  using socket_step_spec [OF assms, of so "OpReuseAddr b"] socket_step_spec [OF assms, of so "OpReusePort b"]
    socket_step_spec [OF assms, of so "OpBind addr"] socket_step_spec [OF assms, of so OpListen]
  by simp_all

lemma Acceptor_create_ledger:
  assumes gives: "kernel_gives k U"
  shows "\<exists>a fd. Acceptor_create k w d addr callback sys_init = Inr a \<and> ledger_ok k a \<and> 0 \<le> ac_idleFd (sa_acc a) \<and>
     ac_channel (sa_acc a) = d \<and> 0 \<le> fd \<and> fd \<notin> U \<and> so_fd (sa_socket a) = fd \<and>
     ac_pw (sa_acc a) = w\<lparr>pw_store := (pw_store w)(d \<mapsto> Channel_setReadCallback () (Channel_new fd))\<rparr>"
proof -
  have ok: "kernel_ok k" using gives by (simp add: kernel_gives_def)
  obtain idle where idle: "socket_open k ''/dev/null'' sys_init = (idle, sys_init\<lparr>sy_calls := [SysOpen ''/dev/null'']\<rparr>)"
    "an_ret (k [] (SysOpen ''/dev/null'')) = Inr idle" "0 \<le> idle"
    using socket_open_spec [OF gives, of "''/dev/null''" sys_init] by (auto simp: sys_init_def)
  obtain fd where fd: "an_ret (k [SysOpen ''/dev/null''] (SysSocket (na_family addr))) = Inr fd" "fd \<notin> U"
    using gives unfolding kernel_gives_def by blast
  have "0 \<le> fd" using ok fd(1) unfolding kernel_ok_def by blast
  then show ?thesis
    using idle fd ok
    by (simp add: Acceptor_create_def Acceptor_new_def socket_socket_def syscall_def Socket_new_def Socket_fd_def Let_def
        ledger_ok_def result_fds_def sys_init_def opened_fds_def closed_fds_def)
qed

section \<open>The life of an acceptor\<close>

text \<open>C18. No descriptor of an acceptor leaks over its whole life: constructed on any well-formed poller,
  set to listen, faced with any number of readiness reports and any answers of the kernel to its
  accepts (with room or not), and destroyed, it has closed every descriptor it was ever given
  except the connections it handed to its callback, and closed none twice; and it is
  registered with the poller no more.\<close>

theorem acceptor_life:
  assumes rep: "poller_rep w cs" "slots_live w" "d \<notin> set cs" and gives: "kernel_gives k (dom (pw_map w))"
  shows "\<exists>a0 a1 a2 a3. Acceptor_create k w d addr callback sys_init = Inr a0 \<and> Acceptor_listenOn k a0 = Inr a1 \<and>
     Acceptor_rounds k n a1 = Inr a2 \<and> Acceptor_end k a2 = Inr a3 \<and>
     opened_fds k (sy_calls (sa_sys a3)) = closed_fds (sy_calls (sa_sys a3)) + mset (ac_handed (sa_acc a3)) \<and>
     dom (pw_map (ac_pw (sa_acc a3))) = dom (pw_map w)"
proof -
  have ok: "kernel_ok k" using gives by (simp add: kernel_gives_def)
  obtain a0 fd where a0: "Acceptor_create k w d addr callback sys_init = Inr a0" "ledger_ok k a0"
    "0 \<le> ac_idleFd (sa_acc a0)" "ac_channel (sa_acc a0) = d" "0 \<le> fd" "fd \<notin> dom (pw_map w)" "so_fd (sa_socket a0) = fd"
    "ac_pw (sa_acc a0) = w\<lparr>pw_store := (pw_store w)(d \<mapsto> Channel_setReadCallback () (Channel_new fd))\<rparr>"
    using Acceptor_create_ledger [OF gives] by blast
  let ?w0 = "ac_pw (sa_acc a0)" and ?ch = "Channel_setReadCallback () (Channel_new fd)"
  have w0: "poller_rep ?w0 cs" "slots_live ?w0" "pw_store ?w0 d = Some ?ch" "pw_map ?w0 = pw_map w"
    using rep_store_other [OF rep(1,3)] rep(2) a0(8) by (simp_all add: slots_live_def)
  have ch: "ch_fd ?ch = fd" "ch_idxPoll ?ch < 0" "ch_events ?ch = 0"
    by (simp_all add: Channel_setReadCallback_def Channel_new_def)
  have mask: "mask_enableReading (ch_events ?ch) \<in> event_masks"
    unfolding ch(3) by (simp add: mask_enableReading_def event_defs event_masks_def)
  obtain w1 i where w1: "Channel_setMask mask_enableReading ?w0 d = Inr w1" "poller_rep w1 (cs @ [d])" "slots_live w1"
    "dom (pw_map w1) = insert fd (dom (pw_map w))"
    "pw_store w1 = (pw_store ?w0)(d \<mapsto> ?ch\<lparr>ch_events := mask_enableReading (ch_events ?ch), ch_idxPoll := i\<rparr>)"
    using poller.add_law [where f = mask_enableReading, OF w0(1,2,3) ch(2) _ _ mask] a0(5,6) ch(1) w0(4) by auto
  let ?a1 = "a0\<lparr>sa_acc := (sa_acc a0)\<lparr>ac_pw := w1\<rparr>, sa_sys := Socket_listen k (sa_socket a0) (sa_sys a0)\<rparr>"
  have listen: "Acceptor_listenOn k a0 = Inr ?a1"
    using w1(1) w0(1) a0(4)
    by (simp add: Acceptor_listenOn_def Acceptor_listen_def EventLoop_assertTheSameThread_def Channel_enableReading_def
        poller_rep_def)
  have a1: "ledger_ok k ?a1" "pw_sameThread w1" using a0(2) ok w1(2) by (simp_all add: ledger_ok_def poller_rep_def)
  then obtain a2 where a2: "Acceptor_rounds k n ?a1 = Inr a2" "ledger_ok k a2" "sa_socket a2 = sa_socket a0"
    "ac_pw (sa_acc a2) = w1" "ac_channel (sa_acc a2) = d" "0 \<le> ac_idleFd (sa_acc a2)"
    using Acceptor_rounds_ledger [OF gives, of ?a1 n] a0(3,4) by auto
  obtain w2 where w2: "bindR (Channel_setMask (\<lambda>_. kEmptyEvent) w1 d) (\<lambda>w. Channel_remove w d) = Inr w2"
    "dom (pw_map w2) = dom (pw_map w1) - {fd}"
    using poller.close_law [OF w1(2,3), of d] w1(5) ch(1) by auto
  obtain acc where acc: "Acceptor_destroy (sa_acc a2) = Inr acc" "ac_handed acc = ac_handed (sa_acc a2)"
    "pw_map (ac_pw acc) = pw_map w2"
    using w2(1) a2(4,5) w1(5) by (auto simp: Acceptor_destroy_def Channel_disableEvents_def res_iffs)
  let ?s1 = "snd (socket_close k (ac_idleFd (sa_acc a2)) (sa_sys a2))"
  let ?a3 = "a2\<lparr>sa_acc := acc, sa_sys := Socket_destroy k (sa_socket a2) ?s1\<rparr>"
  have "Acceptor_end k a2 = Inr ?a3" using acc(1) by (simp add: Acceptor_end_def case_prod_unfold)
  moreover have "opened_fds k (sy_calls (sa_sys ?a3)) = closed_fds (sy_calls (sa_sys ?a3)) + mset (ac_handed (sa_acc ?a3))"
    using a2(2,3,6) a0(5,7) acc(2) by (simp add: Socket_destroy_def ledger_ok_def)
  moreover have "dom (pw_map (ac_pw (sa_acc ?a3))) = dom (pw_map w)" using acc(3) w2(2) w1(4) a0(6) by auto
  ultimately show ?thesis using a0(1) listen a2(1) by blast
qed

text \<open>A kernel that gives two connections and then runs out of descriptors for a while.\<close>

definition sample_accepts :: kernel where
  "sample_accepts h call = \<lparr>an_ret = (case call of SysOpen path \<Rightarrow> Inr 3 | SysSocket domain \<Rightarrow> Inr 4
       | SysAccept fd \<Rightarrow> (if length h < 8 then Inr (int (length h)) else if length h = 8 then Inl 23 else Inl 11)
       | _ \<Rightarrow> Inr 0),
     an_addr = NetAddr_empty, an_val = 0, an_data = []\<rparr>"

lemma acceptor_life_witness:
  "\<exists>a0 a1 a2 a3. Acceptor_create sample_accepts PollPoller_new 0 NetAddr_empty True sys_init = Inr a0 \<and>
     Acceptor_listenOn sample_accepts a0 = Inr a1 \<and>
     Acceptor_rounds sample_accepts 4 a1 = Inr a2 \<and> Acceptor_end sample_accepts a2 = Inr a3 \<and>
     opened_fds sample_accepts (sy_calls (sa_sys a3)) = closed_fds (sy_calls (sa_sys a3)) + mset (ac_handed (sa_acc a3))"
proof -
  have "kernel_gives sample_accepts (dom (pw_map (PollPoller_new :: unit pworld)))"
    by (auto simp: kernel_gives_def kernel_ok_def sample_accepts_def PollPoller_new_def split: sys_call.splits if_splits)
  moreover have "slots_live (PollPoller_new :: unit pworld)" by (simp add: slots_live_def PollPoller_new_def)
  ultimately show ?thesis
    using acceptor_life [OF poller_rep_new, of 0 sample_accepts NetAddr_empty True 4] by fastforce
qed

section \<open>The connector on the kernel\<close>

definition Connector_attempt :: "kernel \<Rightarrow> net_addr \<Rightarrow> connector \<times> sys \<Rightarrow> (connector \<times> sys) res" where
  "Connector_attempt k addr = (\<lambda>(c, s). EventLoop_assertTheSameThread (ct_pw c) (
     assertR (ct_state c = CtDisconnected) ''state_ == State::Disconnected'' (
     if ct_toQuit c then Inr (c, s) else
     let (fd, s1) = socket_socket k (NetAddr_family addr) s;
         s2 = SPDLOG_ERRNO_IF (fd < 0) ''startTask'' s1;
         (r, s3) = socket_connect k fd addr s2;
         err = (if r = 0 then 0 else sy_errno s3)
     in if err \<in> connect_pending then bindR (Connector_connected fd c) (\<lambda>c1. Inr (c1, s3))
        else if err \<in> connect_retryable then Inr (Connector_retry fd c, snd (socket_close k fd s3))
        else Inr (c, SPDLOG_ERRNO ''startTask'' s3))))"

text \<open>It is the attempt whose outcome is an argument, beside the calls it makes.\<close>

lemma Connector_attempt_refines:
  assumes "kernel_ok k" and "socket_socket k (NetAddr_family addr) s = (fd, s1)" "0 \<le> fd"
    and "an_ret (k (sy_calls s1) (SysConnect fd addr)) = (if err = 0 then Inr 0 else Inl err)"
  shows "\<exists>s2. Connector_attempt k addr (c, s) = bindR (Connector_startTask fd err c) (\<lambda>c1. Inr (c1, s2))"
proof (cases "pw_sameThread (ct_pw c) \<and> ct_state c = CtDisconnected \<and> \<not> ct_toQuit c")
  case True
  consider "err = 0" | "err \<noteq> 0" "err \<in> connect_pending" | "err \<noteq> 0" "err \<notin> connect_pending" "err \<in> connect_retryable"
    | "err \<noteq> 0" "err \<notin> connect_pending" "err \<notin> connect_retryable" by blast
  then show ?thesis
    using True assms
    by cases (auto simp: Connector_attempt_def Connector_startTask_def EventLoop_assertTheSameThread_def
        socket_connect_def syscall_def SPDLOG_ERRNO_IF_def Let_def connect_pending_def)
next
  case False
  then show ?thesis
    by (intro exI [of _ s]) (auto simp: Connector_attempt_def Connector_startTask_def EventLoop_assertTheSameThread_def assertR_def)
qed

text \<open>A connect that fails for a reason the code does not list (a refused permission, say) is the end
  of the connector: no retry is scheduled, nothing of its state changes, and the descriptor it
  opened is never closed.\<close>

lemma connect_error_leaks:
  assumes c: "pw_sameThread (ct_pw c)" "ct_state c = CtDisconnected" "\<not> ct_toQuit c"
    and socket: "an_ret (k (sy_calls s) (SysSocket (na_family addr))) = Inr fd" "0 \<le> fd"
    and connect: "an_ret (k (sy_calls s @ [SysSocket (na_family addr)]) (SysConnect fd addr)) = Inl err"
    and err: "err \<notin> connect_pending" "err \<notin> connect_retryable"
  shows "\<exists>s1. Connector_attempt k addr (c, s) = Inr (c, s1) \<and>
     opened_fds k (sy_calls s1) = add_mset fd (opened_fds k (sy_calls s)) \<and> closed_fds (sy_calls s1) = closed_fds (sy_calls s)"
  using assms
  by (simp add: Connector_attempt_def EventLoop_assertTheSameThread_def socket_socket_def socket_connect_def syscall_def
      SPDLOG_ERRNO_IF_def SPDLOG_ERRNO_def SPDLOG_ERRNO_L_def Let_def connect_pending_def result_fds_def)

section \<open>The descriptors of a loop\<close>

definition createEventFd :: "kernel \<Rightarrow> sys \<Rightarrow> int \<times> sys" where
  "createEventFd k s = (let (fd, _, s1) = syscall k SysEventFd s in (fd, s1))"

definition createTimerFd :: "kernel \<Rightarrow> sys \<Rightarrow> int \<times> sys" where
  "createTimerFd k s = (let (fd, _, s1) = syscall k SysTimerFd s in (fd, SPDLOG_ERRNO_IF (fd < 0) ''createTimerFd'' s1))"

text \<open>\<^verbatim>\<open>tmp\<close> has no value before \<^verbatim>\<open>read\<close> gives it one, and is printed in any case.\<close>

definition readTimerFd :: "kernel \<Rightarrow> int \<Rightarrow> sys \<Rightarrow> sys res" where
  "readTimerFd k fd s =
     (let (n, tmp, s1) = socket_read k fd 8 s;
          s2 = SPDLOG_ERRNO_IF (n < 0) ''readTimerFd'' s1
      in if n < 8 then Inl (Undefined ''tmp is uninitialised'') else Inr s2)"

text \<open>
  The timerfd is read because \<^verbatim>\<open>poll\<close> found it readable; but setting it anew, which a callback of
  the same round may do (\<^verbatim>\<open>runAfter\<close> with an earlier deadline), takes the expiration back, the read
  fails with \<^verbatim>\<open>EAGAIN\<close> (11), and the message shows a variable that was never assigned.
\<close>

lemma readTimerFd_uninitialised:
  assumes "an_ret (k (sy_calls s) (SysRead fd 8)) = Inl 11"
  shows "readTimerFd k fd s = Inl (Undefined ''tmp is uninitialised'')"
  using assms by (simp add: readTimerFd_def socket_read_def syscall_def)

text \<open>Constructor and destructor of \<^verbatim>\<open>EventLoop\<close> (with its \<^verbatim>\<open>TimerQueue\<close>): the order of the members.\<close>

definition loop_open_fds :: "kernel \<Rightarrow> sys \<Rightarrow> int \<times> int \<times> sys" where
  "loop_open_fds k s = (let (wfd, s1) = createEventFd k s; (tfd, s2) = createTimerFd k s1 in (wfd, tfd, s2))"

definition loop_close_fds :: "kernel \<Rightarrow> int \<Rightarrow> int \<Rightarrow> sys \<Rightarrow> sys" where
  "loop_close_fds k wfd tfd s = snd (socket_close k tfd (snd (socket_close k wfd s)))"

lemma loop_fds_balanced:
  assumes "kernel_ok k" and "loop_open_fds k s = (wfd, tfd, s1)" and "sy_calls s2 = sy_calls s1"
  shows "opened_fds k (sy_calls (loop_close_fds k wfd tfd s2)) + closed_fds (sy_calls s) =
     opened_fds k (sy_calls s) + closed_fds (sy_calls (loop_close_fds k wfd tfd s2))"
proof -
  have ret: "0 \<le> v" if "an_ret (k h c) = Inr v" for h c v using kernel_ok_ret [OF assms(1) that] .
  have calls: "sy_calls (loop_close_fds k wfd tfd s2) = sy_calls s @ [SysEventFd, SysTimerFd, SysClose wfd, SysClose tfd]"
    "result_fds (an_ret (k (sy_calls s) SysEventFd)) = call_closes (SysClose wfd)"
    "result_fds (an_ret (k (sy_calls s @ [SysEventFd]) SysTimerFd)) = call_closes (SysClose tfd)"
    using assms(2,3)
    by (auto simp: loop_open_fds_def loop_close_fds_def createEventFd_def createTimerFd_def syscall_def
        SPDLOG_ERRNO_IF_def SPDLOG_ERRNO_def result_fds_def Let_def ret split: sum.splits if_splits)
  show ?thesis unfolding calls(1) by (simp add: calls(2,3) del: call_closes.simps) simp
qed

section \<open>Thread ids\<close>

text \<open>\<^verbatim>\<open>this_thread::id\<close> with its \<^verbatim>\<open>thread_local\<close> cache; threads are values of a type, \<open>gettid\<close> is
  the system call.\<close>

definition this_thread_id :: "('t \<Rightarrow> nat) \<Rightarrow> 't \<Rightarrow> ('t \<Rightarrow> nat) \<Rightarrow> nat \<times> ('t \<Rightarrow> nat)" where
  "this_thread_id gettid t cache =
     (let cache1 = (if cache t = 0 then cache(t := gettid t) else cache) in (cache1 t, cache1))"

definition EventLoop_isTheSameThread :: "('t \<Rightarrow> nat) \<Rightarrow> nat \<Rightarrow> 't \<Rightarrow> ('t \<Rightarrow> nat) \<Rightarrow> bool \<times> ('t \<Rightarrow> nat)" where
  "EventLoop_isTheSameThread gettid threadId t cache =
     (let (i, cache1) = this_thread_id gettid t cache in (threadId = i, cache1))"

fun thread_ids :: "('t \<Rightarrow> nat) \<Rightarrow> 't list \<Rightarrow> ('t \<Rightarrow> nat) \<Rightarrow> ('t \<Rightarrow> nat)" where
  "thread_ids gettid [] cache = cache"
| "thread_ids gettid (t # ts) cache = thread_ids gettid ts (snd (this_thread_id gettid t cache))"

lemma thread_ids_cached:
  "\<forall>t. cache t = 0 \<or> cache t = gettid t \<Longrightarrow> \<forall>t. thread_ids gettid ts cache t = 0 \<or> thread_ids gettid ts cache t = gettid t"
  by (induction ts arbitrary: cache) (simp_all add: this_thread_id_def)

text \<open>The flag of the models: however the threads have asked before, the test of a loop made in
  thread \<open>u\<close> is true exactly in \<open>u\<close>.\<close>

lemma same_thread_flag:
  assumes "inj gettid" and cache: "cache = thread_ids gettid ts (\<lambda>_. 0)"
    and made: "this_thread_id gettid u cache = (threadId, cache1)" and later: "cache2 = thread_ids gettid us cache1"
  shows "fst (EventLoop_isTheSameThread gettid threadId t cache2) \<longleftrightarrow> t = u"
proof -
  have 0: "cache x = 0 \<or> cache x = gettid x" for x using thread_ids_cached [of "\<lambda>_. 0" gettid ts] cache by simp
  have 1: "threadId = gettid u" "cache1 x = 0 \<or> cache1 x = gettid x" for x
    using made 0 [of u] 0 [of x] by (auto simp: this_thread_id_def Let_def split: if_splits)
  have "cache2 t = 0 \<or> cache2 t = gettid t" using thread_ids_cached [of cache1 gettid us] 1(2) later by simp
  then show ?thesis
    using 1(1) assms(1) by (auto simp: EventLoop_isTheSameThread_def this_thread_id_def Let_def inj_eq)
qed

end
