(* ===== verification/Lotta_Buffer.thy ===== *)
theory Lotta_Buffer
  imports Lotta_Prelude
begin

text \<open>
  \<^verbatim>\<open>Slice\<close> and \<^verbatim>\<open>Buffer\<close> of \<^verbatim>\<open>include/lotta/buffer.h\<close> and \<^verbatim>\<open>src/buffer.cc\<close>.

  A \<^verbatim>\<open>Slice\<close> is a pointer and a length; the pointer is modelled by the bytes that can be
  read through it (up to the end of the vector it points into), so a slice whose length
  exceeds them is one whose use reads out of bounds. A \<^verbatim>\<open>Buffer\<close> is a
  \<^verbatim>\<open>std::vector<char>\<close>, here its elements and its capacity, and the read index
  \<^verbatim>\<open>idx_\<close>. How much a vector reserves when it must reallocate is left open by the
  language: it is the parameter \<open>grow\<close>, of which only \<open>grow_ok\<close> is used
  (\<open>libstdcxx_grow\<close> is the rule of GNU libstdc++, used for concrete runs).

  The abstract view of a buffer is its unread part, \<open>buffer_contents\<close>; the interface that
  its users rely on is the locale \<open>byte_queue\<close>, interpreted at the end on the model.
\<close>

section \<open>Slices\<close>

record slice =
  sl_data :: "string option"  \<comment> \<open>\<^verbatim>\<open>nullptr\<close>, or what can be read from \<^verbatim>\<open>data\<close> on\<close>
  sl_n :: nat

definition Slice_null :: slice where
  "Slice_null = \<lparr>sl_data = None, sl_n = 0\<rparr>"

definition Slice_of :: "string \<Rightarrow> slice" where
  "Slice_of s = \<lparr>sl_data = Some s, sl_n = length s\<rparr>"

definition Slice_empty :: "slice \<Rightarrow> bool" where
  "Slice_empty sl \<longleftrightarrow> sl_n sl = 0"

text \<open>
  Reading \<open>sl_n\<close> bytes through the pointer, as \<^verbatim>\<open>toString\<close> and the stream operator do.
\<close>

definition Slice_toString :: "slice \<Rightarrow> string res" where
  "Slice_toString sl =
     (case sl_data sl of
        None \<Rightarrow> if sl_n sl = 0 then Inr [] else Inl (Undefined ''null slice'')
      | Some bs \<Rightarrow> if sl_n sl \<le> length bs then Inr (take (sl_n sl) bs)
                  else Inl (Undefined ''slice reads past the end''))"

text \<open>\<^verbatim>\<open>operator==(const char *)\<close> and \<^verbatim>\<open>operator==(const std::string &)\<close>.\<close>

definition Slice_strncmp :: "slice \<Rightarrow> string \<Rightarrow> bool res" where
  "Slice_strncmp sl s =
     (case sl_data sl of
        None \<Rightarrow> if sl_n sl = 0 then Inr True else Inl (Undefined ''null slice'')
      | Some bs \<Rightarrow> strncmp_eq s bs (sl_n sl))"

definition Slice_eq_cstr :: "slice \<Rightarrow> string \<Rightarrow> bool res" where
  "Slice_eq_cstr sl str =
     (if length (c_str str) = sl_n sl then Slice_strncmp sl (c_str str @ [nul]) else Inr False)"

definition Slice_eq_string :: "slice \<Rightarrow> string \<Rightarrow> bool res" where
  "Slice_eq_string sl s =
     (if length s = sl_n sl then Slice_strncmp sl (s @ [nul]) else Inr False)"

definition slice_ok :: "slice \<Rightarrow> bool" where
  "slice_ok sl \<longleftrightarrow>
     (case sl_data sl of None \<Rightarrow> sl_n sl = 0 | Some bs \<Rightarrow> sl_n sl \<le> length bs)"

definition slice_text :: "slice \<Rightarrow> string" where
  "slice_text sl = (case sl_data sl of None \<Rightarrow> [] | Some bs \<Rightarrow> take (sl_n sl) bs)"

lemma slice_ok_null [simp, wf_intros]: "slice_ok Slice_null"
  by (simp add: slice_ok_def Slice_null_def)

lemma slice_ok_of [simp, wf_intros]: "slice_ok (Slice_of s)"
  by (simp add: slice_ok_def Slice_of_def)

lemma slice_text_simps [simp]:
  "slice_text Slice_null = []"
  "slice_text (Slice_of s) = s"
  by (simp_all add: slice_text_def Slice_null_def Slice_of_def)

lemma Slice_toString_ok: "slice_ok sl \<Longrightarrow> Slice_toString sl = Inr (slice_text sl)"
  by (auto simp: slice_ok_def Slice_toString_def slice_text_def split: option.splits)

lemma Slice_empty_iff: "slice_ok sl \<Longrightarrow> Slice_empty sl \<longleftrightarrow> slice_text sl = []"
  by (auto simp: slice_ok_def Slice_empty_def slice_text_def split: option.splits)

lemma slice_text_length: "slice_ok sl \<Longrightarrow> length (slice_text sl) = sl_n sl"
  by (auto simp: slice_ok_def slice_text_def split: option.splits)

lemma Slice_eq_cstr_ok:
  assumes "slice_ok sl"
  shows "Slice_eq_cstr sl str = Inr (slice_text sl = c_str str)"
proof (cases "length (c_str str) = sl_n sl")
  case True
  show ?thesis
  proof (cases "sl_data sl")
    case None
    with True assms show ?thesis
      by (auto simp: Slice_eq_cstr_def Slice_strncmp_def slice_ok_def slice_text_def)
  next
    case (Some bs)
    with assms have n: "sl_n sl \<le> length bs" by (simp add: slice_ok_def)
    have "strncmp_eq (c_str str @ [nul]) bs (sl_n sl) =
        Inr (take (sl_n sl) (c_str str) = take (sl_n sl) bs)"
      using True n by (intro strncmp_eq_terminated) auto
    with True n Some show ?thesis
      by (auto simp: Slice_eq_cstr_def Slice_strncmp_def slice_text_def)
  qed
next
  case False
  then show ?thesis
    using slice_text_length [OF assms] by (auto simp: Slice_eq_cstr_def)
qed

section \<open>The buffer\<close>

record buffer =
  buf_idx :: nat
  buf_data :: string
  buf_capacity :: nat

text \<open>\<^verbatim>\<open>kInitLen = 2u << 10u\<close>; the constructor reserves \<open>n\<close> bytes.\<close>

definition kInitLen :: nat where
  "kInitLen = 2048"

definition Buffer_new :: "nat \<Rightarrow> buffer" where
  "Buffer_new n = \<lparr>buf_idx = 0, buf_data = [], buf_capacity = n\<rparr>"

text \<open>Vector growth: the new capacity when \<open>n\<close> elements do not fit behind \<open>size\<close> ones.\<close>

definition grow_ok :: "(nat \<Rightarrow> nat \<Rightarrow> nat) \<Rightarrow> bool" where
  "grow_ok grow \<longleftrightarrow> (\<forall>sz n. sz + n \<le> grow sz n)"

definition libstdcxx_grow :: "nat \<Rightarrow> nat \<Rightarrow> nat" where
  "libstdcxx_grow sz n = sz + max sz n"

lemma grow_ok_libstdcxx [simp]: "grow_ok libstdcxx_grow"
  by (simp add: grow_ok_def libstdcxx_grow_def)

lemma grow_okD: "grow_ok grow \<Longrightarrow> sz + n \<le> grow sz n"
  by (simp add: grow_ok_def)

text \<open>\<^verbatim>\<open>data_.insert(data_.end(), ...)\<close>, and the growing \<^verbatim>\<open>resize\<close>.\<close>

definition vec_append :: "(nat \<Rightarrow> nat \<Rightarrow> nat) \<Rightarrow> buffer \<Rightarrow> string \<Rightarrow> buffer" where
  "vec_append grow b s =
     b\<lparr>buf_data := buf_data b @ s,
       buf_capacity :=
         (if length (buf_data b) + length s \<le> buf_capacity b then buf_capacity b
          else grow (length (buf_data b)) (length s))\<rparr>"

definition Buffer_readable :: "buffer \<Rightarrow> nat res" where
  "Buffer_readable b =
     assertR (buf_idx b \<le> length (buf_data b)) ''data_.size() >= idx_''
       (Inr (length (buf_data b) - buf_idx b))"

definition Buffer_writable :: "buffer \<Rightarrow> nat" where
  "Buffer_writable b = buf_capacity b - length (buf_data b)"

text \<open>What \<^verbatim>\<open>peek()\<close> points at.\<close>

definition Buffer_peek :: "buffer \<Rightarrow> string" where
  "Buffer_peek b = drop (buf_idx b) (buf_data b)"

text \<open>\<^verbatim>\<open>std::copy(peek(), end(), begin())\<close>: the tail moves over the front, the rest stays.\<close>

definition copy_to_front :: "nat \<Rightarrow> 'a list \<Rightarrow> 'a list" where
  "copy_to_front i xs = drop i xs @ drop (length xs - i) xs"

definition Buffer_makeSpace :: "buffer \<Rightarrow> nat \<Rightarrow> buffer res" where
  "Buffer_makeSpace b n =
     bindR (Buffer_readable b) (\<lambda>r.
     let b1 = (if r = 0 \<and> Buffer_writable b = 0 then b\<lparr>buf_idx := 0\<rparr> else b) in
     if n \<le> Buffer_writable b1 then Inr b1
     else bindR (Buffer_readable b1) (\<lambda>r1.
       if r1 + n > buf_capacity b1 then Inr b1
       else let b2 = b1\<lparr>buf_data := copy_to_front (buf_idx b1) (buf_data b1)\<rparr> in
         bindR (Buffer_readable b2) (\<lambda>r2.
           Inr (b2\<lparr>buf_data := take r2 (buf_data b2), buf_idx := 0\<rparr>))))"

definition Buffer_append :: "(nat \<Rightarrow> nat \<Rightarrow> nat) \<Rightarrow> buffer \<Rightarrow> string \<Rightarrow> buffer res" where
  "Buffer_append grow b s =
     bindR (Buffer_makeSpace b (length s)) (\<lambda>b1. Inr (vec_append grow b1 s))"

definition Buffer_append_slice :: "(nat \<Rightarrow> nat \<Rightarrow> nat) \<Rightarrow> buffer \<Rightarrow> slice \<Rightarrow> buffer res" where
  "Buffer_append_slice grow b sl = bindR (Slice_toString sl) (Buffer_append grow b)"

definition Buffer_append_cstr :: "(nat \<Rightarrow> nat \<Rightarrow> nat) \<Rightarrow> buffer \<Rightarrow> string \<Rightarrow> buffer res" where
  "Buffer_append_cstr grow b str = Buffer_append grow b (c_str str)"

definition Buffer_retrieve :: "buffer \<Rightarrow> nat \<Rightarrow> (slice \<times> buffer) res" where
  "Buffer_retrieve b n =
     bindR (Buffer_readable b) (\<lambda>r.
     assertR (n \<le> r) ''n <= readable()''
       (Inr (\<lparr>sl_data = Some (Buffer_peek b), sl_n = n\<rparr>, b\<lparr>buf_idx := buf_idx b + n\<rparr>)))"

definition Buffer_retrieve_all :: "buffer \<Rightarrow> (slice \<times> buffer) res" where
  "Buffer_retrieve_all b = bindR (Buffer_readable b) (Buffer_retrieve b)"

definition Buffer_retrieveUntil :: "buffer \<Rightarrow> string \<Rightarrow> (slice \<times> buffer) res" where
  "Buffer_retrieveUntil b delim =
     (let it = std_search (Buffer_peek b) delim in
      if it = length (Buffer_peek b) then Inr (Slice_null, b)
      else bindR (Buffer_retrieve b it) (\<lambda>(ret, b1).
        bindR (Buffer_retrieve b1 (length delim)) (\<lambda>(_, b2). Inr (ret, b2))))"

definition Buffer_revoke :: "buffer \<Rightarrow> nat \<Rightarrow> buffer res" where
  "Buffer_revoke b n =
     assertR (buf_idx b \<le> n) ''n >= idx_''
       (Inr (b\<lparr>buf_idx := size_sub (buf_idx b) n\<rparr>))"

definition Buffer_discard :: "buffer \<Rightarrow> nat \<Rightarrow> buffer res" where
  "Buffer_discard b n =
     bindR (Buffer_readable b) (\<lambda>r.
     assertR (n \<le> r) ''n <= readable()''
       (Inr (b\<lparr>buf_data := take (length (buf_data b) - n) (buf_data b)\<rparr>)))"

definition Buffer_toSlice :: "buffer \<Rightarrow> slice res" where
  "Buffer_toSlice b =
     bindR (Buffer_readable b) (\<lambda>r. Inr \<lparr>sl_data = Some (Buffer_peek b), sl_n = r\<rparr>)"

definition Buffer_toString :: "buffer \<Rightarrow> string res" where
  "Buffer_toString b = bindR (Buffer_toSlice b) Slice_toString"

definition Buffer_swap :: "buffer \<Rightarrow> buffer \<Rightarrow> buffer \<times> buffer" where
  "Buffer_swap a b =
     (a\<lparr>buf_data := buf_data b, buf_capacity := buf_capacity b, buf_idx := buf_idx b\<rparr>,
      b\<lparr>buf_data := buf_data a, buf_capacity := buf_capacity a, buf_idx := buf_idx a\<rparr>)"

text \<open>
  \<^verbatim>\<open>readFrom\<close>: \<open>n\<close> is what \<^verbatim>\<open>ioctl(FIONREAD)\<close> reports and \<open>rd\<close> what \<^verbatim>\<open>read\<close>
  then does, \<open>None\<close> for a return of \<open>-1\<close> and \<open>Some bs\<close> for the bytes it stores
  (at most \<open>n\<close>). The vector is first extended by \<open>n\<close> zero bytes. The result is
  \<^verbatim>\<open>read\<close>'s return value; the \<^verbatim>\<open>assert\<close> demands that it is \<open>n\<close>.
\<close>

definition Buffer_readFrom ::
    "(nat \<Rightarrow> nat \<Rightarrow> nat) \<Rightarrow> buffer \<Rightarrow> nat \<Rightarrow> string option \<Rightarrow> (int \<times> buffer) res" where
  "Buffer_readFrom grow b n rd =
     bindR (Buffer_makeSpace b n) (\<lambda>b1.
     let b2 = vec_append grow b1 (replicate n nul);
         base = length (buf_data b1);
         ret = (case rd of None \<Rightarrow> -1 | Some bs \<Rightarrow> int (length bs));
         b3 = (case rd of None \<Rightarrow> b2
               | Some bs \<Rightarrow> b2\<lparr>buf_data := take base (buf_data b2) @ bs
                              @ drop (base + length bs) (buf_data b2)\<rparr>)
     in assertR (ret = int n) ''ret == n'' (Inr (ret, b3)))"

section \<open>Well-formedness and the abstract view\<close>

definition buffer_wf :: "buffer \<Rightarrow> bool" where
  "buffer_wf b \<longleftrightarrow>
     buf_idx b \<le> length (buf_data b) \<and> length (buf_data b) \<le> buf_capacity b"

definition buffer_contents :: "buffer \<Rightarrow> string" where
  "buffer_contents b = drop (buf_idx b) (buf_data b)"

text \<open>
  Everything is read and the vector is full. \<^verbatim>\<open>makeSpace\<close> then resets \<^verbatim>\<open>idx_\<close> to 0
  without clearing \<^verbatim>\<open>data_\<close>, which makes the consumed bytes readable again.
\<close>

definition buffer_exhausted :: "buffer \<Rightarrow> bool" where
  "buffer_exhausted b \<longleftrightarrow>
     buf_idx b = length (buf_data b) \<and> length (buf_data b) = buf_capacity b"

lemma Buffer_peek_contents [simp]: "Buffer_peek b = buffer_contents b"
  by (simp add: Buffer_peek_def buffer_contents_def)

lemma Buffer_readable_wf [simp]: "buffer_wf b \<Longrightarrow> Buffer_readable b = Inr (length (buffer_contents b))"
  by (simp add: Buffer_readable_def buffer_wf_def buffer_contents_def)

lemma Buffer_new_wf [simp, wf_intros]: "buffer_wf (Buffer_new n)"
  by (simp add: Buffer_new_def buffer_wf_def)

lemma Buffer_new_contents [simp, view_simps]: "buffer_contents (Buffer_new n) = []"
  by (simp add: Buffer_new_def buffer_contents_def)

lemma exhausted_contents: "buffer_exhausted b \<Longrightarrow> buffer_contents b = []"
  by (simp add: buffer_exhausted_def buffer_contents_def)

lemma vec_append_wf:
  assumes "buffer_wf b" and "grow_ok grow"
  shows "buffer_wf (vec_append grow b s)"
  using assms grow_okD [OF assms(2), of "length (buf_data b)" "length s"]
  by (auto simp: buffer_wf_def vec_append_def)

lemma vec_append_contents:
  "buffer_wf b \<Longrightarrow> buffer_contents (vec_append grow b s) = buffer_contents b @ s"
  by (simp add: buffer_wf_def vec_append_def buffer_contents_def)

text \<open>What \<^verbatim>\<open>makeSpace\<close> leaves readable: the old contents, or everything if exhausted.\<close>

definition buffer_reexposed :: "buffer \<Rightarrow> string" where
  "buffer_reexposed b = (if buffer_exhausted b then buf_data b else buffer_contents b)"

lemma Buffer_makeSpace_spec:
  assumes "buffer_wf b"
  shows "\<exists>b'. Buffer_makeSpace b n = Inr b' \<and> buffer_wf b' \<and>
           buffer_contents b' = buffer_reexposed b \<and> buf_capacity b' = buf_capacity b \<and>
           (length (buffer_reexposed b) + n \<le> buf_capacity b \<longrightarrow>
             length (buf_data b') + n \<le> buf_capacity b')"
proof (cases "buffer_exhausted b")
  case True
  then show ?thesis
    using assms by (auto simp: Buffer_makeSpace_def Buffer_readable_def Buffer_writable_def Let_def
        buffer_wf_def buffer_exhausted_def buffer_contents_def buffer_reexposed_def)
next
  case False
  then have keep: "\<not> (length (buffer_contents b) = 0 \<and> Buffer_writable b = 0)"
    using assms by (auto simp: Buffer_writable_def buffer_wf_def buffer_exhausted_def
        buffer_contents_def)
  show ?thesis
    using assms False keep
    by (auto simp: Buffer_makeSpace_def Buffer_readable_def Buffer_writable_def Let_def
        buffer_wf_def buffer_contents_def buffer_reexposed_def copy_to_front_def)
qed

lemma Buffer_append_spec:
  assumes "buffer_wf b" and "grow_ok grow"
  shows "\<exists>b'. Buffer_append grow b s = Inr b' \<and> buffer_wf b' \<and>
           buffer_contents b' = buffer_reexposed b @ s \<and>
           (length (buffer_reexposed b) + length s \<le> buf_capacity b \<longrightarrow>
             buf_capacity b' = buf_capacity b)"
proof -
  obtain b1 where b1: "Buffer_makeSpace b (length s) = Inr b1" "buffer_wf b1"
      "buffer_contents b1 = buffer_reexposed b" "buf_capacity b1 = buf_capacity b"
      "length (buffer_reexposed b) + length s \<le> buf_capacity b \<Longrightarrow>
         length (buf_data b1) + length s \<le> buf_capacity b1"
    using Buffer_makeSpace_spec [OF assms(1), of "length s"] by auto
  then have "Buffer_append grow b s = Inr (vec_append grow b1 s)"
    by (simp add: Buffer_append_def)
  with b1 vec_append_wf [OF b1(2) assms(2)] vec_append_contents [OF b1(2)] show ?thesis
    by (auto simp: vec_append_def)
qed

lemma Buffer_retrieve_spec:
  assumes "buffer_wf b"
  shows "Buffer_retrieve b n =
    (if n \<le> length (buffer_contents b)
     then Inr (\<lparr>sl_data = Some (buffer_contents b), sl_n = n\<rparr>, b\<lparr>buf_idx := buf_idx b + n\<rparr>)
     else Inl (AssertFail ''n <= readable()''))"
  using assms by (simp add: Buffer_retrieve_def assertR_def)

lemma advance_wf [simp, wf_intros]:
  "buffer_wf b \<Longrightarrow> n \<le> length (buffer_contents b) \<Longrightarrow> buffer_wf (b\<lparr>buf_idx := buf_idx b + n\<rparr>)"
  by (auto simp: buffer_wf_def buffer_contents_def)

lemma advance_contents [simp, view_simps]:
  "buffer_contents (b\<lparr>buf_idx := buf_idx b + n\<rparr>) = drop n (buffer_contents b)"
  by (simp add: buffer_contents_def add.commute)

lemma Buffer_retrieve_all_spec:
  assumes "buffer_wf b"
  shows "\<exists>b'. Buffer_retrieve_all b = Inr (Slice_of (buffer_contents b), b') \<and>
           buffer_wf b' \<and> buffer_contents b' = []"
  using assms by (auto simp: Buffer_retrieve_all_def Buffer_retrieve_spec Slice_of_def)

lemma Buffer_retrieveUntil_missing:
  assumes "delim \<noteq> []" and "\<not> sublist delim (buffer_contents b)"
  shows "Buffer_retrieveUntil b delim = Inr (Slice_null, b)"
  using assms by (simp add: Buffer_retrieveUntil_def std_search_missing [symmetric])

lemma Buffer_retrieveUntil_found:
  assumes wf: "buffer_wf b" and c: "buffer_contents b = w @ delim @ rest"
    and "delim \<noteq> []" and pos: "std_search (buffer_contents b) delim = length w"
  shows "\<exists>b'. Buffer_retrieveUntil b delim =
           Inr (\<lparr>sl_data = Some (w @ delim @ rest), sl_n = length w\<rparr>, b') \<and>
           buffer_wf b' \<and> buffer_contents b' = rest"
proof -
  have ne: "std_search (buffer_contents b) delim \<noteq> length (buffer_contents b)"
    using assms by simp
  have wf1: "buffer_wf (b\<lparr>buf_idx := buf_idx b + length w\<rparr>)"
    using wf c by (intro advance_wf) simp_all
  have c1: "buffer_contents (b\<lparr>buf_idx := buf_idx b + length w\<rparr>) = delim @ rest"
    using c by simp
  have fits: "length w \<le> length (buffer_contents b)" using c by simp
  show ?thesis
    using ne pos fits wf1 c1 advance_wf [OF wf1, of "length delim"]
    by (auto simp: Buffer_retrieveUntil_def Buffer_retrieve_spec wf c
        advance_contents [of "b\<lparr>buf_idx := buf_idx b + length w\<rparr>", simplified])
qed

lemma Buffer_readFrom_spec:
  assumes "buffer_wf b" and "grow_ok grow" and "length bs = n"
  shows "\<exists>b'. Buffer_readFrom grow b n (Some bs) = Inr (int n, b') \<and> buffer_wf b' \<and>
           buffer_contents b' = buffer_reexposed b @ bs"
proof -
  obtain b1 where b1: "Buffer_makeSpace b n = Inr b1" "buffer_wf b1"
      "buffer_contents b1 = buffer_reexposed b"
    using Buffer_makeSpace_spec [OF assms(1), of n] by auto
  let ?b2 = "vec_append grow b1 (replicate n nul)"
  have "take (length (buf_data b1)) (buf_data ?b2) @ bs
      @ drop (length (buf_data b1) + length bs) (buf_data ?b2) = buf_data b1 @ bs"
    using assms(3) by (simp add: vec_append_def)
  moreover have "?b2\<lparr>buf_data := buf_data b1 @ bs\<rparr> = vec_append grow b1 bs"
    using assms(3) by (simp add: vec_append_def)
  ultimately have "Buffer_readFrom grow b n (Some bs) = Inr (int n, vec_append grow b1 bs)"
    using b1 assms(3) by (simp add: Buffer_readFrom_def Let_def)
  then show ?thesis
    using b1 vec_append_wf [OF b1(2) assms(2)] vec_append_contents [OF b1(2)] by simp
qed

lemma Buffer_readFrom_short:
  assumes "buffer_wf b" and "\<And>bs. rd = Some bs \<Longrightarrow> length bs \<noteq> n"
  shows "Buffer_readFrom grow b n rd = Inl (AssertFail ''ret == n'')"
  using Buffer_makeSpace_spec [OF assms(1), of n] assms(2)
  by (auto simp: Buffer_readFrom_def Let_def assertR_def split: option.splits)

lemma Buffer_discard_spec:
  assumes "buffer_wf b"
  shows "Buffer_discard b n =
    (if n \<le> length (buffer_contents b)
     then Inr (b\<lparr>buf_data := take (length (buf_data b) - n) (buf_data b)\<rparr>)
     else Inl (AssertFail ''n <= readable()''))"
  using assms by (simp add: Buffer_discard_def assertR_def)

lemma discard_view [view_simps]:
  assumes "buffer_wf b" and "n \<le> length (buffer_contents b)"
  shows "buffer_wf (b\<lparr>buf_data := take (length (buf_data b) - n) (buf_data b)\<rparr>)"
    and "buffer_contents (b\<lparr>buf_data := take (length (buf_data b) - n) (buf_data b)\<rparr>) =
           take (length (buffer_contents b) - n) (buffer_contents b)"
  using assms by (auto simp: buffer_wf_def buffer_contents_def drop_take add.commute)

section \<open>Integers in network byte order\<close>

text \<open>
  A value of \<open>k\<close> bytes on a little-endian machine (the branch of \<^verbatim>\<open>swapEndian\<close> that is
  compiled there): \<open>le_bytes\<close> is its representation in memory. \<^verbatim>\<open>retrieve<T>()\<close> loads
  \<^verbatim>\<open>sizeof(T)\<close> bytes and swaps them.
\<close>

fun le_bytes :: "nat \<Rightarrow> nat \<Rightarrow> string" where
  "le_bytes 0 v = []"
| "le_bytes (Suc k) v = char_of (v mod 256) # le_bytes k (v div 256)"

fun le_value :: "string \<Rightarrow> nat" where
  "le_value [] = 0"
| "le_value (c # cs) = of_char c + 256 * le_value cs"

definition swapEndian :: "nat \<Rightarrow> nat \<Rightarrow> nat" where
  "swapEndian k v = le_value (rev (le_bytes k v))"

definition Buffer_retrieve_uint :: "buffer \<Rightarrow> nat \<Rightarrow> (nat \<times> buffer) res" where
  "Buffer_retrieve_uint b k =
     bindR (Buffer_retrieve b k) (\<lambda>(sl, b1).
     bindR (Slice_toString sl) (\<lambda>bs. Inr (swapEndian k (le_value bs), b1)))"

lemma length_le_bytes [simp]: "length (le_bytes k v) = k"
  by (induction k v rule: le_bytes.induct) auto

lemma le_value_bytes: "v < 256 ^ k \<Longrightarrow> le_value (le_bytes k v) = v"
  by (induction k v rule: le_bytes.induct) (auto simp: less_mult_imp_div_less mult.commute)

lemma le_bytes_value: "le_bytes (length bs) (le_value bs) = bs"
  by (induction bs) (auto simp: div_add1_eq)

lemma le_value_bound: "le_value bs < 256 ^ length bs"
proof (induction bs)
  case (Cons c cs)
  have "(of_char c :: nat) < 256" by (rule nat_of_char_less_256)
  moreover from Cons have "256 * le_value cs + 256 \<le> 256 * 256 ^ length cs" by linarith
  ultimately show ?case unfolding le_value.simps length_Cons power_Suc by linarith
qed simp

lemma swapEndian_bound: "swapEndian k v < 256 ^ k"
  using le_value_bound [of "rev (le_bytes k v)"] by (simp add: swapEndian_def)

lemma swapEndian_involutive:
  assumes "v < 256 ^ k"
  shows "swapEndian k (swapEndian k v) = v"
proof -
  have "le_bytes k (le_value (rev (le_bytes k v))) = rev (le_bytes k v)"
    using le_bytes_value [of "rev (le_bytes k v)"] by simp
  then show ?thesis using assms by (simp add: swapEndian_def le_value_bytes)
qed

section \<open>The interface of a byte queue\<close>

text \<open>
  What the network components rely on: bytes put at the back come out at the front. The
  guarantee for \<open>put\<close> needs \<open>roomy\<close>, which holds whenever something is left to read.
\<close>

datatype qop = Put string | Get nat

fun queue_run ::
    "('q \<Rightarrow> string \<Rightarrow> 'q res) \<Rightarrow> ('q \<Rightarrow> nat \<Rightarrow> (slice \<times> 'q) res) \<Rightarrow>
     'q \<Rightarrow> qop list \<Rightarrow> (string list \<times> 'q) res" where
  "queue_run put get q [] = Inr ([], q)"
| "queue_run put get q (Put s # ops) = bindR (put q s) (\<lambda>q1. queue_run put get q1 ops)"
| "queue_run put get q (Get n # ops) =
     bindR (get q n) (\<lambda>(sl, q1).
     bindR (Slice_toString sl) (\<lambda>out.
     bindR (queue_run put get q1 ops) (\<lambda>(outs, q2). Inr (out # outs, q2))))"

text \<open>The specification: a plain list of bytes; \<open>None\<close> when a read asks for too much.\<close>

fun list_run :: "string \<Rightarrow> qop list \<Rightarrow> (string list \<times> string) option" where
  "list_run v [] = Some ([], v)"
| "list_run v (Put s # ops) = list_run (v @ s) ops"
| "list_run v (Get n # ops) =
     (if n \<le> length v
      then map_option (\<lambda>(outs, w). (take n v # outs, w)) (list_run (drop n v) ops)
      else None)"

text \<open>Every \<open>Put\<close> of the run finds the queue \<open>roomy\<close>.\<close>

fun stays_roomy ::
    "('q \<Rightarrow> bool) \<Rightarrow> ('q \<Rightarrow> string \<Rightarrow> 'q res) \<Rightarrow> ('q \<Rightarrow> nat \<Rightarrow> (slice \<times> 'q) res) \<Rightarrow>
     'q \<Rightarrow> qop list \<Rightarrow> bool" where
  "stays_roomy roomy put get q [] = True"
| "stays_roomy roomy put get q (Put s # ops) =
     (roomy q \<and> (case put q s of Inl _ \<Rightarrow> True | Inr q1 \<Rightarrow> stays_roomy roomy put get q1 ops))"
| "stays_roomy roomy put get q (Get n # ops) =
     (case get q n of Inl _ \<Rightarrow> True | Inr (_, q1) \<Rightarrow> stays_roomy roomy put get q1 ops)"

locale byte_queue =
  fixes view :: "'q \<Rightarrow> string"
    and wf :: "'q \<Rightarrow> bool"
    and roomy :: "'q \<Rightarrow> bool"
    and put :: "'q \<Rightarrow> string \<Rightarrow> 'q res"
    and get :: "'q \<Rightarrow> nat \<Rightarrow> (slice \<times> 'q) res"
  assumes put_law: "wf q \<Longrightarrow> roomy q \<Longrightarrow> \<exists>q1. put q s = Inr q1 \<and> wf q1 \<and> view q1 = view q @ s"
    and get_law: "wf q \<Longrightarrow> n \<le> length (view q) \<Longrightarrow>
      \<exists>sl q1. get q n = Inr (sl, q1) \<and> slice_ok sl \<and> slice_text sl = take n (view q) \<and>
             wf q1 \<and> view q1 = drop n (view q)"
    and get_refused: "wf q \<Longrightarrow> length (view q) < n \<Longrightarrow> \<exists>m. get q n = Inl (AssertFail m)"
    and roomy_nonempty: "wf q \<Longrightarrow> view q \<noteq> [] \<Longrightarrow> roomy q"
begin

lemma put_behind: "wf q \<Longrightarrow> view q \<noteq> [] \<Longrightarrow> \<exists>q1. put q s = Inr q1 \<and> wf q1 \<and> view q1 = view q @ s"
  using put_law roomy_nonempty by blast

lemma get_all:
  assumes "wf q"
  shows "\<exists>sl q1. get q (length (view q)) = Inr (sl, q1) \<and> slice_text sl = view q \<and> view q1 = []"
  using get_law [OF assms order_refl] by auto

lemma run_refines:
  assumes "wf q" and "stays_roomy roomy put get q ops"
  shows "case list_run (view q) ops of
           None \<Rightarrow> \<exists>m. queue_run put get q ops = Inl (AssertFail m)
         | Some (outs, v) \<Rightarrow> \<exists>q1. queue_run put get q ops = Inr (outs, q1) \<and> wf q1 \<and> view q1 = v"
  using assms
proof (induction ops arbitrary: q)
  case (Cons x ops)
  show ?case
  proof (cases x)
    case (Put s)
    with Cons.prems obtain q1 where q1: "put q s = Inr q1" "wf q1" "view q1 = view q @ s"
      using put_law [of q s] by auto
    with Put Cons.IH [OF q1(2)] Cons.prems show ?thesis by (auto split: option.splits)
  next
    case (Get n)
    show ?thesis
    proof (cases "n \<le> length (view q)")
      case True
      with Cons.prems obtain sl q1 where q1: "get q n = Inr (sl, q1)" "slice_ok sl"
          "slice_text sl = take n (view q)" "wf q1" "view q1 = drop n (view q)"
        using get_law [of q n] by auto
      with Get Cons.IH [OF q1(4)] Cons.prems True show ?thesis
        by (fastforce simp: Slice_toString_ok split: option.splits)
    next
      case False
      with Get Cons.prems get_refused [of q n] show ?thesis by auto
    qed
  qed
qed simp

end

text \<open>The buffer provides the interface, whatever growth rule the vector has.\<close>

abbreviation buffer_roomy :: "buffer \<Rightarrow> bool" where
  "buffer_roomy b \<equiv> \<not> buffer_exhausted b"

lemma buffer_queue:
  assumes "grow_ok grow"
  shows "byte_queue buffer_contents buffer_wf buffer_roomy (Buffer_append grow) Buffer_retrieve"
proof
  fix q s
  assume "buffer_wf q" and "buffer_roomy q"
  then show "\<exists>q1. Buffer_append grow q s = Inr q1 \<and> buffer_wf q1 \<and>
      buffer_contents q1 = buffer_contents q @ s"
    using Buffer_append_spec [of q grow s] assms by (auto simp: buffer_reexposed_def)
next
  fix q n
  assume "buffer_wf q" and "n \<le> length (buffer_contents q)"
  then show "\<exists>sl q1. Buffer_retrieve q n = Inr (sl, q1) \<and> slice_ok sl \<and>
      slice_text sl = take n (buffer_contents q) \<and> buffer_wf q1 \<and>
      buffer_contents q1 = drop n (buffer_contents q)"
    by (auto simp: Buffer_retrieve_spec slice_ok_def slice_text_def)
qed (auto simp: Buffer_retrieve_spec dest: exhausted_contents)

locale vector_growth =
  fixes grow :: "nat \<Rightarrow> nat \<Rightarrow> nat"
  assumes growth: "grow_ok grow"

sublocale vector_growth \<subseteq> bq: byte_queue buffer_contents buffer_wf buffer_roomy
    "Buffer_append grow" Buffer_retrieve
  by (rule buffer_queue [OF growth])

interpretation libstdcxx: vector_growth libstdcxx_grow
  by unfold_locales simp

section \<open>Properties\<close>

text \<open>C13. As long as no append finds the buffer exhausted, any sequence of appends and reads
  on a \<^verbatim>\<open>Buffer\<close> is the same sequence on a plain byte list: same bytes out, same bytes left,
  and the same reads refused (by the \<^verbatim>\<open>assert\<close> in \<^verbatim>\<open>retrieve\<close>).\<close>

theorem buffer_refines_list:
  assumes "grow_ok grow" and "buffer_wf b"
    and "stays_roomy buffer_roomy (Buffer_append grow) Buffer_retrieve b ops"
  shows "case list_run (buffer_contents b) ops of
           None \<Rightarrow> \<exists>m. queue_run (Buffer_append grow) Buffer_retrieve b ops = Inl (AssertFail m)
         | Some (outs, v) \<Rightarrow>
             \<exists>b1. queue_run (Buffer_append grow) Buffer_retrieve b ops = Inr (outs, b1) \<and>
                  buffer_wf b1 \<and> buffer_contents b1 = v"
  by (rule byte_queue.run_refines [OF buffer_queue [OF assms(1)] assms(2,3)])

lemma buffer_refines_list_witness:
  "\<exists>b1. queue_run (Buffer_append libstdcxx_grow) Buffer_retrieve (Buffer_new 4)
          [Put ''abc'', Get 2, Put ''def'', Get 4] = Inr ([''ab'', ''cdef''], b1) \<and>
        buffer_wf b1 \<and> buffer_contents b1 = []"
proof -
  have "stays_roomy buffer_roomy (Buffer_append libstdcxx_grow) Buffer_retrieve (Buffer_new 4)
      [Put ''abc'', Get 2, Put ''def'', Get 4]"
    by (simp add: Buffer_append_def Buffer_makeSpace_def Buffer_readable_def Buffer_writable_def
        Buffer_retrieve_def Buffer_new_def buffer_exhausted_def vec_append_def Let_def
        copy_to_front_def)
  from buffer_refines_list [OF grow_ok_libstdcxx Buffer_new_wf this]
  show ?thesis by simp
qed

text \<open>\<^verbatim>\<open>append\<close> never fails on a well-formed buffer and keeps it well-formed; it adds the
  bytes behind the unread ones, except that on an exhausted buffer (all read, vector full) the
  bytes already consumed become readable again in front of the new ones.\<close>

theorem append_contents:
  assumes "grow_ok grow" and "buffer_wf b"
  shows "\<exists>b1. Buffer_append grow b s = Inr b1 \<and> buffer_wf b1 \<and>
           buffer_contents b1 = (if buffer_exhausted b then buf_data b else buffer_contents b) @ s"
  using Buffer_append_spec [OF assms(2,1), of s] by (auto simp: buffer_reexposed_def)

lemma append_contents_witness:
  "\<exists>b1. Buffer_append libstdcxx_grow \<lparr>buf_idx = 2, buf_data = ''ab'', buf_capacity = 2\<rparr> ''c'' = Inr b1 \<and>
        buffer_contents b1 = ''abc''"
  using append_contents [OF grow_ok_libstdcxx,
      of "\<lparr>buf_idx = 2, buf_data = ''ab'', buf_capacity = 2\<rparr>" "''c''"]
  by (auto simp: buffer_wf_def buffer_exhausted_def)

text \<open>With GNU libstdc++'s vector growth, a message that outgrows a fresh buffer is seen
  twice: after it has been read completely, the next append delivers it again, followed by the
  new bytes.\<close>

theorem append_redelivers:
  assumes "kInitLen < length s"
  shows "bindR (Buffer_append libstdcxx_grow (Buffer_new kInitLen) s) (\<lambda>b1.
         bindR (Buffer_retrieve_all b1) (\<lambda>(_, b2).
         bindR (Buffer_append libstdcxx_grow b2 t) Buffer_toString)) = Inr (s @ t)"
proof -
  let ?b1 = "\<lparr>buf_idx = 0, buf_data = s, buf_capacity = length s\<rparr>"
  let ?b2 = "\<lparr>buf_idx = length s, buf_data = s, buf_capacity = length s\<rparr>"
  have b1: "Buffer_append libstdcxx_grow (Buffer_new kInitLen) s = Inr ?b1"
    using assms by (simp add: Buffer_append_def Buffer_makeSpace_def Buffer_readable_def
        Buffer_writable_def Buffer_new_def vec_append_def libstdcxx_grow_def kInitLen_def)
  have b2: "\<exists>sl. Buffer_retrieve_all ?b1 = Inr (sl, ?b2)"
    by (simp add: Buffer_retrieve_all_def Buffer_retrieve_def Buffer_readable_def)
  obtain b3 where b3: "Buffer_append libstdcxx_grow ?b2 t = Inr b3" "buffer_wf b3"
      "buffer_contents b3 = s @ t"
    using Buffer_append_spec [OF _ grow_ok_libstdcxx, of ?b2 t]
    by (auto simp: buffer_wf_def buffer_reexposed_def buffer_exhausted_def)
  with b1 b2 show ?thesis
    by (auto simp: Buffer_toString_def Buffer_toSlice_def Slice_toString_def)
qed

lemma append_redelivers_witness:
  "bindR (Buffer_append libstdcxx_grow (Buffer_new kInitLen) (replicate 3000 CHR ''x'')) (\<lambda>b1.
   bindR (Buffer_retrieve_all b1) (\<lambda>(_, b2).
   bindR (Buffer_append libstdcxx_grow b2 ''GET'') Buffer_toString)) =
     Inr (replicate 3000 CHR ''x'' @ ''GET'')"
  by (rule append_redelivers) (simp add: kInitLen_def)

text \<open>\<^verbatim>\<open>retrieveUntil\<close> splits the unread bytes at the first occurrence of the delimiter,
  drops the delimiter and leaves the rest; without an occurrence it returns the null slice and
  leaves the buffer as it is.\<close>

theorem retrieveUntil_splits:
  assumes "buffer_wf b" and "delim \<noteq> []"
  shows "if sublist delim (buffer_contents b)
         then \<exists>sl b1 w rest. Buffer_retrieveUntil b delim = Inr (sl, b1) \<and>
                buffer_contents b = w @ delim @ rest \<and>
                (\<forall>j < length w. \<not> prefix delim (drop j (buffer_contents b))) \<and>
                slice_ok sl \<and> slice_text sl = w \<and> buffer_wf b1 \<and> buffer_contents b1 = rest
         else Buffer_retrieveUntil b delim = Inr (Slice_null, b)"
proof (cases "sublist delim (buffer_contents b)")
  case True
  then obtain w rest where split: "buffer_contents b = w @ delim @ rest"
      and len: "std_search (buffer_contents b) delim = length w"
    using std_search_obtain [OF assms(2)] by blast
  obtain b1 where b1: "Buffer_retrieveUntil b delim =
        Inr (\<lparr>sl_data = Some (w @ delim @ rest), sl_n = length w\<rparr>, b1)"
      "buffer_wf b1" "buffer_contents b1 = rest"
    using Buffer_retrieveUntil_found [OF assms(1) split assms(2) len] by blast
  moreover have "\<forall>j < length w. \<not> prefix delim (drop j (buffer_contents b))"
    using std_search_before len by metis
  moreover have "slice_ok \<lparr>sl_data = Some (w @ delim @ rest), sl_n = length w\<rparr>"
    "slice_text \<lparr>sl_data = Some (w @ delim @ rest), sl_n = length w\<rparr> = w"
    by (simp_all add: slice_ok_def slice_text_def)
  ultimately show ?thesis using True split by simp
next
  case False
  then show ?thesis by (simp add: Buffer_retrieveUntil_missing assms(2))
qed

lemma retrieveUntil_splits_witness:
  "\<exists>sl b1 w rest. Buffer_retrieveUntil \<lparr>buf_idx = 1, buf_data = ''xab: c'', buf_capacity = 9\<rparr> '': '' =
       Inr (sl, b1) \<and> ''ab: c'' = w @ '': '' @ rest \<and> slice_text sl = w \<and> buffer_contents b1 = rest"
proof -
  let ?b = "\<lparr>buf_idx = 1, buf_data = ''xab: c'', buf_capacity = 9\<rparr>"
  have wf: "buffer_wf ?b" by (simp add: buffer_wf_def)
  have c: "buffer_contents ?b = ''ab: c''" by (simp add: buffer_contents_def)
  have sub: "sublist '': '' ''ab: c''" by (simp add: sublist_Cons_right)
  show ?thesis
    using retrieveUntil_splits [OF wf, of "'': ''"] unfolding c if_P [OF sub] by blast
qed

text \<open>\<^verbatim>\<open>readFrom\<close> is all or nothing: when \<^verbatim>\<open>read\<close> delivers exactly the number of bytes
  that \<^verbatim>\<open>FIONREAD\<close> announced, they are appended (behind the re-exposed bytes if the buffer
  was exhausted); on an error or any other count the \<^verbatim>\<open>assert\<close> stops the process.\<close>

theorem readFrom_exact:
  assumes "grow_ok grow" and "buffer_wf b"
  shows "case rd of
           Some bs \<Rightarrow>
             if length bs = n
             then \<exists>b1. Buffer_readFrom grow b n rd = Inr (int n, b1) \<and> buffer_wf b1 \<and>
                    buffer_contents b1 =
                      (if buffer_exhausted b then buf_data b else buffer_contents b) @ bs
             else Buffer_readFrom grow b n rd = Inl (AssertFail ''ret == n'')
         | None \<Rightarrow> Buffer_readFrom grow b n rd = Inl (AssertFail ''ret == n'')"
  using Buffer_readFrom_spec [OF assms(2,1)] Buffer_readFrom_short [OF assms(2), of rd n grow]
  by (auto simp: buffer_reexposed_def split: option.splits)

lemma readFrom_exact_witness:
  "\<exists>b1. Buffer_readFrom libstdcxx_grow (Buffer_new 8) 2 (Some ''hi'') = Inr (2, b1) \<and>
        buffer_contents b1 = ''hi''"
  using readFrom_exact [OF grow_ok_libstdcxx Buffer_new_wf [of 8], where rd = "Some ''hi''" and n = 2]
  by (auto simp: buffer_exhausted_def Buffer_new_def buffer_contents_def)

text \<open>\<^verbatim>\<open>revoke\<close> guards with \<^verbatim>\<open>n >= idx_\<close> where it needs \<^verbatim>\<open>n <= idx_\<close>: giving back fewer
  bytes than were read aborts, giving back more wraps \<^verbatim>\<open>idx_\<close> around and breaks the buffer;
  only giving back everything read keeps it well-formed.\<close>

theorem revoke_only_everything:
  assumes "buffer_wf b" and "buf_capacity b + n < size_max1"
  shows "case Buffer_revoke b n of
           Inl _ \<Rightarrow> n < buf_idx b
         | Inr b1 \<Rightarrow> (buffer_wf b1 \<longleftrightarrow> n = buf_idx b) \<and> (buffer_wf b1 \<longrightarrow> buffer_contents b1 = buf_data b)"
proof (cases "buf_idx b < n")
  case True
  then have "size_sub (buf_idx b) n = size_max1 - (n - buf_idx b)"
    using assms(2) by (intro size_sub_wraps) simp_all
  moreover have "length (buf_data b) < size_max1 - (n - buf_idx b)"
    using assms True unfolding buffer_wf_def by arith
  ultimately show ?thesis
    using True by (simp add: Buffer_revoke_def assertR_def buffer_wf_def)
next
  case False
  then show ?thesis
    using assms by (auto simp: Buffer_revoke_def assertR_def size_sub_def buffer_wf_def
        buffer_contents_def)
qed

lemma revoke_only_everything_witness:
  "Buffer_revoke \<lparr>buf_idx = 3, buf_data = ''abcd'', buf_capacity = 8\<rparr> 2 \<in> range Inl"
  using revoke_only_everything [of "\<lparr>buf_idx = 3, buf_data = ''abcd'', buf_capacity = 8\<rparr>" 2]
  by (auto simp: Buffer_revoke_def buffer_wf_def size_max1_def)

text \<open>\<^verbatim>\<open>retrieve<T>()\<close> reads an unsigned integer in network byte order: the bytes of \<open>v\<close>,
  most significant first, give \<open>v\<close> back and are consumed.\<close>

theorem retrieve_uint_big_endian:
  assumes "buffer_wf b" and "v < 256 ^ k"
    and "buffer_contents b = rev (le_bytes k v) @ rest"
  shows "\<exists>b1. Buffer_retrieve_uint b k = Inr (v, b1) \<and> buffer_wf b1 \<and> buffer_contents b1 = rest"
proof -
  have "le_bytes k (le_value (rev (le_bytes k v))) = rev (le_bytes k v)"
    using le_bytes_value [of "rev (le_bytes k v)"] by simp
  then have "swapEndian k (le_value (rev (le_bytes k v))) = v"
    by (simp add: swapEndian_def le_value_bytes assms(2))
  then show ?thesis
    using assms by (simp add: Buffer_retrieve_uint_def Buffer_retrieve_spec Slice_toString_def)
qed

lemma retrieve_uint_big_endian_witness:
  "\<exists>b1. Buffer_retrieve_uint
          \<lparr>buf_idx = 0, buf_data = [char_of (1::nat), char_of (2::nat), CHR ''a''], buf_capacity = 8\<rparr>
          (Suc (Suc 0)) =
          Inr (258, b1) \<and> buffer_contents b1 = ''a''"
proof -
  let ?b = "\<lparr>buf_idx = 0, buf_data = [char_of (1::nat), char_of (2::nat), CHR ''a''], buf_capacity = 8\<rparr>"
  have "buffer_contents ?b = rev (le_bytes (Suc (Suc 0)) 258) @ ''a''"
    by (simp add: buffer_contents_def)
  then show ?thesis
    using retrieve_uint_big_endian [of ?b 258 "Suc (Suc 0)" "''a''"] by (auto simp: buffer_wf_def)
qed

end
