(* ===== verification/Lotta_Tcp_Connection.thy ===== *)
theory Lotta_Tcp_Connection
  imports Lotta_Buffer Lotta_Loop_Channels
begin

text \<open>
  \<^verbatim>\<open>TcpConnection\<close> (\<^verbatim>\<open>src/tcp_connection.cc\<close>) on top of \<^verbatim>\<open>Buffer\<close>, \<^verbatim>\<open>Channel\<close> and the poller.

  The state is the object together with the world it acts on: the channels and the poller of its
  loop (\<open>cn_pw\<close>), what the kernel has accepted for sending (\<open>cn_wire\<close>), whether the sending side
  was shut down, and the tasks other threads have queued for it. \<open>cn_refs\<close> counts the
  \<^verbatim>\<open>shared_ptr\<close>s that are not temporaries of a running callback; when it is 0 after a callback
  the object and its channel are destroyed.

  Outside the program are the results of \<^verbatim>\<open>write\<close> (a stream indexed by the number of the call),
  how a vector grows, and the four user callbacks: the environment \<open>conn_env\<close>.
\<close>

section \<open>State\<close>

datatype conn_state = Connecting | Connected | Disconnecting | Disconnected

datatype conn_handler = HandleRead | HandleWrite | HandleClose | HandleError

text \<open>The callbacks of the channels of an I/O loop: a handler bound to a connection (the identity of its
  channel stands for \<^verbatim>\<open>this\<close>), or one of the handlers of the loop's own two channels.\<close>

datatype io_handler = OfConn nat conn_handler | OfLoop loop_handler

datatype conn_cb = ConnCallback | MsgCallback | CloseCallback | RmConnCallback

datatype conn_task = SendTask string | ShutdownTask | CloseTask

record tcp_conn =
  cn_name :: string
  cn_state :: conn_state
  cn_chan :: nat                      \<comment> \<open>identity of \<^verbatim>\<open>channel_\<close>\<close>
  cn_socket :: bool                   \<comment> \<open>\<^verbatim>\<open>socket_\<close> is not reset\<close>
  cn_in :: buffer
  cn_out :: buffer
  cn_pw :: "io_handler pworld"
  cn_refs :: nat
  cn_queued :: "conn_task list"
  cn_writes :: nat
  cn_wire :: string
  cn_fin :: bool

record conn_env =
  env_grow :: "nat \<Rightarrow> nat \<Rightarrow> nat"
  env_write :: "nat \<Rightarrow> nat \<Rightarrow> int"     \<comment> \<open>call number, length\<close>
  env_user :: "conn_cb \<Rightarrow> tcp_conn \<Rightarrow> tcp_conn res"

text \<open>The setters of the callbacks.\<close>

definition TcpConnection_setConnCallback :: "(tcp_conn \<Rightarrow> tcp_conn res) \<Rightarrow> conn_env \<Rightarrow> conn_env" where
  "TcpConnection_setConnCallback cb env = env\<lparr>env_user := (env_user env)(ConnCallback := cb)\<rparr>"

definition TcpConnection_setMsgCallback :: "(tcp_conn \<Rightarrow> tcp_conn res) \<Rightarrow> conn_env \<Rightarrow> conn_env" where
  "TcpConnection_setMsgCallback cb env = env\<lparr>env_user := (env_user env)(MsgCallback := cb)\<rparr>"

definition TcpConnection_setCloseCallback :: "(tcp_conn \<Rightarrow> tcp_conn res) \<Rightarrow> conn_env \<Rightarrow> conn_env" where
  "TcpConnection_setCloseCallback cb env = env\<lparr>env_user := (env_user env)(CloseCallback := cb)\<rparr>"

definition TcpConnection_setRmConnCallback :: "(tcp_conn \<Rightarrow> tcp_conn res) \<Rightarrow> conn_env \<Rightarrow> conn_env" where
  "TcpConnection_setRmConnCallback cb env = env\<lparr>env_user := (env_user env)(RmConnCallback := cb)\<rparr>"

lemmas conn_setter_defs = TcpConnection_setConnCallback_def TcpConnection_setMsgCallback_def
  TcpConnection_setCloseCallback_def TcpConnection_setRmConnCallback_def

text \<open>\<^verbatim>\<open>write(2)\<close> returns \<open>-1\<close> or the number of bytes it took.\<close>

definition env_ok :: "conn_env \<Rightarrow> bool" where
  "env_ok env \<longleftrightarrow> grow_ok (env_grow env) \<and> (\<forall>k n. -1 \<le> env_write env k n \<and> env_write env k n \<le> int n)"

definition TcpConnection_new :: "io_handler pworld \<Rightarrow> nat \<Rightarrow> string \<Rightarrow> int \<Rightarrow> tcp_conn" where
  "TcpConnection_new w c name fd =
     \<lparr>cn_name = name, cn_state = Connecting, cn_chan = c, cn_socket = True,
      cn_in = Buffer_new kInitLen, cn_out = Buffer_new kInitLen,
      cn_pw = w\<lparr>pw_store := (pw_store w)(c \<mapsto>
        Channel_setErrorCallback (OfConn c HandleError) (Channel_setCloseCallback (OfConn c HandleClose)
          (Channel_setWriteCallback (OfConn c HandleWrite) (Channel_setReadCallback (OfConn c HandleRead)
            (Channel_new fd)))))\<rparr>,
      cn_refs = 1, cn_queued = [], cn_writes = 0, cn_wire = [], cn_fin = False\<rparr>"

section \<open>Operations\<close>

text \<open>A channel operation on \<^verbatim>\<open>channel_\<close>, and access to it.\<close>

definition conn_channel_op ::
  "(io_handler pworld \<Rightarrow> nat \<Rightarrow> io_handler pworld res) \<Rightarrow> tcp_conn \<Rightarrow> tcp_conn res" where
  "conn_channel_op f c = bindR (f (cn_pw c) (cn_chan c)) (\<lambda>w. Inr (c\<lparr>cn_pw := w\<rparr>))"

definition conn_channel :: "tcp_conn \<Rightarrow> io_handler channel option" where
  "conn_channel c = pw_store (cn_pw c) (cn_chan c)"

text \<open>\<^verbatim>\<open>socket::write\<close> on the connection's descriptor.\<close>

definition conn_write :: "conn_env \<Rightarrow> string \<Rightarrow> tcp_conn \<Rightarrow> int \<times> tcp_conn" where
  "conn_write env bs c =
     (let ret = env_write env (cn_writes c) (length bs)
      in (ret, c\<lparr>cn_writes := Suc (cn_writes c), cn_wire := cn_wire c @ take (nat ret) bs\<rparr>))"

text \<open>The end of the last \<^verbatim>\<open>shared_ptr\<close>: the destructor with its assert.\<close>

definition TcpConnection_release :: "tcp_conn \<Rightarrow> tcp_conn res" where
  "TcpConnection_release c =
     (if cn_refs c = 0
      then assertR (cn_state c = Disconnected) ''state_ == State::Disconnected''
        (Inr (c\<lparr>cn_socket := False,
               cn_pw := (cn_pw c)\<lparr>pw_store := (pw_store (cn_pw c))(cn_chan c := None)\<rparr>\<rparr>))
      else Inr c)"

text \<open>Calling a user callback with \<^verbatim>\<open>shared_from_this()\<close>.\<close>

definition conn_callback :: "conn_env \<Rightarrow> conn_cb \<Rightarrow> tcp_conn \<Rightarrow> tcp_conn res" where
  "conn_callback env cb c =
     derefR (conn_channel c) ''callback on a destroyed connection'' (\<lambda>_.
       bindR (env_user env cb c) TcpConnection_release)"

definition TcpConnection_handleClose :: "conn_env \<Rightarrow> tcp_conn \<Rightarrow> tcp_conn res" where
  "TcpConnection_handleClose env c = EventLoop_assertTheSameThread (cn_pw c) (
     bindR (conn_channel_op Channel_disableEvents (c\<lparr>cn_state := Disconnected\<rparr>)) (\<lambda>c1.
     bindR (conn_channel_op Channel_remove c1) (\<lambda>c2.
     bindR (conn_callback env CloseCallback c2) (conn_callback env RmConnCallback))))"

text \<open>\<open>n\<close> is what \<^verbatim>\<open>FIONREAD\<close> announces and \<open>rd\<close> what \<^verbatim>\<open>read\<close> delivers.\<close>

definition TcpConnection_handleRead :: "conn_env \<Rightarrow> nat \<Rightarrow> string option \<Rightarrow> tcp_conn \<Rightarrow> tcp_conn res" where
  "TcpConnection_handleRead env n rd c = EventLoop_assertTheSameThread (cn_pw c) (
     derefR (conn_channel c) ''channel_'' (\<lambda>_.
     bindR (Buffer_readFrom (env_grow env) (cn_in c) n rd) (\<lambda>(ret, b).
     let c1 = c\<lparr>cn_in := b\<rparr> in
     if ret = 0 then TcpConnection_handleClose env c1
     else if ret < 0 then Inr c1
     else conn_callback env MsgCallback c1)))"

definition TcpConnection_shutdownTask :: "tcp_conn \<Rightarrow> tcp_conn res" where
  "TcpConnection_shutdownTask c = EventLoop_assertTheSameThread (cn_pw c) (
     derefR (conn_channel c) ''channel_'' (\<lambda>ch.
     Inr (if Channel_isWriting ch then c else c\<lparr>cn_fin := True\<rparr>)))"

definition TcpConnection_handleWrite :: "conn_env \<Rightarrow> tcp_conn \<Rightarrow> tcp_conn res" where
  "TcpConnection_handleWrite env c = EventLoop_assertTheSameThread (cn_pw c) (
     derefR (conn_channel c) ''channel_'' (\<lambda>ch.
     if \<not> Channel_isWriting ch then Inr c else
     bindR (Buffer_readable (cn_out c)) (\<lambda>readable.
     let (n, c1) = conn_write env (take readable (Buffer_peek (cn_out c))) c in
     if n \<le> 0 then Inr c1 else
     bindR (Buffer_retrieve (cn_out c1) (nat n)) (\<lambda>(_, out).
     let c2 = c1\<lparr>cn_out := out\<rparr> in
     bindR (Buffer_readable out) (\<lambda>rest.
     if rest = 0
     then bindR (conn_channel_op Channel_disableWriting c2) (\<lambda>c3.
       if cn_state c3 = Disconnecting then TcpConnection_shutdownTask c3 else Inr c3)
     else Inr c2)))))"

definition TcpConnection_handleError :: "tcp_conn \<Rightarrow> tcp_conn res" where
  "TcpConnection_handleError c = EventLoop_assertTheSameThread (cn_pw c) (
     derefR (conn_channel c) ''channel_'' (\<lambda>_. Inr c))"

definition TcpConnection_connEstablished :: "conn_env \<Rightarrow> tcp_conn \<Rightarrow> tcp_conn res" where
  "TcpConnection_connEstablished env c = EventLoop_assertTheSameThread (cn_pw c) (
     assertR (cn_state c = Connecting) ''state_ == State::Connecting'' (
     bindR (conn_channel_op Channel_enableReading (c\<lparr>cn_state := Connected\<rparr>))
       (conn_callback env ConnCallback)))"

text \<open>\<^verbatim>\<open>n\<close> is an unsigned \<^verbatim>\<open>size_type\<close>: the \<open>-1\<close> of a failed \<^verbatim>\<open>write\<close> becomes \<open>2 ^ 64 - 1\<close>.\<close>

definition TcpConnection_sendTask :: "conn_env \<Rightarrow> string \<Rightarrow> tcp_conn \<Rightarrow> tcp_conn res" where
  "TcpConnection_sendTask env msg c = EventLoop_assertTheSameThread (cn_pw c) (
     derefR (conn_channel c) ''channel_'' (\<lambda>ch.
     bindR (if Channel_isWriting ch then Inr False
            else bindR (Buffer_readable (cn_out c)) (\<lambda>r. Inr (r = 0))) (\<lambda>direct.
     let (n, c1) = (if direct
           then (let (ret, c1) = conn_write env msg c in (nat (ret mod int size_max1), c1))
           else (0, c)) in
     if n < length msg then
       bindR (Buffer_append (env_grow env) (cn_out c1) (drop n msg)) (\<lambda>out.
       let c2 = c1\<lparr>cn_out := out\<rparr> in
       if Channel_isWriting ch then Inr c2 else conn_channel_op Channel_enableWriting c2)
     else Inr c1)))"

definition TcpConnection_send :: "conn_env \<Rightarrow> bool \<Rightarrow> string \<Rightarrow> tcp_conn \<Rightarrow> tcp_conn res" where
  "TcpConnection_send env inLoop msg c =
     (if cn_state c \<noteq> Connected then Inr c
      else if inLoop then TcpConnection_sendTask env msg c
      else Inr (c\<lparr>cn_queued := cn_queued c @ [SendTask msg]\<rparr>))"

definition TcpConnection_shutdown :: "bool \<Rightarrow> tcp_conn \<Rightarrow> tcp_conn res" where
  "TcpConnection_shutdown inLoop c =
     (if cn_state c \<noteq> Connected then Inr c
      else let c1 = c\<lparr>cn_state := Disconnecting\<rparr> in
        if inLoop then TcpConnection_shutdownTask c1
        else Inr (c1\<lparr>cn_queued := cn_queued c1 @ [ShutdownTask]\<rparr>))"

text \<open>The lambda of \<^verbatim>\<open>close\<close> holds a \<^verbatim>\<open>shared_ptr\<close> until it has run.\<close>

definition TcpConnection_closeTask :: "conn_env \<Rightarrow> tcp_conn \<Rightarrow> tcp_conn res" where
  "TcpConnection_closeTask env c =
     bindR (TcpConnection_handleClose env c) (\<lambda>c1.
       TcpConnection_release (c1\<lparr>cn_socket := False, cn_refs := cn_refs c1 - 1\<rparr>))"

definition TcpConnection_close :: "conn_env \<Rightarrow> bool \<Rightarrow> tcp_conn \<Rightarrow> tcp_conn res" where
  "TcpConnection_close env inLoop c =
     (let c1 = c\<lparr>cn_state := Disconnecting, cn_refs := Suc (cn_refs c)\<rparr> in
      if inLoop then TcpConnection_closeTask env c1
      else Inr (c1\<lparr>cn_queued := cn_queued c1 @ [CloseTask]\<rparr>))"

text \<open>What \<^verbatim>\<open>doFuncQueue\<close> does with the next queued task of the connection.\<close>

definition TcpConnection_runTask :: "conn_env \<Rightarrow> tcp_conn \<Rightarrow> tcp_conn res" where
  "TcpConnection_runTask env c = (case cn_queued c of
     [] \<Rightarrow> Inr c
   | SendTask msg # ts \<Rightarrow> TcpConnection_sendTask env msg (c\<lparr>cn_queued := ts\<rparr>)
   | ShutdownTask # ts \<Rightarrow> TcpConnection_shutdownTask (c\<lparr>cn_queued := ts\<rparr>)
   | CloseTask # ts \<Rightarrow> TcpConnection_closeTask env (c\<lparr>cn_queued := ts\<rparr>))"

text \<open>The handlers bound in the constructor, and the dispatch of one report.\<close>

fun conn_run_handler :: "conn_env \<Rightarrow> nat \<Rightarrow> string option \<Rightarrow> conn_handler \<Rightarrow> tcp_conn \<Rightarrow> tcp_conn res" where
  "conn_run_handler env n rd HandleRead c = TcpConnection_handleRead env n rd c"
| "conn_run_handler env n rd HandleWrite c = TcpConnection_handleWrite env c"
| "conn_run_handler env n rd HandleClose c = TcpConnection_handleClose env c"
| "conn_run_handler env n rd HandleError c = TcpConnection_handleError c"

text \<open>A connection sees only its own handlers: nothing else is ever bound to its channel.\<close>

fun conn_run_callback :: "conn_env \<Rightarrow> nat \<Rightarrow> string option \<Rightarrow> io_handler \<Rightarrow> tcp_conn \<Rightarrow> tcp_conn res" where
  "conn_run_callback env n rd (OfConn d h) c = conn_run_handler env n rd h c"
| "conn_run_callback env n rd (OfLoop h) c = Inl (Undefined ''not a callback of a connection'')"

definition conn_dispatch :: "conn_env \<Rightarrow> nat \<Rightarrow> string option \<Rightarrow> tcp_conn \<Rightarrow> tcp_conn res" where
  "conn_dispatch env n rd c = Channel_handleEvent (conn_run_callback env n rd) conn_channel c"

section \<open>An open connection\<close>

definition conn_mask :: "tcp_conn \<Rightarrow> 32 word" where
  "conn_mask c = (if buffer_contents (cn_out c) = [] then kReadPollEvent else kReadPollEvent OR kWritePollEvent)"

text \<open>
  Established and not closed: the channel is registered and watched, and it asks for writability
  exactly when there is something left to write.
\<close>

definition conn_open :: "tcp_conn \<Rightarrow> bool" where
  "conn_open c \<longleftrightarrow>
     (\<exists>cs. poller_rep (cn_pw c) cs \<and> cn_chan c \<in> set cs) \<and> slots_live (cn_pw c) \<and>
     (\<exists>ch. conn_channel c = Some ch \<and> ch_events ch = conn_mask c) \<and>
     buffer_wf (cn_in c) \<and> buffer_wf (cn_out c)"

definition conn_stream :: "tcp_conn \<Rightarrow> string" where
  "conn_stream c = cn_wire c @ buffer_contents (cn_out c)"

lemma mask_facts:
  "kReadPollEvent \<in> event_masks" "kReadPollEvent OR kWritePollEvent \<in> event_masks"
  "kReadPollEvent \<noteq> 0" "kReadPollEvent OR kWritePollEvent \<noteq> 0"
  "mask_enableWriting kReadPollEvent = kReadPollEvent OR kWritePollEvent"
  "mask_disableWriting (kReadPollEvent OR kWritePollEvent) = kReadPollEvent"
  "kReadPollEvent AND kWritePollEvent = 0"
  "(kReadPollEvent OR kWritePollEvent) AND kWritePollEvent \<noteq> 0"
  by (simp_all add: mask_enableWriting_def mask_disableWriting_def event_defs event_masks_def)

lemma conn_open_writing:
  assumes "conn_open c" "conn_channel c = Some ch"
  shows "Channel_isWriting ch \<longleftrightarrow> buffer_contents (cn_out c) \<noteq> []"
  using assms mask_facts(7,8) by (auto simp: conn_open_def conn_mask_def Channel_isWriting_def)

lemma conn_open_thread: "conn_open c \<Longrightarrow> pw_sameThread (cn_pw c)"
  by (auto simp: conn_open_def poller_rep_def)

text \<open>The registered channels are those of the map.\<close>

lemma rep_registered: "poller_rep w cs \<Longrightarrow> set cs = ran (pw_map w)"
proof (intro equalityI subsetI)
  fix d assume rep: "poller_rep w cs" and "d \<in> set cs"
  then obtain i where i: "i < length cs" "cs ! i = d" by (auto simp: in_set_conv_nth)
  show "d \<in> ran (pw_map w)" using poller_rep_slot [OF rep i(1)] i(2) by (metis ranI)
next
  fix d assume "poller_rep w cs" "d \<in> ran (pw_map w)"
  then show "d \<in> set cs" unfolding poller_rep_def ran_def by blast
qed

text \<open>What the operations of one connection leave alone for the other channels of its loop.\<close>

definition same_others :: "nat \<Rightarrow> 'cb pworld \<Rightarrow> 'cb pworld \<Rightarrow> bool" where
  "same_others d w w1 \<longleftrightarrow> (\<forall>cs. poller_rep w cs \<longrightarrow> poller_rep w1 cs) \<and> (slots_live w \<longrightarrow> slots_live w1) \<and>
     (\<forall>e. e \<noteq> d \<longrightarrow> pw_store w1 e = pw_store w e) \<and> dom (pw_map w1) = dom (pw_map w)"

lemma same_others_refl [simp]: "same_others d w w"
  by (simp add: same_others_def)

lemma same_others_trans: "same_others d w w1 \<Longrightarrow> same_others d w1 w2 \<Longrightarrow> same_others d w w2"
  by (auto simp: same_others_def)

text \<open>Setting the mask of an open connection's channel.\<close>

lemma conn_set_mask:
  assumes open1: "\<exists>cs. poller_rep (cn_pw c) cs \<and> cn_chan c \<in> set cs" "slots_live (cn_pw c)"
    and ch: "conn_channel c = Some ch" and ev: "f (ch_events ch) = conn_mask c"
    and wf: "buffer_wf (cn_in c)" "buffer_wf (cn_out c)"
  shows "\<exists>w. conn_channel_op (Channel_setMask f) c = Inr (c\<lparr>cn_pw := w\<rparr>) \<and> conn_open (c\<lparr>cn_pw := w\<rparr>) \<and>
     conn_channel (c\<lparr>cn_pw := w\<rparr>) = Some (ch\<lparr>ch_events := conn_mask c\<rparr>) \<and>
     same_others (cn_chan c) (cn_pw c) w"
proof -
  obtain cs where cs: "poller_rep (cn_pw c) cs" "cn_chan c \<in> set cs" using open1 by blast
  have mask: "f (ch_events ch) \<in> event_masks" "f (ch_events ch) \<noteq> 0"
    using ev mask_facts by (auto simp: conn_mask_def)
  have store: "pw_store (cn_pw c) (cn_chan c) = Some ch" using ch by (simp add: conn_channel_def)
  note law = poller.mask_law [where f = f, OF _ open1(2) _ store mask]
  obtain w where w:
    "Channel_setMask f (cn_pw c) (cn_chan c) = Inr w" "poller_rep w cs" "slots_live w"
    "pw_store w = (pw_store (cn_pw c))(cn_chan c \<mapsto> ch\<lparr>ch_events := f (ch_events ch)\<rparr>)"
    "dom (pw_map w) = dom (pw_map (cn_pw c))"
    using law [OF cs] by auto
  have "poller_rep w cs'" if rep: "poller_rep (cn_pw c) cs'" for cs'
  proof -
    have "pw_map (cn_pw c) (ch_fd ch) = Some (cn_chan c)"
      using cs store poller_rep_slot [OF cs(1)] by (metis in_set_conv_nth option.inject)
    then have "cn_chan c \<in> set cs'" using rep by (auto simp: poller_rep_def)
    from law [OF rep this] w(1) show ?thesis by auto
  qed
  then have "same_others (cn_chan c) (cn_pw c) w" using w by (simp add: same_others_def)
  moreover have "conn_channel (c\<lparr>cn_pw := w\<rparr>) = Some (ch\<lparr>ch_events := conn_mask c\<rparr>)"
    using w(4) ev by (simp add: conn_channel_def)
  ultimately show ?thesis
    using w cs wf by (auto simp: conn_channel_op_def conn_open_def conn_mask_def)
qed

section \<open>Sending\<close>

lemma ret_unsigned:
  "0 \<le> ret \<Longrightarrow> ret \<le> int n \<Longrightarrow> n < size_max1 \<Longrightarrow> nat (ret mod int size_max1) = nat ret"
  by simp

text \<open>Whatever the kernel answers and whatever the buffer is like, the connection stays open.\<close>

lemma sendTask_spec:
  assumes opened: "conn_open c" and env: "env_ok env"
  shows "\<exists>c1. TcpConnection_sendTask env msg c = Inr c1 \<and> conn_open c1 \<and>
     same_others (cn_chan c) (cn_pw c) (cn_pw c1) \<and> cn_chan c1 = cn_chan c \<and>
     cn_state c1 = cn_state c \<and> cn_fin c1 = cn_fin c \<and>
     cn_refs c1 = cn_refs c \<and> cn_queued c1 = cn_queued c \<and> cn_in c1 = cn_in c \<and>
     (\<not> buffer_exhausted (cn_out c) \<and> 0 \<le> env_write env (cn_writes c) (length msg) \<and> length msg < size_max1 \<longrightarrow>
        conn_stream c1 = conn_stream c @ msg)"
proof -
  obtain ch where ch: "conn_channel c = Some ch" "ch_events ch = conn_mask c"
    and reg: "\<exists>cs. poller_rep (cn_pw c) cs \<and> cn_chan c \<in> set cs" "slots_live (cn_pw c)"
    and wf: "buffer_wf (cn_in c)" "buffer_wf (cn_out c)"
    using opened by (auto simp: conn_open_def)
  let ?ret = "env_write env (cn_writes c) (length msg)"
  define n where "n = nat (?ret mod int size_max1)"
  have n: "n = nat ?ret" if "0 \<le> ?ret" "length msg < size_max1"
    using env that ret_unsigned [of ?ret "length msg"] unfolding n_def by (simp add: env_ok_def)
  have grow: "grow_ok (env_grow env)" using env by (simp add: env_ok_def)
  note writing = conn_open_writing [OF opened ch(1)]
  note thread = conn_open_thread [OF opened]
  have append: "\<exists>b. Buffer_append (env_grow env) (cn_out c) s = Inr b \<and> buffer_wf b \<and>
      buffer_contents b = buffer_reexposed (cn_out c) @ s" for s
    using Buffer_append_spec [OF wf(2) grow, of s] by auto
  note code = TcpConnection_sendTask_def EventLoop_assertTheSameThread_def thread ch(1) Let_def
  show ?thesis
  proof (cases "buffer_contents (cn_out c) = []")
    case False
    then have "\<not> buffer_exhausted (cn_out c)" using exhausted_contents by blast
    then obtain b where b: "Buffer_append (env_grow env) (cn_out c) msg = Inr b" "buffer_wf b"
      "buffer_contents b = buffer_contents (cn_out c) @ msg"
      using append by (auto simp: buffer_reexposed_def)
    have "conn_open (c\<lparr>cn_out := b\<rparr>)"
      using False b opened by (auto simp: conn_open_def conn_channel_def conn_mask_def)
    then show ?thesis
      using False writing b opened by (cases "msg = []") (simp_all add: code conn_stream_def)
  next
    case True
    let ?c1 = "c\<lparr>cn_writes := Suc (cn_writes c), cn_wire := cn_wire c @ take (nat ?ret) msg\<rparr>"
    have r: "Buffer_readable (cn_out c) = Inr 0" using wf(2) True by simp
    show ?thesis
    proof (cases "n < length msg")
      case False
      then have "conn_open ?c1"
        using opened by (auto simp: conn_open_def conn_channel_def conn_mask_def)
      moreover have "conn_stream ?c1 = conn_stream c @ msg" if "0 \<le> ?ret" "length msg < size_max1"
        using False True n [OF that] by (simp add: conn_stream_def)
      ultimately show ?thesis
        using False True writing r by (simp add: code conn_write_def n_def [symmetric])
    next
      case less: True
      obtain b where b: "Buffer_append (env_grow env) (cn_out c) (drop n msg) = Inr b" "buffer_wf b"
        "buffer_contents b = buffer_reexposed (cn_out c) @ drop n msg"
        using append by blast
      let ?c2 = "?c1\<lparr>cn_out := b\<rparr>"
      have mask: "mask_enableWriting (ch_events ch) = conn_mask ?c2"
        using True less b(3) ch(2) mask_facts(5) by (simp add: conn_mask_def)
      obtain w where w: "conn_channel_op Channel_enableWriting ?c2 = Inr (?c2\<lparr>cn_pw := w\<rparr>)"
        "conn_open (?c2\<lparr>cn_pw := w\<rparr>)" "same_others (cn_chan c) (cn_pw c) w"
        using conn_set_mask [of ?c2 ch mask_enableWriting] reg ch(1) mask wf(1) b(2)
        by (auto simp: conn_channel_def Channel_enableWriting_def)
      have "conn_stream (?c2\<lparr>cn_pw := w\<rparr>) = conn_stream c @ msg"
        if "\<not> buffer_exhausted (cn_out c)" "0 \<le> ?ret" "length msg < size_max1"
        using True b(3) n [OF that(2,3)] that(1) by (simp add: conn_stream_def buffer_reexposed_def)
      then show ?thesis
        using less True writing r b w by (simp add: code conn_write_def n_def [symmetric])
    qed
  qed
qed

lemma sendTask_stream:
  assumes "conn_open c" and "env_ok env" and "\<not> buffer_exhausted (cn_out c)"
    and "0 \<le> env_write env (cn_writes c) (length msg)" and "length msg < size_max1"
  shows "\<exists>c1. TcpConnection_sendTask env msg c = Inr c1 \<and> conn_open c1 \<and>
     conn_stream c1 = conn_stream c @ msg \<and> cn_state c1 = cn_state c \<and> cn_fin c1 = cn_fin c \<and>
     cn_refs c1 = cn_refs c \<and> cn_queued c1 = cn_queued c \<and> cn_in c1 = cn_in c"
  using sendTask_spec [OF assms(1,2), of msg] assms(3-5) by auto

section \<open>Flushing and shutting down\<close>

lemma shutdownTask_open:
  assumes "conn_open c"
  shows "TcpConnection_shutdownTask c =
    Inr (if buffer_contents (cn_out c) = [] then c\<lparr>cn_fin := True\<rparr> else c)"
proof -
  obtain ch where "conn_channel c = Some ch" using assms by (auto simp: conn_open_def)
  then show ?thesis
    using conn_open_writing [OF assms] conn_open_thread [OF assms]
    by (simp add: TcpConnection_shutdownTask_def EventLoop_assertTheSameThread_def)
qed

lemma handleWrite_stream:
  assumes opened: "conn_open c" and env: "env_ok env"
  defines "n \<equiv> nat (env_write env (cn_writes c) (length (buffer_contents (cn_out c))))"
  shows "\<exists>c1. TcpConnection_handleWrite env c = Inr c1 \<and> conn_open c1 \<and> conn_stream c1 = conn_stream c \<and>
     same_others (cn_chan c) (cn_pw c) (cn_pw c1) \<and> cn_chan c1 = cn_chan c \<and> cn_in c1 = cn_in c \<and>
     cn_state c1 = cn_state c \<and> cn_refs c1 = cn_refs c \<and> cn_queued c1 = cn_queued c \<and>
     buffer_contents (cn_out c1) = drop n (buffer_contents (cn_out c)) \<and>
     (cn_fin c1 \<longleftrightarrow> cn_fin c \<or>
        cn_state c = Disconnecting \<and> buffer_contents (cn_out c) \<noteq> [] \<and> buffer_contents (cn_out c1) = [])"
proof -
  obtain ch where ch: "conn_channel c = Some ch" "ch_events ch = conn_mask c"
    and reg: "\<exists>cs. poller_rep (cn_pw c) cs \<and> cn_chan c \<in> set cs" "slots_live (cn_pw c)"
    and wf: "buffer_wf (cn_in c)" "buffer_wf (cn_out c)"
    using opened by (auto simp: conn_open_def)
  let ?out = "buffer_contents (cn_out c)"
  let ?n = "env_write env (cn_writes c) (length ?out)"
  let ?c1 = "c\<lparr>cn_writes := Suc (cn_writes c), cn_wire := cn_wire c @ take n ?out\<rparr>"
  note writing = conn_open_writing [OF opened ch(1)]
  note code = TcpConnection_handleWrite_def EventLoop_assertTheSameThread_def conn_open_thread [OF opened]
    ch(1) writing wf(2) conn_write_def n_def [symmetric] Let_def
  have open1: "conn_open ?c1" using opened by (simp add: conn_open_def conn_channel_def conn_mask_def)
  consider (idle) "?out = []" | (none) "?out \<noteq> []" "?n \<le> 0" | (some) "?out \<noteq> []" "0 < ?n" by fastforce
  then show ?thesis
  proof cases
    case idle
    then show ?thesis using opened by (simp add: code)
  next
    case none
    then have "n = 0" by (simp add: n_def)
    with none open1 show ?thesis by (simp add: code conn_stream_def)
  next
    case some
    have n: "n \<le> length ?out" using env by (simp add: env_ok_def n_def nat_le_iff)
    let ?b = "(cn_out c)\<lparr>buf_idx := buf_idx (cn_out c) + n\<rparr>"
    let ?c2 = "?c1\<lparr>cn_out := ?b\<rparr>"
    have ret: "Buffer_retrieve (cn_out c) n = Inr (\<lparr>sl_data = Some ?out, sl_n = n\<rparr>, ?b)"
      using Buffer_retrieve_spec [OF wf(2), of n] n by simp
    have b: "buffer_wf ?b" "buffer_contents ?b = drop n ?out" using advance_wf [OF wf(2) n] by simp_all
    show ?thesis
    proof (cases "drop n ?out = []")
      case False
      then have "conn_open ?c2"
        using some opened b by (simp add: conn_open_def conn_channel_def conn_mask_def)
      then show ?thesis
        using some False ret b by (simp add: code conn_stream_def)
    next
      case True
      have mask: "mask_disableWriting (ch_events ch) = conn_mask ?c2"
        using some True b ch(2) mask_facts(6) by (simp add: conn_mask_def)
      obtain w where w: "conn_channel_op Channel_disableWriting ?c2 = Inr (?c2\<lparr>cn_pw := w\<rparr>)"
        "conn_open (?c2\<lparr>cn_pw := w\<rparr>)" "same_others (cn_chan c) (cn_pw c) w"
        using conn_set_mask [of ?c2 ch mask_disableWriting] reg ch(1) mask wf(1) b(1)
        by (auto simp: conn_channel_def Channel_disableWriting_def)
      have fin: "conn_open (?c2\<lparr>cn_pw := w, cn_fin := True\<rparr>)"
        using w(2) by (simp add: conn_open_def conn_channel_def conn_mask_def)
      show ?thesis
        using some True ret b w fin shutdownTask_open [OF w(2)] by (simp add: code conn_stream_def)
    qed
  qed
qed

text \<open>Runs of the loop's side of a connection.\<close>

datatype conn_op = OpSend string | OpWritable

fun conn_step :: "conn_env \<Rightarrow> conn_op \<Rightarrow> tcp_conn \<Rightarrow> tcp_conn res" where
  "conn_step env (OpSend msg) c = TcpConnection_send env True msg c"
| "conn_step env OpWritable c = TcpConnection_handleWrite env c"

fun conn_run :: "conn_env \<Rightarrow> conn_op list \<Rightarrow> tcp_conn \<Rightarrow> tcp_conn res" where
  "conn_run env [] c = Inr c"
| "conn_run env (op # ops) c = bindR (conn_step env op c) (conn_run env ops)"

definition sent_bytes :: "conn_op list \<Rightarrow> string" where
  "sent_bytes ops = concat (map (\<lambda>op. case op of OpSend msg \<Rightarrow> msg | OpWritable \<Rightarrow> []) ops)"

text \<open>No \<^verbatim>\<open>send\<close> of the run meets an exhausted buffer or a failing \<^verbatim>\<open>write\<close>.\<close>

fun clean_run :: "conn_env \<Rightarrow> conn_op list \<Rightarrow> tcp_conn \<Rightarrow> bool" where
  "clean_run env [] c = True"
| "clean_run env (op # ops) c =
     ((case op of
         OpSend msg \<Rightarrow> \<not> buffer_exhausted (cn_out c) \<and> length msg < size_max1 \<and>
           0 \<le> env_write env (cn_writes c) (length msg)
       | OpWritable \<Rightarrow> True) \<and>
      (case conn_step env op c of Inl _ \<Rightarrow> True | Inr c1 \<Rightarrow> clean_run env ops c1))"

lemma conn_run_stream:
  "conn_open c \<Longrightarrow> env_ok env \<Longrightarrow> cn_state c = Connected \<Longrightarrow> clean_run env ops c \<Longrightarrow>
   \<exists>c1. conn_run env ops c = Inr c1 \<and> conn_open c1 \<and> cn_state c1 = Connected \<and>
     conn_stream c1 = conn_stream c @ sent_bytes ops"
proof (induction ops arbitrary: c)
  case Nil
  then show ?case by (simp add: sent_bytes_def)
next
  case (Cons op ops)
  have "\<exists>c1. conn_step env op c = Inr c1 \<and> conn_open c1 \<and> cn_state c1 = Connected \<and>
      conn_stream c1 = conn_stream c @ sent_bytes [op]"
  proof (cases op)
    case (OpSend msg)
    then show ?thesis
      using sendTask_stream [OF Cons.prems(1,2), of msg] Cons.prems(3,4)
      by (auto simp: TcpConnection_send_def sent_bytes_def)
  next
    case OpWritable
    then show ?thesis
      using handleWrite_stream [OF Cons.prems(1,2)] Cons.prems(3) by (auto simp: sent_bytes_def)
  qed
  then obtain c1 where c1: "conn_step env op c = Inr c1" "conn_open c1" "cn_state c1 = Connected"
    "conn_stream c1 = conn_stream c @ sent_bytes [op]" by blast
  have "clean_run env ops c1" using Cons.prems(4) c1(1) by simp
  from Cons.IH [OF c1(2) Cons.prems(2) c1(3) this] c1 show ?case
    by (auto simp: sent_bytes_def)
qed

fun flush :: "conn_env \<Rightarrow> nat \<Rightarrow> tcp_conn \<Rightarrow> tcp_conn res" where
  "flush env 0 c = Inr c"
| "flush env (Suc k) c = bindR (TcpConnection_handleWrite env c) (flush env k)"

text \<open>While the connection drains after \<^verbatim>\<open>shutdown\<close>: after any number of writability events the
  stream is what it was, and the sending side is shut down exactly when nothing is left.\<close>

lemma flush_drains:
  assumes env: "env_ok env" and progress: "\<forall>k n. 0 < n \<longrightarrow> 0 < env_write env k n"
  shows "conn_open c \<Longrightarrow> cn_state c = Disconnecting \<Longrightarrow> (cn_fin c \<longleftrightarrow> buffer_contents (cn_out c) = []) \<Longrightarrow>
    \<exists>c1. flush env k c = Inr c1 \<and> conn_open c1 \<and> conn_stream c1 = conn_stream c \<and>
      (cn_fin c1 \<longleftrightarrow> buffer_contents (cn_out c1) = []) \<and>
      length (buffer_contents (cn_out c1)) \<le> length (buffer_contents (cn_out c)) - k"
proof (induction k arbitrary: c)
  case 0
  then show ?case by simp
next
  case (Suc k)
  let ?out = "buffer_contents (cn_out c)"
  obtain c1 where c1: "TcpConnection_handleWrite env c = Inr c1" "conn_open c1"
    "conn_stream c1 = conn_stream c" "cn_state c1 = cn_state c"
    "buffer_contents (cn_out c1) = drop (nat (env_write env (cn_writes c) (length ?out))) ?out"
    "cn_fin c1 \<longleftrightarrow> cn_fin c \<or>
       cn_state c = Disconnecting \<and> ?out \<noteq> [] \<and> buffer_contents (cn_out c1) = []"
    using handleWrite_stream [OF Suc.prems(1) env] by blast
  have state: "cn_state c1 = Disconnecting" using c1(4) Suc.prems(2) by simp
  have shorter: "length (buffer_contents (cn_out c1)) \<le> length ?out - 1"
  proof (cases "?out = []")
    case False
    then have "0 < env_write env (cn_writes c) (length ?out)" using progress by simp
    then show ?thesis using c1(5) by simp
  qed (simp add: c1(5))
  have "cn_fin c1 \<longleftrightarrow> buffer_contents (cn_out c1) = []"
    using c1(5,6) Suc.prems(2,3) by (cases "?out = []") auto
  from Suc.IH [OF c1(2) state this] c1(1,3) shorter show ?case by fastforce
qed

section \<open>Closing\<close>

definition quiet_env :: "(nat \<Rightarrow> nat \<Rightarrow> int) \<Rightarrow> conn_env" where
  "quiet_env wr = \<lparr>env_grow = libstdcxx_grow, env_write = wr, env_user = (\<lambda>_ c. Inr c)\<rparr>"

text \<open>The only owner (the server's map) gives the connection up when it is asked to remove it.\<close>

definition owner_env :: "conn_env" where
  "owner_env = \<lparr>env_grow = libstdcxx_grow, env_write = (\<lambda>k n. int n),
     env_user = (\<lambda>cb c. Inr (if cb = RmConnCallback then c\<lparr>cn_refs := cn_refs c - 1\<rparr> else c))\<rparr>"

text \<open>Up to the callbacks, \<^verbatim>\<open>handleClose\<close> takes the channel, and only it, out of the poller.\<close>

lemma handleClose_channel:
  assumes opened: "conn_open c"
  shows "\<exists>w1 cs1. TcpConnection_handleClose env c =
       bindR (conn_callback env CloseCallback (c\<lparr>cn_state := Disconnected, cn_pw := w1\<rparr>)) (conn_callback env RmConnCallback) \<and>
     poller_rep w1 cs1 \<and> slots_live w1 \<and> ran (pw_map w1) = ran (pw_map (cn_pw c)) - {cn_chan c} \<and>
     pw_store w1 (cn_chan c) \<noteq> None \<and>
     (\<exists>ch. pw_store w1 (cn_chan c) = Some ch \<and> ch_events ch = 0 \<and> 0 \<le> ch_idxPoll ch \<and> ch_fd ch \<notin> dom (pw_map w1)) \<and>
     (\<forall>e. e \<noteq> cn_chan c \<longrightarrow> (\<exists>i. pw_store w1 e = map_option (\<lambda>ch. ch\<lparr>ch_idxPoll := i\<rparr>) (pw_store (cn_pw c) e)))"
proof -
  obtain cs ch where cs: "poller_rep (cn_pw c) cs" "slots_live (cn_pw c)" "cn_chan c \<in> set cs"
    and ch: "pw_store (cn_pw c) (cn_chan c) = Some ch"
    using opened by (auto simp: conn_open_def conn_channel_def)
  obtain w1 cs1 where w1: "bindR (Channel_setMask (\<lambda>_. kEmptyEvent) (cn_pw c) (cn_chan c))
      (\<lambda>w. Channel_remove w (cn_chan c)) = Inr w1"
    and rep1: "poller_rep w1 cs1" "slots_live w1" "set cs1 = set cs - {cn_chan c}"
      "dom (pw_map w1) = dom (pw_map (cn_pw c)) - {ch_fd ch}" "pw_store w1 (cn_chan c) = Some (ch\<lparr>ch_events := 0\<rparr>)"
    and store: "\<forall>d. \<exists>i. pw_store w1 d = map_option (\<lambda>dh. dh\<lparr>ch_idxPoll := i\<rparr>)
      (((pw_store (cn_pw c))(cn_chan c \<mapsto> ch\<lparr>ch_events := 0\<rparr>)) d)"
    using poller.close_law [OF cs ch] by blast
  have ops: "bindR (conn_channel_op Channel_disableEvents (c\<lparr>cn_state := Disconnected\<rparr>))
      (conn_channel_op Channel_remove) = Inr (c\<lparr>cn_state := Disconnected, cn_pw := w1\<rparr>)"
    using w1 by (auto simp: conn_channel_op_def Channel_disableEvents_def res_iffs)
  have "TcpConnection_handleClose env c =
      bindR (bindR (conn_channel_op Channel_disableEvents (c\<lparr>cn_state := Disconnected\<rparr>))
        (conn_channel_op Channel_remove))
        (\<lambda>c2. bindR (conn_callback env CloseCallback c2) (conn_callback env RmConnCallback))"
    using conn_open_thread [OF opened]
    by (simp add: TcpConnection_handleClose_def EventLoop_assertTheSameThread_def bindR_assoc)
  moreover have "pw_store w1 (cn_chan c) \<noteq> None" using rep1(5) by simp
  moreover have "0 \<le> ch_idxPoll ch"
    using poller_rep_slot [OF cs(1)] cs(3) ch by (metis in_set_conv_nth of_nat_0_le_iff option.inject)
  then have "\<exists>ch. pw_store w1 (cn_chan c) = Some ch \<and> ch_events ch = 0 \<and> 0 \<le> ch_idxPoll ch \<and> ch_fd ch \<notin> dom (pw_map w1)"
    using rep1(4,5) by simp
  moreover have "\<exists>i. pw_store w1 e = map_option (\<lambda>ch. ch\<lparr>ch_idxPoll := i\<rparr>) (pw_store (cn_pw c) e)" if "e \<noteq> cn_chan c" for e
    using store [THEN spec, of e] that by auto
  moreover have "ran (pw_map w1) = ran (pw_map (cn_pw c)) - {cn_chan c}"
    using rep_registered [OF rep1(1)] rep_registered [OF cs(1)] rep1(3) by simp
  ultimately show ?thesis using rep1(1,2) ops by auto
qed

lemma handleClose_destroys:
  assumes opened: "conn_open c" and refs: "cn_refs c = 1"
    and close: "\<forall>c. env_user env CloseCallback c = Inr c"
    and remove: "\<forall>c. env_user env RmConnCallback c = Inr (c\<lparr>cn_refs := cn_refs c - 1\<rparr>)"
  shows "\<exists>c1. TcpConnection_handleClose env c = Inr c1 \<and> conn_channel c1 = None"
proof -
  obtain w1 where "TcpConnection_handleClose env c =
       bindR (conn_callback env CloseCallback (c\<lparr>cn_state := Disconnected, cn_pw := w1\<rparr>)) (conn_callback env RmConnCallback)"
    "pw_store w1 (cn_chan c) \<noteq> None"
    using handleClose_channel [OF opened] by blast
  then show ?thesis
    using refs by (auto simp: conn_callback_def conn_channel_def close remove TcpConnection_release_def)
qed

section \<open>Establishing\<close>

lemma connEstablished_spec:
  assumes rep: "poller_rep w cs" and live: "slots_live w" and fresh: "d \<notin> set cs"
    and fd: "0 \<le> fd" "fd \<notin> dom (pw_map w)"
    and user: "\<forall>c. env_user env ConnCallback c = Inr c"
  shows "\<exists>w1 ch. TcpConnection_connEstablished env (TcpConnection_new w d name fd) =
       Inr ((TcpConnection_new w d name fd)\<lparr>cn_state := Connected, cn_pw := w1\<rparr>) \<and>
     conn_open ((TcpConnection_new w d name fd)\<lparr>cn_state := Connected, cn_pw := w1\<rparr>) \<and>
     poller_rep w1 (cs @ [d]) \<and> slots_live w1 \<and> pw_store w1 = (pw_store w)(d \<mapsto> ch) \<and>
     kernel_watch (pw_fds w1) = (kernel_watch (pw_fds w))(fd \<mapsto> ucast kReadPollEvent)"
proof -
  let ?c = "TcpConnection_new w d name fd"
  obtain ch where ch: "pw_store (cn_pw ?c) d = Some ch" "ch_idxPoll ch < 0" "ch_fd ch = fd" "ch_events ch = 0"
    by (simp add: TcpConnection_new_def Channel_new_def Channel_setReadCallback_def
        Channel_setWriteCallback_def Channel_setCloseCallback_def Channel_setErrorCallback_def)
  obtain x where w: "cn_pw ?c = w\<lparr>pw_store := (pw_store w)(d \<mapsto> x)\<rparr>" by (simp add: TcpConnection_new_def)
  then have rep1: "poller_rep (cn_pw ?c) cs" and same: "pw_map (cn_pw ?c) = pw_map w" "pw_fds (cn_pw ?c) = pw_fds w"
    using rep_store_other [OF rep fresh] by simp_all
  have live1: "slots_live (cn_pw ?c)" using live same by (simp add: slots_live_def)
  have mask: "mask_enableReading (ch_events ch) = kReadPollEvent" "kReadPollEvent \<in> event_masks"
    using ch(4) mask_facts by (simp_all add: mask_enableReading_def)
  obtain w1 i where w1: "Channel_setMask mask_enableReading (cn_pw ?c) d = Inr w1" "poller_rep w1 (cs @ [d])"
    "slots_live w1"
    "pw_store w1 = (pw_store (cn_pw ?c))(d \<mapsto> ch\<lparr>ch_events := kReadPollEvent, ch_idxPoll := i\<rparr>)"
    "kernel_watch (pw_fds w1) = (kernel_watch (pw_fds w))(fd \<mapsto> ucast kReadPollEvent)"
    using poller.add_law [OF rep1 live1 ch(1,2), of mask_enableReading] fd mask ch(3) same by auto
  let ?c1 = "?c\<lparr>cn_state := Connected, cn_pw := w1\<rparr>"
  have fields: "cn_state ?c = Connecting" "cn_chan ?c = d" "cn_refs ?c = 1"
    "cn_in ?c = Buffer_new kInitLen" "cn_out ?c = Buffer_new kInitLen" "pw_sameThread (cn_pw ?c)"
    using rep1 by (simp_all add: TcpConnection_new_def poller_rep_def)
  have chan: "conn_channel ?c1 = Some (ch\<lparr>ch_events := kReadPollEvent, ch_idxPoll := i\<rparr>)"
    using w1(4) fields by (simp add: conn_channel_def)
  have "conn_open ?c1"
    using w1(2,3) chan fields by (auto simp: conn_open_def conn_mask_def)
  moreover have "TcpConnection_connEstablished env ?c = Inr ?c1"
    using w1(1) fields user chan
    by (simp add: TcpConnection_connEstablished_def EventLoop_assertTheSameThread_def conn_channel_op_def
        Channel_enableReading_def conn_callback_def TcpConnection_release_def)
  moreover have "pw_store w1 = (pw_store w)(d \<mapsto> ch\<lparr>ch_events := kReadPollEvent, ch_idxPoll := i\<rparr>)"
    using w1(4) w by simp
  ultimately show ?thesis using w1(2,3,5) by blast
qed

section \<open>Properties\<close>

text \<open>C2. The byte stream of an open connection is preserved by any interleaving of sends and
  writability events: what the kernel has taken followed by what is still buffered is exactly
  what it was, extended by the messages sent, in order; provided no \<^verbatim>\<open>send\<close> meets an exhausted
  output buffer or a failing \<^verbatim>\<open>write\<close>.\<close>

theorem stream_preserved:
  assumes "conn_open c" and "env_ok env" and "cn_state c = Connected" and "clean_run env ops c"
  shows "\<exists>c1. conn_run env ops c = Inr c1 \<and>
     cn_wire c1 @ buffer_contents (cn_out c1) = cn_wire c @ buffer_contents (cn_out c) @ sent_bytes ops \<and>
     (\<exists>ch. conn_channel c1 = Some ch \<and> (Channel_isWriting ch \<longleftrightarrow> buffer_contents (cn_out c1) \<noteq> []))"
proof -
  obtain c1 where c1: "conn_run env ops c = Inr c1" "conn_open c1" "conn_stream c1 = conn_stream c @ sent_bytes ops"
    using conn_run_stream [OF assms] by blast
  moreover obtain ch where "conn_channel c1 = Some ch" using c1(2) by (auto simp: conn_open_def)
  ultimately show ?thesis
    using conn_open_writing [OF c1(2)] by (auto simp: conn_stream_def)
qed

definition sample_conn :: "buffer \<Rightarrow> tcp_conn" where
  "sample_conn b =
     \<lparr>cn_name = ''srv#0'', cn_state = Connected, cn_chan = 0, cn_socket = True, cn_in = Buffer_new kInitLen,
      cn_out = b, cn_pw = \<lparr>pw_store = [0 \<mapsto> \<lparr>ch_fd = 7, ch_events = kReadPollEvent, ch_revents = 1,
          ch_idxPoll = 0, ch_readCb = Some (OfConn 0 HandleRead), ch_writeCb = Some (OfConn 0 HandleWrite),
          ch_closeCb = Some (OfConn 0 HandleClose), ch_errorCb = Some (OfConn 0 HandleError)\<rparr>],
        pw_map = [7 \<mapsto> 0], pw_fds = [\<lparr>pf_fd = 7, pf_events = ucast kReadPollEvent, pf_revents = 0\<rparr>],
        pw_sameThread = True\<rparr>,
      cn_refs = 1, cn_queued = [], cn_writes = 0, cn_wire = [], cn_fin = False\<rparr>"

lemma sample_conn_open:
  assumes "buffer_wf b" "buffer_contents b = []"
  shows "conn_open (sample_conn b)"
proof -
  have "poller_rep (cn_pw (sample_conn b)) [0]"
    by (simp add: sample_conn_def poller_rep_def slot_ok_def mask_facts)
  then show ?thesis
    using assms by (auto simp: conn_open_def sample_conn_def slots_live_def conn_channel_def conn_mask_def)
qed

lemma quiet_env_ok: "\<forall>k n. -1 \<le> wr k n \<and> wr k n \<le> int n \<Longrightarrow> env_ok (quiet_env wr)"
  by (simp add: env_ok_def quiet_env_def)

lemma stream_preserved_witness:
  "\<exists>c1. conn_run (quiet_env (\<lambda>k n. if k = 0 then min 1 (int n) else int n)) [OpSend ''abc'', OpWritable]
      (sample_conn (Buffer_new 8)) = Inr c1 \<and> cn_wire c1 @ buffer_contents (cn_out c1) = ''abc''"
proof -
  let ?wr = "\<lambda>k n. if k = (0 :: nat) then min 1 (int n) else int n"
  have env: "env_ok (quiet_env ?wr)" by (rule quiet_env_ok) auto
  have opened: "conn_open (sample_conn (Buffer_new 8))" by (rule sample_conn_open) simp_all
  have state: "cn_state (sample_conn (Buffer_new 8)) = Connected" by (simp add: sample_conn_def)
  have clean: "clean_run (quiet_env ?wr) [OpSend ''abc'', OpWritable] (sample_conn (Buffer_new 8))"
    by (simp add: sample_conn_def quiet_env_def buffer_exhausted_def Buffer_new_def size_max1_def
        split: sum.splits)
  show ?thesis
    using stream_preserved [OF opened env state clean]
    by (auto simp: sample_conn_def sent_bytes_def)
qed

text \<open>A failing \<^verbatim>\<open>write\<close> loses the message without a trace, also when it fails only because
  the socket buffer is full (\<^verbatim>\<open>EAGAIN\<close>): the result is stored in an unsigned variable, the test
  \<^verbatim>\<open>n < 0\<close> never holds, and \<open>2 ^ 64 - 1\<close> counts as everything written.\<close>

theorem write_error_drops:
  assumes opened: "conn_open c" and "buffer_contents (cn_out c) = []" and "cn_state c = Connected"
    and fails: "env_write env (cn_writes c) (length msg) = -1" and len: "length msg < size_max1"
  shows "TcpConnection_send env True msg c = Inr (c\<lparr>cn_writes := Suc (cn_writes c)\<rparr>)"
proof -
  obtain ch where ch: "conn_channel c = Some ch" and wf: "buffer_wf (cn_out c)"
    using opened by (auto simp: conn_open_def)
  have "(-1 :: int) mod int size_max1 = int size_max1 - 1" by (simp add: size_max1_def)
  then have "\<not> nat (-1 mod int size_max1) < length msg" using len by (simp add: size_max1_def)
  then show ?thesis
    using assms ch wf conn_open_writing [OF opened ch] conn_open_thread [OF opened]
    by (simp add: TcpConnection_send_def TcpConnection_sendTask_def EventLoop_assertTheSameThread_def
        conn_write_def Let_def)
qed

lemma write_error_drops_witness:
  "TcpConnection_send (quiet_env (\<lambda>k n. -1)) True ''hello'' (sample_conn (Buffer_new 8)) =
     Inr ((sample_conn (Buffer_new 8))\<lparr>cn_writes := 1\<rparr>)"
  using write_error_drops [OF sample_conn_open [of "Buffer_new 8"], of "quiet_env (\<lambda>k n. -1)" "''hello''"]
  by (simp add: sample_conn_def quiet_env_def size_max1_def)



text \<open>C20. \<^verbatim>\<open>shutdown\<close> delivers what was sent before it: the calls of \<^verbatim>\<open>handleWrite\<close> that follow,
  however much the kernel takes in each (at least one byte), lose and repeat nothing, and after
  each of them the sending side is shut down exactly if the last byte is out, never before; that
  is so after at most as many of them as there were unsent bytes.\<close>

theorem shutdown_flushes:
  assumes opened: "conn_open c" and env: "env_ok env" and "cn_state c = Connected"
    and progress: "\<forall>k n. 0 < n \<longrightarrow> 0 < env_write env k n" and "\<not> cn_fin c"
  shows "\<exists>c1. TcpConnection_shutdown True c = Inr c1 \<and>
     (\<forall>k. \<exists>c2. flush env k c1 = Inr c2 \<and>
        cn_wire c2 @ buffer_contents (cn_out c2) = cn_wire c @ buffer_contents (cn_out c) \<and>
        (cn_fin c2 \<longleftrightarrow> buffer_contents (cn_out c2) = []) \<and>
        (length (buffer_contents (cn_out c)) \<le> k \<longrightarrow> cn_fin c2))"
proof -
  let ?c0 = "c\<lparr>cn_state := Disconnecting\<rparr>"
  let ?c1 = "if buffer_contents (cn_out c) = [] then ?c0\<lparr>cn_fin := True\<rparr> else ?c0"
  have open0: "conn_open ?c0" and open1: "conn_open ?c1"
    using opened by (auto simp: conn_open_def conn_channel_def conn_mask_def)
  have step: "TcpConnection_shutdown True c = Inr ?c1"
    using shutdownTask_open [OF open0] assms(3) by (simp add: TcpConnection_shutdown_def)
  have fields: "cn_state ?c1 = Disconnecting" "cn_out ?c1 = cn_out c" "conn_stream ?c1 = conn_stream c"
    "cn_fin ?c1 \<longleftrightarrow> buffer_contents (cn_out ?c1) = []"
    using assms(5) by (simp_all add: conn_stream_def)
  have "\<exists>c2. flush env k ?c1 = Inr c2 \<and>
        cn_wire c2 @ buffer_contents (cn_out c2) = cn_wire c @ buffer_contents (cn_out c) \<and>
        (cn_fin c2 \<longleftrightarrow> buffer_contents (cn_out c2) = []) \<and>
        (length (buffer_contents (cn_out c)) \<le> k \<longrightarrow> cn_fin c2)" for k
    using flush_drains [OF env progress open1 fields(1,4), of k] fields(2,3)
    by (auto simp only: conn_stream_def) auto
  then show ?thesis using step by blast
qed

text \<open>Three bytes are buffered behind a full socket and leave it one by one.\<close>

lemma backlog_open:
  "\<exists>c. TcpConnection_send (quiet_env (\<lambda>k n. 0)) True ''hey'' (sample_conn (Buffer_new 8)) = Inr c \<and> conn_open c \<and>
     cn_state c = Connected \<and> \<not> cn_fin c \<and> cn_wire c = [] \<and> buffer_contents (cn_out c) = ''hey''"
proof -
  have opened: "conn_open (sample_conn (Buffer_new 8))" by (rule sample_conn_open) simp_all
  have env: "env_ok (quiet_env (\<lambda>k n. 0))" by (rule quiet_env_ok) simp
  obtain c where c: "TcpConnection_sendTask (quiet_env (\<lambda>k n. 0)) ''hey'' (sample_conn (Buffer_new 8)) = Inr c"
    "conn_open c" "conn_stream c = ''hey''" "cn_state c = Connected" "\<not> cn_fin c"
    using sendTask_stream [OF opened env, of "''hey''"]
    by (auto simp: sample_conn_def quiet_env_def buffer_exhausted_def Buffer_new_def size_max1_def conn_stream_def buffer_contents_def)
  have "cn_wire c = []"
    using c(1) unfolding TcpConnection_sendTask_def
    by (auto simp: sample_conn_def quiet_env_def conn_channel_def conn_write_def Let_def EventLoop_assertTheSameThread_def conn_channel_op_def res_iffs assertR_Inr_iff
        Channel_isWriting_def event_defs)
  then show ?thesis using c by (auto simp: TcpConnection_send_def sample_conn_def conn_stream_def)
qed

lemma shutdown_flushes_witness:
  "\<exists>c c1 c2 c3. TcpConnection_send (quiet_env (\<lambda>k n. 0)) True ''hey'' (sample_conn (Buffer_new 8)) = Inr c \<and>
     TcpConnection_shutdown True c = Inr c1 \<and> \<not> cn_fin c1 \<and>
     flush (quiet_env (\<lambda>k n. min 1 (int n))) 2 c1 = Inr c2 \<and>
     cn_wire c2 @ buffer_contents (cn_out c2) = ''hey'' \<and> (cn_fin c2 \<longleftrightarrow> buffer_contents (cn_out c2) = []) \<and>
     flush (quiet_env (\<lambda>k n. min 1 (int n))) 3 c1 = Inr c3 \<and> cn_fin c3 \<and> cn_wire c3 = ''hey''"
proof -
  let ?env = "quiet_env (\<lambda>k n. min 1 (int n))"
  have env: "env_ok ?env" by (rule quiet_env_ok) auto
  have progress: "\<forall>k n. 0 < n \<longrightarrow> 0 < env_write ?env k n" by (simp add: quiet_env_def)
  obtain c where c: "TcpConnection_send (quiet_env (\<lambda>k n. 0)) True ''hey'' (sample_conn (Buffer_new 8)) = Inr c"
    "conn_open c" "cn_state c = Connected" "\<not> cn_fin c" "cn_wire c = []" "buffer_contents (cn_out c) = ''hey''"
    using backlog_open by blast
  obtain c1 where c1: "TcpConnection_shutdown True c = Inr c1"
    "\<forall>k. \<exists>c2. flush ?env k c1 = Inr c2 \<and> cn_wire c2 @ buffer_contents (cn_out c2) = ''hey'' \<and>
       (cn_fin c2 \<longleftrightarrow> buffer_contents (cn_out c2) = []) \<and> (3 \<le> k \<longrightarrow> cn_fin c2)"
    using shutdown_flushes [OF c(2) env c(3) progress c(4)] c(5,6) by (auto simp: numeral_3_eq_3)
  have "c1 = c\<lparr>cn_state := Disconnecting\<rparr>"
    using c1(1) c(3,6) shutdownTask_open [of "c\<lparr>cn_state := Disconnecting\<rparr>"] c(2)
    by (auto simp: TcpConnection_shutdown_def conn_open_def conn_channel_def conn_mask_def)
  then have "\<not> cn_fin c1" using c(4) by simp
  then show ?thesis using c(1) c1 by (metis append_Nil2 order_refl)
qed

text \<open>C29. When the peer closes and the loop's own thread is the one that drops the last reference (a
  server without extra threads), the connection and its channel are destroyed in the middle of
  the channel's \<^verbatim>\<open>handleEvent\<close>, which then reads freed memory.\<close>

theorem peer_close_use_after_free:
  assumes opened: "conn_open c" and grow: "grow_ok (env_grow env)" and refs: "cn_refs c = 1"
    and ch: "conn_channel c = Some ch" "ch_readCb ch = Some (OfConn (cn_chan c) HandleRead)"
    and rev: "ch_revents ch AND kReadPollEvent \<noteq> 0" "ch_revents ch AND 1 \<noteq> 0" "ch_revents ch AND kErrorPollEvent = 0"
    and close: "\<forall>c. env_user env CloseCallback c = Inr c"
    and remove: "\<forall>c. env_user env RmConnCallback c = Inr (c\<lparr>cn_refs := cn_refs c - 1\<rparr>)"
  shows "conn_dispatch env 0 (Some []) c = Inl (Undefined ''handleEvent on a destroyed channel'')"
proof -
  obtain b where b: "Buffer_readFrom (env_grow env) (cn_in c) 0 (Some []) = Inr (0, b)" "buffer_wf b"
    using Buffer_readFrom_spec [of "cn_in c" "env_grow env" "[]" 0] opened grow
    by (auto simp: conn_open_def)
  have "conn_open (c\<lparr>cn_in := b\<rparr>)"
    using opened b(2) by (auto simp: conn_open_def conn_channel_def conn_mask_def)
  then obtain c1 where c1: "TcpConnection_handleClose env (c\<lparr>cn_in := b\<rparr>) = Inr c1" "conn_channel c1 = None"
    using handleClose_destroys [of "c\<lparr>cn_in := b\<rparr>" env] refs close remove by auto
  have read: "TcpConnection_handleRead env 0 (Some []) c = Inr c1"
    using b(1) c1(1) ch(1) conn_open_thread [OF opened]
    by (simp add: TcpConnection_handleRead_def EventLoop_assertTheSameThread_def)
  have guards: "\<not> revents_close ch" "\<not> revents_error ch" "revents_read ch"
    using rev by (simp_all add: revents_close_def revents_error_def revents_read_def)
  have "Channel_fire (conn_run_callback env 0 (Some [])) conn_channel revents_close ch_closeCb c = Inr c"
    "Channel_fire (conn_run_callback env 0 (Some [])) conn_channel revents_error ch_errorCb c = Inr c"
    "Channel_fire (conn_run_callback env 0 (Some [])) conn_channel revents_read ch_readCb c = Inr c1"
    using ch guards read by (simp_all add: Channel_fire_def)
  then show ?thesis
    using c1(2) by (simp add: conn_dispatch_def Channel_handleEvent_def Channel_fire_dead)
qed

lemma peer_close_use_after_free_witness:
  "conn_dispatch owner_env 0 (Some []) (sample_conn (Buffer_new 8)) =
     Inl (Undefined ''handleEvent on a destroyed channel'')"
proof -
  let ?ch = "\<lparr>ch_fd = 7, ch_events = kReadPollEvent, ch_revents = 1, ch_idxPoll = 0,
    ch_readCb = Some (OfConn 0 HandleRead), ch_writeCb = Some (OfConn 0 HandleWrite),
    ch_closeCb = Some (OfConn 0 HandleClose), ch_errorCb = Some (OfConn 0 HandleError)\<rparr>"
  have opened: "conn_open (sample_conn (Buffer_new 8))" by (rule sample_conn_open) simp_all
  have ch: "conn_channel (sample_conn (Buffer_new 8)) = Some ?ch"
    by (simp add: conn_channel_def sample_conn_def)
  have grow: "grow_ok (env_grow owner_env)" by (simp add: owner_env_def)
  show ?thesis
    by (rule peer_close_use_after_free [OF opened grow _ ch])
      (simp_all add: sample_conn_def owner_env_def event_defs)
qed

text \<open>A connection made for a new descriptor and established is open: registered with the
  poller, watched for input only, with nothing on the stream and room in its output buffer; and
  establishing it a second time aborts.\<close>

theorem established_is_open:
  assumes rep: "poller_rep w cs" and live: "slots_live w" and fresh: "d \<notin> set cs"
    and fd: "0 \<le> fd" "fd \<notin> dom (pw_map w)"
    and user: "\<forall>c. env_user env ConnCallback c = Inr c"
  shows "\<exists>c1. TcpConnection_connEstablished env (TcpConnection_new w d name fd) = Inr c1 \<and> conn_open c1 \<and>
     cn_state c1 = Connected \<and> conn_stream c1 = [] \<and> \<not> buffer_exhausted (cn_out c1) \<and>
     kernel_watch (pw_fds (cn_pw c1)) = (kernel_watch (pw_fds w))(fd \<mapsto> ucast kReadPollEvent) \<and>
     TcpConnection_connEstablished env c1 = Inl (AssertFail ''state_ == State::Connecting'')"
proof -
  let ?c = "TcpConnection_new w d name fd"
  obtain w1 where w1: "TcpConnection_connEstablished env ?c = Inr (?c\<lparr>cn_state := Connected, cn_pw := w1\<rparr>)"
    "conn_open (?c\<lparr>cn_state := Connected, cn_pw := w1\<rparr>)"
    "kernel_watch (pw_fds w1) = (kernel_watch (pw_fds w))(fd \<mapsto> ucast kReadPollEvent)"
    using connEstablished_spec [OF assms] by blast
  have fields: "cn_wire ?c = []" "cn_out ?c = Buffer_new kInitLen" by (simp_all add: TcpConnection_new_def)
  have "TcpConnection_connEstablished env (?c\<lparr>cn_state := Connected, cn_pw := w1\<rparr>) =
      Inl (AssertFail ''state_ == State::Connecting'')"
    using conn_open_thread [OF w1(2)] by (simp add: TcpConnection_connEstablished_def EventLoop_assertTheSameThread_def)
  then show ?thesis
    using w1 fields by (intro exI [of _ "?c\<lparr>cn_state := Connected, cn_pw := w1\<rparr>"])
      (simp add: conn_stream_def buffer_exhausted_def Buffer_new_def buffer_contents_def kInitLen_def)
qed

lemma established_is_open_witness:
  "\<exists>c1. TcpConnection_connEstablished (quiet_env (\<lambda>k n. 0)) (TcpConnection_new PollPoller_new 0 ''a#0'' 5) = Inr c1 \<and>
     conn_open c1 \<and> conn_stream c1 = []"
  using established_is_open [OF poller_rep_new, of 0 5 "quiet_env (\<lambda>k n. 0)" "''a#0''"]
  by (auto simp: quiet_env_def PollPoller_new_def slots_live_def)

end
