(* ===== verification/Lotta_Tcp_Server.thy ===== *)
theory Lotta_Tcp_Server
  imports Lotta_Tcp_Connection Lotta_Event_Loop Lotta_Net
begin

text \<open>
  \<^verbatim>\<open>TcpServer\<close> (\<^verbatim>\<open>src/tcp_server.cc\<close>) and \<^verbatim>\<open>TcpClient\<close> (\<^verbatim>\<open>src/tcp_client.cc\<close>): the registry of
  connections, their names, the distribution over the loops of the pool, and the tasks the owners
  and the connections hand to each other's loops.

  A loop is a value of a type \<open>'l\<close>; \<open>sv_thread\<close> is the loop whose thread executes the code, so
  \<^verbatim>\<open>loop->exec\<close> runs its argument at once when the loop is \<open>sv_thread\<close> and puts it on \<open>sv_tasks\<close>
  otherwise. Connections are identities here; \<open>sv_objs\<close> gives their name and loop. What a
  connection does on its own is Lotta\_Tcp\_Connection; the server sees that it is established and
  that its \<^verbatim>\<open>handleClose\<close> calls \<^verbatim>\<open>removeConn\<close>.
\<close>

section \<open>The server\<close>

datatype server_task = ListenTask | EstablishTask nat | HandleCloseTask nat | RemoveTask nat

record 'l server =
  sv_name :: string
  sv_loop :: 'l
  sv_pool :: "'l loop_pool"
  sv_conns :: "string \<rightharpoonup> nat"         \<comment> \<open>\<^verbatim>\<open>connections_\<close>\<close>
  sv_connIdx :: int
  sv_started :: bool
  sv_alive :: bool
  sv_objs :: "nat \<rightharpoonup> string \<times> 'l"
  sv_next :: nat
  sv_thread :: 'l
  sv_tasks :: "('l \<times> server_task) list"
  sv_listening :: bool
  sv_established :: "nat list"
  sv_closed :: "nat list"

definition TcpServer_new :: "'l \<Rightarrow> string \<Rightarrow> 'l server" where
  "TcpServer_new loop name = \<lparr>sv_name = name, sv_loop = loop, sv_pool = EventLoopPool_new loop,
     sv_conns = Map.empty, sv_connIdx = 0, sv_started = False, sv_alive = True, sv_objs = Map.empty,
     sv_next = 0, sv_thread = loop, sv_tasks = [], sv_listening = False, sv_established = [], sv_closed = []\<rparr>"

definition TcpServer_setThreadNum :: "32 word \<Rightarrow> 'l server \<Rightarrow> 'l server" where
  "TcpServer_setThreadNum n s = s\<lparr>sv_pool := EventLoopPool_setThreadNum n (sv_pool s)\<rparr>"

definition server_exec :: "(server_task \<Rightarrow> 'l server \<Rightarrow> 'l server res) \<Rightarrow> 'l \<Rightarrow> server_task \<Rightarrow> 'l server \<Rightarrow> 'l server res" where
  "server_exec run l t s =
     (if sv_thread s = l then run t s else Inr (s\<lparr>sv_tasks := sv_tasks s @ [(l, t)]\<rparr>))"

text \<open>The lambda of \<^verbatim>\<open>removeConn\<close>; it captures the server and uses it when it runs.\<close>

definition server_removeTask :: "nat \<Rightarrow> 'l server \<Rightarrow> 'l server res" where
  "server_removeTask k s =
     (if \<not> sv_alive s then Inl (Undefined ''removeConn task on a destroyed server'')
      else assertR (sv_thread s = sv_loop s) ''isTheSameThread()'' (
        derefR (sv_objs s k) ''conn'' (\<lambda>(name, _).
        assertR (sv_conns s name \<noteq> None) ''n == 1'' (
        Inr (s\<lparr>sv_conns := (sv_conns s)(name := None)\<rparr>)))))"

definition TcpServer_removeConn :: "nat \<Rightarrow> 'l server \<Rightarrow> 'l server res" where
  "TcpServer_removeConn k s = server_exec (\<lambda>_. server_removeTask k) (sv_loop s) (RemoveTask k) s"

fun server_task_run :: "server_task \<Rightarrow> 'l server \<Rightarrow> 'l server res" where
  "server_task_run ListenTask s = Inr (s\<lparr>sv_listening := True\<rparr>)"
| "server_task_run (EstablishTask k) s = Inr (s\<lparr>sv_established := sv_established s @ [k]\<rparr>)"
| "server_task_run (HandleCloseTask k) s = TcpServer_removeConn k (s\<lparr>sv_closed := sv_closed s @ [k]\<rparr>)"
| "server_task_run (RemoveTask k) s = server_removeTask k s"

definition TcpServer_start :: "(nat \<Rightarrow> 'l) \<Rightarrow> 'l server \<Rightarrow> 'l server res" where
  "TcpServer_start mk s =
     (if sv_started s then Inr s
      else bindR (EventLoopPool_start (sv_thread s = sv_loop s) mk (sv_pool s)) (\<lambda>p.
        server_exec server_task_run (sv_loop s) ListenTask (s\<lparr>sv_pool := p, sv_started := True\<rparr>)))"

text \<open>\<open>laddr\<close> is the text of the local address of the accepted descriptor.\<close>

definition conn_name :: "string \<Rightarrow> string \<Rightarrow> nat \<Rightarrow> string" where
  "conn_name name laddr i = name @ ''-'' @ laddr @ ''#'' @ nat_to_string i"

definition TcpServer_newConnection :: "string \<Rightarrow> 'l server \<Rightarrow> 'l server res" where
  "TcpServer_newConnection laddr s = assertR (sv_thread s = sv_loop s) ''isTheSameThread()'' (
     if sv_connIdx s = 2147483647 then Inl (Undefined ''connIdx_++ overflows int'') else
     let name = conn_name (sv_name s) laddr (nat (sv_connIdx s));
         s1 = s\<lparr>sv_connIdx := sv_connIdx s + 1\<rparr>
     in bindR (EventLoopPool_getLoop True (sv_pool s1)) (\<lambda>(ioLoop, p).
        let k = sv_next s1;
            s2 = s1\<lparr>sv_pool := p, sv_objs := (sv_objs s1)(k \<mapsto> (name, ioLoop)), sv_next := Suc k,
                    sv_conns := (sv_conns s1)(name \<mapsto> k)\<rparr>
        in server_exec server_task_run ioLoop (EstablishTask k) s2))"

text \<open>
  The destructor walks \<^verbatim>\<open>connections_\<close> (in the order \<open>keys\<close> of the map) with a range-for: when
  the entry under the iterator has been erased, advancing it is undefined.
\<close>

fun server_closeAll :: "string list \<Rightarrow> 'l server \<Rightarrow> 'l server res" where
  "server_closeAll [] s = Inr s"
| "server_closeAll (name # keys) s =
     derefR (sv_conns s name) ''pair.second'' (\<lambda>k.
     derefR (sv_objs s k) ''conn'' (\<lambda>(_, l).
     bindR (server_exec server_task_run l (HandleCloseTask k) s) (\<lambda>s1.
       if sv_conns s1 name = None then Inl (Undefined ''iterator into connections_ invalidated'')
       else server_closeAll keys s1)))"

definition TcpServer_destroy :: "string list \<Rightarrow> 'l server \<Rightarrow> 'l server res" where
  "TcpServer_destroy keys s = bindR (server_closeAll keys s) (\<lambda>s1. Inr (s1\<lparr>sv_alive := False\<rparr>))"

section \<open>Runs of a server\<close>

text \<open>
  A connection arrives, an established connection closes (once) in the thread of its loop, or a
  loop runs the first of the tasks it was given.
\<close>

datatype 'l server_event = NewConn string | PeerClose nat | RunTask 'l

fun take_task :: "'l \<Rightarrow> ('l \<times> 'a) list \<Rightarrow> ('a \<times> ('l \<times> 'a) list) option" where
  "take_task l [] = None"
| "take_task l ((m, t) # ts) =
     (if m = l then Some (t, ts) else map_option (\<lambda>(u, rest). (u, (m, t) # rest)) (take_task l ts))"

fun server_step :: "'l server_event \<Rightarrow> 'l server \<Rightarrow> 'l server res" where
  "server_step (NewConn laddr) s = TcpServer_newConnection laddr (s\<lparr>sv_thread := sv_loop s\<rparr>)"
| "server_step (PeerClose k) s = derefR (sv_objs s k) ''conn'' (\<lambda>(_, l).
     server_task_run (HandleCloseTask k) (s\<lparr>sv_thread := l\<rparr>))"
| "server_step (RunTask l) s = (case take_task l (sv_tasks s) of
     None \<Rightarrow> Inr s
   | Some (t, rest) \<Rightarrow> server_task_run t (s\<lparr>sv_thread := l, sv_tasks := rest\<rparr>))"

fun server_event_ok :: "'l server_event \<Rightarrow> 'l server \<Rightarrow> bool" where
  "server_event_ok (NewConn laddr) s \<longleftrightarrow> sv_connIdx s < 2147483647"
| "server_event_ok (PeerClose k) s \<longleftrightarrow> k \<in> set (sv_established s) \<and> k \<notin> set (sv_closed s)"
| "server_event_ok (RunTask l) s \<longleftrightarrow> True"

inductive server_reach :: "'l \<Rightarrow> string \<Rightarrow> (nat \<Rightarrow> 'l) \<Rightarrow> 32 word \<Rightarrow> 'l server \<Rightarrow> bool"
    for loop name mk n where
  start: "TcpServer_start mk (TcpServer_setThreadNum n (TcpServer_new loop name)) = Inr s \<Longrightarrow>
     server_reach loop name mk n s"
| step: "server_reach loop name mk n s \<Longrightarrow> server_event_ok e s \<Longrightarrow> server_step e s = Inr s1 \<Longrightarrow>
     server_reach loop name mk n s1"

section \<open>The registry\<close>

fun task_removes :: "server_task \<Rightarrow> nat list" where
  "task_removes (RemoveTask k) = [k]"
| "task_removes _ = []"

definition removes :: "('l \<times> server_task) list \<Rightarrow> nat list" where
  "removes ts = concat (map (\<lambda>(_, t). task_removes t) ts)"

lemma removes_simps [simp]:
  "removes [] = []" "removes ((l, t) # ts) = task_removes t @ removes ts"
  "removes (ts @ us) = removes ts @ removes us"
  by (simp_all add: removes_def)

lemma take_task_Some: "take_task l ts = Some (t, rest) \<Longrightarrow> \<exists>us vs. ts = us @ (l, t) # vs \<and> rest = us @ vs"
proof (induction ts arbitrary: rest)
  case (Cons mt ts)
  obtain m u where mt: "mt = (m, u)" by (cases mt)
  show ?case
  proof (cases "m = l")
    case True
    with Cons.prems mt show ?thesis by (intro exI [of _ "[]"] exI [of _ ts]) simp
  next
    case False
    with Cons.prems mt obtain r where r: "take_task l ts = Some (t, r)" "rest = (m, u) # r" by auto
    from Cons.IH [OF r(1)] obtain us vs where "ts = us @ (l, t) # vs" "r = us @ vs" by blast
    with r(2) mt show ?thesis by (intro exI [of _ "(m, u) # us"] exI [of _ vs]) simp
  qed
qed simp

lemma conn_name_inject: "conn_name name u i = conn_name name' v j \<Longrightarrow> i = j"
  using digits_suffix_inject [OF _ separators_not_digits(2), of "name @ ''-'' @ u" i "name' @ ''-'' @ v" j]
  by (simp add: conn_name_def)

definition task_ok :: "'l \<Rightarrow> (nat \<rightharpoonup> string \<times> 'l) \<Rightarrow> 'l \<times> server_task \<Rightarrow> bool" where
  "task_ok loop objs = (\<lambda>(l, t). case t of
     ListenTask \<Rightarrow> l = loop
   | EstablishTask k \<Rightarrow> (\<exists>name. objs k = Some (name, l))
   | HandleCloseTask k \<Rightarrow> False
   | RemoveTask k \<Rightarrow> l = loop)"

text \<open>
  Identities count the connections; names carry them; an entry stays in the map until the
  connection has closed and its removal task has run.
\<close>

definition server_inv :: "'l \<Rightarrow> string \<Rightarrow> (nat \<Rightarrow> 'l) \<Rightarrow> 32 word \<Rightarrow> 'l server \<Rightarrow> bool" where
  "server_inv loop name mk n s \<longleftrightarrow>
     sv_loop s = loop \<and> sv_name s = name \<and> sv_alive s \<and> pool_inv loop mk n (sv_next s) (sv_pool s) \<and>
     sv_connIdx s = int (sv_next s) \<and>
     (\<forall>k. k < sv_next s \<longleftrightarrow> (\<exists>u. sv_objs s k = Some (conn_name name u k, io_loop loop mk n k))) \<and>
     (\<forall>k. sv_next s \<le> k \<longrightarrow> sv_objs s k = None) \<and>
     (\<forall>x k. sv_conns s x = Some k \<longleftrightarrow>
        (\<exists>l. sv_objs s k = Some (x, l)) \<and> (k \<in> set (sv_closed s) \<longrightarrow> k \<in> set (removes (sv_tasks s)))) \<and>
     set (sv_closed s) \<subseteq> set (sv_established s) \<and> set (sv_established s) \<subseteq> dom (sv_objs s) \<and>
     distinct (removes (sv_tasks s)) \<and> set (removes (sv_tasks s)) \<subseteq> set (sv_closed s) \<and>
     (\<forall>x \<in> set (sv_tasks s). task_ok loop (sv_objs s) x)"

lemma server_inv_obj:
  assumes "server_inv loop name mk n s" "sv_objs s k = Some (x, l)"
  shows "\<exists>u. x = conn_name name u k \<and> l = io_loop loop mk n k \<and> k < sv_next s"
proof -
  have "k < sv_next s" using assms unfolding server_inv_def by (metis leI option.distinct(1))
  with assms show ?thesis unfolding server_inv_def by (metis option.inject prod.inject)
qed

lemma server_inv_name:
  assumes "server_inv loop name mk n s" "sv_objs s j = Some (x, l)" "sv_objs s k = Some (x, m)"
  shows "j = k"
  using server_inv_obj [OF assms(1,2)] server_inv_obj [OF assms(1,3)] conn_name_inject by metis

lemma server_inv_conns:
  "server_inv loop name mk n s \<Longrightarrow> sv_conns s x = Some k \<longleftrightarrow>
     (\<exists>l. sv_objs s k = Some (x, l)) \<and> (k \<in> set (sv_closed s) \<longrightarrow> k \<in> set (removes (sv_tasks s)))"
  by (simp add: server_inv_def)

lemma server_inv_frame [simp]:
  "server_inv loop name mk n (s\<lparr>sv_thread := l\<rparr>) \<longleftrightarrow> server_inv loop name mk n s"
  "server_inv loop name mk n (s\<lparr>sv_listening := b\<rparr>) \<longleftrightarrow> server_inv loop name mk n s"
  by (simp_all add: server_inv_def)

lemma server_inv_task_front:
  assumes "server_inv loop name mk n s" "sv_tasks s = us @ x # vs"
  shows "server_inv loop name mk n (s\<lparr>sv_tasks := x # us @ vs\<rparr>)"
proof -
  obtain l t where x: "x = (l, t)" by (cases x)
  have "set (removes (x # us @ vs)) = set (removes (us @ x # vs))"
    "distinct (removes (x # us @ vs)) = distinct (removes (us @ x # vs))"
    by (auto simp: x)
  with assms show ?thesis by (simp add: server_inv_def ball_Un)
qed

lemma server_inv_task_back:
  assumes "server_inv loop name mk n (s\<lparr>sv_tasks := x # sv_tasks s\<rparr>)"
  shows "server_inv loop name mk n (s\<lparr>sv_tasks := sv_tasks s @ [x]\<rparr>)"
proof -
  obtain l t where x: "x = (l, t)" by (cases x)
  have "set (removes (x # sv_tasks s)) = set (removes (sv_tasks s @ [x]))"
    "distinct (removes (x # sv_tasks s)) = distinct (removes (sv_tasks s @ [x]))"
    by (auto simp: x)
  with assms show ?thesis by (auto simp: server_inv_def)
qed

text \<open>A connection closes: its removal becomes pending.\<close>

lemma server_inv_close:
  assumes inv: "server_inv loop name mk n s" and k: "k \<in> set (sv_established s)" "k \<notin> set (sv_closed s)"
  shows "server_inv loop name mk n (s\<lparr>sv_closed := sv_closed s @ [k], sv_tasks := (loop, RemoveTask k) # sv_tasks s\<rparr>)"
proof -
  have "k \<notin> set (removes (sv_tasks s))" using inv k(2) by (auto simp: server_inv_def)
  then show ?thesis using inv k by (auto simp: server_inv_def task_ok_def)
qed

text \<open>A pending removal runs.\<close>

lemma server_inv_remove:
  assumes inv: "server_inv loop name mk n (s\<lparr>sv_tasks := (l, RemoveTask k) # sv_tasks s\<rparr>)" and "sv_thread s = loop"
  shows "\<exists>s1. server_removeTask k s = Inr s1 \<and> server_inv loop name mk n s1"
proof -
  have k: "k \<in> set (sv_closed s)" "k \<notin> set (removes (sv_tasks s))" "sv_alive s" "sv_loop s = loop"
    using inv by (auto simp: server_inv_def)
  have "set (sv_closed s) \<subseteq> set (sv_established s)" "set (sv_established s) \<subseteq> dom (sv_objs s)"
    using inv by (simp_all add: server_inv_def)
  then obtain x m where obj: "sv_objs s k = Some (x, m)" using k(1) by fast
  have entry: "sv_conns s x = Some k"
    using server_inv_conns [OF inv, of x k] obj by simp
  let ?s1 = "s\<lparr>sv_conns := (sv_conns s)(x := None)\<rparr>"
  have "server_removeTask k s = Inr ?s1"
    using k obj entry assms(2) by (simp add: server_removeTask_def)
  moreover have "sv_conns ?s1 y = Some j \<longleftrightarrow>
      (\<exists>l. sv_objs s j = Some (y, l)) \<and> (j \<in> set (sv_closed s) \<longrightarrow> j \<in> set (removes (sv_tasks s)))" for y j
    using server_inv_conns [OF inv, of y j] server_inv_name [OF inv, of j x _ k m] k obj by auto
  then have "server_inv loop name mk n ?s1"
    using inv by (auto simp: server_inv_def)
  ultimately show ?thesis by blast
qed

text \<open>A connection is established, and a new one registered.\<close>

lemma server_inv_establish:
  assumes "server_inv loop name mk n (s\<lparr>sv_tasks := (l, EstablishTask k) # sv_tasks s\<rparr>)"
  shows "server_inv loop name mk n (s\<lparr>sv_established := sv_established s @ [k]\<rparr>)"
  using assms by (auto simp: server_inv_def task_ok_def)

lemma server_inv_other_task:
  assumes "server_inv loop name mk n (s\<lparr>sv_tasks := (l, ListenTask) # sv_tasks s\<rparr>)"
  shows "server_inv loop name mk n s"
  using assms by (auto simp: server_inv_def task_ok_def)

lemma server_inv_exec_establish:
  assumes "server_inv loop name mk n (s\<lparr>sv_tasks := (l, EstablishTask k) # sv_tasks s\<rparr>)"
  shows "\<exists>s1. server_exec server_task_run l (EstablishTask k) s = Inr s1 \<and> server_inv loop name mk n s1"
  using server_inv_establish [OF assms] server_inv_task_back [OF assms] by (simp add: server_exec_def)

lemma server_inv_add:
  fixes laddr :: string
  assumes inv: "server_inv loop name mk n s" and p: "pool_inv loop mk n (Suc (sv_next s)) p"
  defines "x \<equiv> conn_name name laddr (sv_next s)" and "l \<equiv> io_loop loop mk n (sv_next s)"
  shows "server_inv loop name mk n
    (s\<lparr>sv_connIdx := sv_connIdx s + 1, sv_pool := p, sv_objs := (sv_objs s)(sv_next s \<mapsto> (x, l)),
       sv_next := Suc (sv_next s), sv_conns := (sv_conns s)(x \<mapsto> sv_next s),
       sv_tasks := (l, EstablishTask (sv_next s)) # sv_tasks s\<rparr>)"
    (is "server_inv _ _ _ _ ?s1")
proof -
  let ?k = "sv_next s"
  have none: "sv_objs s j = None" if "?k \<le> j" for j using inv that by (simp add: server_inv_def)
  have objs: "(j < Suc ?k) = (\<exists>u. sv_objs ?s1 j = Some (conn_name name u j, io_loop loop mk n j))" for j
  proof (cases "j = ?k")
    case False
    have "(j < ?k) = (\<exists>u. sv_objs s j = Some (conn_name name u j, io_loop loop mk n j))"
      using inv by (simp add: server_inv_def)
    with False show ?thesis by (simp add: less_Suc_eq)
  qed (auto simp: x_def l_def)
  have sub: "set (sv_closed s) \<subseteq> set (sv_established s)" "set (sv_established s) \<subseteq> dom (sv_objs s)"
    using inv by (simp_all add: server_inv_def)
  have fresh: "?k \<notin> set (sv_closed s)" using sub none by fastforce
  have other: "y \<noteq> x" if "sv_objs s j = Some (y, m)" for y j m
  proof
    assume "y = x"
    with server_inv_obj [OF inv that] conn_name_inject have "j = ?k" by (metis x_def)
    with that none show False by simp
  qed
  have conns: "sv_conns ?s1 y = Some j \<longleftrightarrow> (\<exists>l. sv_objs ?s1 j = Some (y, l)) \<and>
      (j \<in> set (sv_closed s) \<longrightarrow> j \<in> set (removes (sv_tasks s)))" for y j
    using server_inv_conns [OF inv, of y j] other [of j y] none fresh by (cases "j = ?k") auto
  have tasks: "task_ok loop (sv_objs ?s1) t" if "t \<in> set (sv_tasks s)" for t
  proof -
    have "task_ok loop (sv_objs s) t" using inv that by (simp add: server_inv_def)
    with none [of ?k] show ?thesis by (auto simp: task_ok_def split: server_task.splits)
  qed
  have "task_ok loop (sv_objs ?s1) (l, EstablishTask ?k)" by (simp add: task_ok_def)
  then show ?thesis
    unfolding server_inv_def using inv p objs conns tasks sub none
    by (intro conjI) (auto simp: server_inv_def)
qed

lemma server_close_ok:
  assumes inv: "server_inv loop name mk n s" and k: "k \<in> set (sv_established s)" "k \<notin> set (sv_closed s)"
  shows "\<exists>s1. server_task_run (HandleCloseTask k) s = Inr s1 \<and> server_inv loop name mk n s1"
proof -
  let ?s1 = "s\<lparr>sv_closed := sv_closed s @ [k]\<rparr>"
  have pend: "server_inv loop name mk n (?s1\<lparr>sv_tasks := (loop, RemoveTask k) # sv_tasks ?s1\<rparr>)"
    using server_inv_close [OF inv k] by simp
  have loop: "sv_loop s = loop" using inv by (simp add: server_inv_def)
  show ?thesis
  proof (cases "sv_thread s = loop")
    case True
    with server_inv_remove [OF pend] loop show ?thesis
      by (simp add: TcpServer_removeConn_def server_exec_def)
  next
    case False
    with server_inv_task_back [OF pend] loop show ?thesis
      by (simp add: TcpServer_removeConn_def server_exec_def)
  qed
qed

lemma newConnection_ok:
  assumes inv: "server_inv loop name mk n s" and room: "sv_connIdx s < 2147483647" and thread: "sv_thread s = loop"
  shows "\<exists>s1. TcpServer_newConnection laddr s = Inr s1 \<and> server_inv loop name mk n s1"
proof -
  have s: "sv_loop s = loop" "sv_name s = name" "sv_connIdx s = int (sv_next s)"
    "pool_inv loop mk n (sv_next s) (sv_pool s)"
    using inv by (simp_all add: server_inv_def)
  obtain p where p: "EventLoopPool_getLoop True (sv_pool s) = Inr (io_loop loop mk n (sv_next s), p)"
    "pool_inv loop mk n (Suc (sv_next s)) p"
    using spread.get_law [OF s(4)] by blast
  let ?l = "io_loop loop mk n (sv_next s)"
  let ?s2 = "s\<lparr>sv_connIdx := sv_connIdx s + 1, sv_pool := p,
    sv_objs := (sv_objs s)(sv_next s \<mapsto> (conn_name name laddr (sv_next s), ?l)), sv_next := Suc (sv_next s),
    sv_conns := (sv_conns s)(conn_name name laddr (sv_next s) \<mapsto> sv_next s)\<rparr>"
  have "server_inv loop name mk n (?s2\<lparr>sv_tasks := (?l, EstablishTask (sv_next s)) # sv_tasks ?s2\<rparr>)"
    using server_inv_add [OF inv p(2), of laddr] by simp
  moreover have "TcpServer_newConnection laddr s = server_exec server_task_run ?l (EstablishTask (sv_next s)) ?s2"
    using s p(1) room thread by (simp add: TcpServer_newConnection_def Let_def)
  ultimately show ?thesis using server_inv_exec_establish [where s = ?s2] by simp
qed

lemma server_runTask_ok:
  assumes inv: "server_inv loop name mk n s" and t: "take_task l (sv_tasks s) = Some (t, rest)"
  shows "\<exists>s1. server_task_run t (s\<lparr>sv_thread := l, sv_tasks := rest\<rparr>) = Inr s1 \<and> server_inv loop name mk n s1"
proof -
  let ?s = "s\<lparr>sv_thread := l, sv_tasks := rest\<rparr>"
  obtain us vs where ts: "sv_tasks s = us @ (l, t) # vs" "rest = us @ vs"
    using take_task_Some [OF t] by blast
  have front: "server_inv loop name mk n (?s\<lparr>sv_tasks := (l, t) # sv_tasks ?s\<rparr>)"
    using server_inv_task_front [OF inv ts(1)] ts(2) by (simp add: server_inv_def)
  have ok: "task_ok loop (sv_objs s) (l, t)" using inv ts(1) by (simp add: server_inv_def)
  show ?thesis
  proof (cases t)
    case ListenTask
    with front show ?thesis using server_inv_other_task [where s = ?s] by simp
  next
    case (EstablishTask k)
    with front show ?thesis using server_inv_establish [where s = ?s] by simp
  next
    case (HandleCloseTask k)
    with ok show ?thesis by (simp add: task_ok_def)
  next
    case (RemoveTask k)
    with ok have "l = loop" by (simp add: task_ok_def)
    with RemoveTask front show ?thesis using server_inv_remove [where s = ?s] by simp
  qed
qed

lemma server_step_inv:
  assumes inv: "server_inv loop name mk n s" and ok: "server_event_ok e s"
  shows "\<exists>s1. server_step e s = Inr s1 \<and> server_inv loop name mk n s1"
proof (cases e)
  case (NewConn laddr)
  have "sv_loop s = loop" using inv by (simp add: server_inv_def)
  with NewConn newConnection_ok [of loop name mk n "s\<lparr>sv_thread := loop\<rparr>" laddr] inv ok show ?thesis by simp
next
  case (PeerClose k)
  have "set (sv_established s) \<subseteq> dom (sv_objs s)" using inv by (simp add: server_inv_def)
  then obtain x l where "sv_objs s k = Some (x, l)" using ok PeerClose by fastforce
  with PeerClose server_close_ok [of loop name mk n "s\<lparr>sv_thread := l\<rparr>" k] inv ok show ?thesis by simp
next
  case (RunTask l)
  show ?thesis
  proof (cases "take_task l (sv_tasks s)")
    case None
    with RunTask inv show ?thesis by simp
  next
    case (Some tr)
    with RunTask server_runTask_ok [OF inv] show ?thesis by (cases tr) simp
  qed
qed

lemma server_start_inv:
  "\<exists>s. TcpServer_start mk (TcpServer_setThreadNum n (TcpServer_new loop name)) = Inr s \<and>
     server_inv loop name mk n s \<and> sv_listening s \<and> sv_next s = 0 \<and> sv_tasks s = []"
  by (auto simp: TcpServer_start_def TcpServer_setThreadNum_def TcpServer_new_def EventLoopPool_start_def
      EventLoopPool_setThreadNum_def EventLoopPool_new_def server_exec_def server_inv_def pool_inv_def word_neq_0_conv)

lemma server_reach_inv: "server_reach loop name mk n s \<Longrightarrow> server_inv loop name mk n s"
proof (induction rule: server_reach.induct)
  case (start s)
  with server_start_inv [of mk n loop name] show ?case by auto
next
  case (step s e s1)
  with server_step_inv [of loop name mk n s e] show ?case by auto
qed

text \<open>The destructor's walk, when every connection lives on another loop and when one does not.\<close>

definition close_tasks :: "'l server \<Rightarrow> string list \<Rightarrow> ('l \<times> server_task) list" where
  "close_tasks s keys = map (\<lambda>x. let k = the (sv_conns s x) in (snd (the (sv_objs s k)), HandleCloseTask k)) keys"

lemma server_closeAll_remote:
  "\<forall>x \<in> set keys. \<exists>k l. sv_conns s x = Some k \<and> sv_objs s k = Some (x, l) \<and> l \<noteq> sv_thread s \<Longrightarrow>
   server_closeAll keys s = Inr (s\<lparr>sv_tasks := sv_tasks s @ close_tasks s keys\<rparr>)"
proof (induction keys arbitrary: s)
  case (Cons x keys)
  then obtain k l where x: "sv_conns s x = Some k" "sv_objs s k = Some (x, l)" "l \<noteq> sv_thread s" by auto
  let ?s1 = "s\<lparr>sv_tasks := sv_tasks s @ [(l, HandleCloseTask k)]\<rparr>"
  have "server_closeAll keys ?s1 = Inr (?s1\<lparr>sv_tasks := sv_tasks ?s1 @ close_tasks ?s1 keys\<rparr>)"
    using Cons.IH [of ?s1] Cons.prems by simp
  with x show ?case by (simp add: server_exec_def close_tasks_def)
qed (simp add: close_tasks_def)

lemma server_closeAll_local:
  "\<forall>x \<in> set keys. \<exists>k l. sv_conns s x = Some k \<and> sv_objs s k = Some (x, l) \<Longrightarrow>
   y \<in> set keys \<Longrightarrow> sv_conns s y = Some j \<Longrightarrow> sv_objs s j = Some (y, sv_thread s) \<Longrightarrow>
   sv_alive s \<Longrightarrow> sv_thread s = sv_loop s \<Longrightarrow>
   server_closeAll keys s = Inl (Undefined ''iterator into connections_ invalidated'')"
proof (induction keys arbitrary: s)
  case (Cons x keys)
  then obtain k l where x: "sv_conns s x = Some k" "sv_objs s k = Some (x, l)" by auto
  show ?case
  proof (cases "l = sv_thread s")
    case True
    with x Cons.prems show ?thesis
      by (simp add: server_exec_def TcpServer_removeConn_def server_removeTask_def)
  next
    case False
    let ?s1 = "s\<lparr>sv_tasks := sv_tasks s @ [(l, HandleCloseTask k)]\<rparr>"
    have "y \<in> set keys" using Cons.prems(2,3,4) x False by auto
    then have "server_closeAll keys ?s1 = Inl (Undefined ''iterator into connections_ invalidated'')"
      using Cons.IH [of ?s1] Cons.prems by simp
    with x False show ?thesis by (simp add: server_exec_def)
  qed
qed simp

section \<open>Properties\<close>

text \<open>C7. The registry of a server is right at every moment: no event of a started server fails an
  assert or touches a missing entry (in particular every removal erases exactly one entry), and the
  map holds, under their names, exactly the connections that have not closed or whose removal is
  still on its way to the server's loop.\<close>

theorem server_registry:
  assumes "server_reach loop name mk n s" and "server_event_ok e s"
  shows "(\<exists>s1. server_step e s = Inr s1 \<and> server_reach loop name mk n s1) \<and>
     (\<forall>x k. sv_conns s x = Some k \<longleftrightarrow> (\<exists>l. sv_objs s k = Some (x, l)) \<and>
        (k \<in> set (sv_closed s) \<longrightarrow> (loop, RemoveTask k) \<in> set (sv_tasks s)))"
proof -
  have inv: "server_inv loop name mk n s" using assms(1) by (rule server_reach_inv)
  have "\<exists>s1. server_step e s = Inr s1 \<and> server_reach loop name mk n s1"
    using server_step_inv [OF inv assms(2)] server_reach.step [OF assms] by blast
  moreover have "k \<in> set (removes (sv_tasks s)) \<longleftrightarrow> (loop, RemoveTask k) \<in> set (sv_tasks s)" for k
  proof -
    have "\<forall>(l, t) \<in> set (sv_tasks s). t = RemoveTask k \<longrightarrow> l = loop"
      using inv by (auto simp: server_inv_def task_ok_def)
    moreover have "k \<in> set (task_removes t) \<longleftrightarrow> t = RemoveTask k" for t by (cases t) auto
    ultimately show ?thesis by (force simp: removes_def)
  qed
  ultimately show ?thesis using server_inv_conns [OF inv] by simp
qed

text \<open>C26. Connections are spread over the loops in turn and never confused: the \<open>k\<close>-th connection of
  a server with \<open>n\<close> threads lives on loop \<open>k\<close> modulo \<open>n\<close> (on the server's own loop when there
  are none), its name ends in \<open>k\<close>, and no two connections share a name, whatever their
  addresses.\<close>

theorem server_spreads_connections:
  assumes "server_reach loop name mk n s"
  shows "(\<forall>k. k < sv_next s \<longleftrightarrow> (\<exists>u. sv_objs s k = Some
       (name @ ''-'' @ u @ ''#'' @ nat_to_string k, if n = 0 then loop else mk (k mod unat n)))) \<and>
     (\<forall>j k x l m. sv_objs s j = Some (x, l) \<and> sv_objs s k = Some (x, m) \<longrightarrow> j = k) \<and>
     sv_connIdx s = int (sv_next s)"
proof -
  have inv: "server_inv loop name mk n s" using assms by (rule server_reach_inv)
  then have "sv_connIdx s = int (sv_next s)"
    "\<forall>k. k < sv_next s \<longleftrightarrow> (\<exists>u. sv_objs s k = Some (conn_name name u k, io_loop loop mk n k))"
    by (simp_all add: server_inv_def)
  then show ?thesis using server_inv_name [OF inv] unfolding conn_name_def io_loop_def by blast
qed

text \<open>C28. A server cannot be destroyed cleanly while it has connections. If one of them lives on the
  server's own loop (all do, without threads), the destructor erases the map entry it is iterating
  over. Otherwise every connection's \<^verbatim>\<open>handleClose\<close> is handed to its loop, and the removal it
  sends back uses the destroyed server.\<close>

theorem server_destructor:
  assumes "server_reach loop name mk n s" and "set keys = dom (sv_conns s)" and "sv_thread s = loop"
  shows "((\<exists>x k. sv_conns s x = Some k \<and> sv_objs s k = Some (x, loop)) \<longrightarrow>
       TcpServer_destroy keys s = Inl (Undefined ''iterator into connections_ invalidated'')) \<and>
     ((\<forall>x k. sv_conns s x = Some k \<longrightarrow> sv_objs s k \<noteq> Some (x, loop)) \<longrightarrow>
       (\<exists>s1. TcpServer_destroy keys s = Inr s1 \<and>
          (\<forall>x k. sv_conns s x = Some k \<longrightarrow> (\<exists>l. (l, HandleCloseTask k) \<in> set (sv_tasks s1)) \<and>
             (\<forall>l. server_task_run (RemoveTask k) (s1\<lparr>sv_thread := l\<rparr>) =
                Inl (Undefined ''removeConn task on a destroyed server'')))))"
proof -
  have inv: "server_inv loop name mk n s" using assms(1) by (rule server_reach_inv)
  then have s: "sv_alive s" "sv_loop s = loop" by (simp_all add: server_inv_def)
  have entries: "\<forall>x \<in> set keys. \<exists>k l. sv_conns s x = Some k \<and> sv_objs s k = Some (x, l)"
  proof
    fix x assume "x \<in> set keys"
    then obtain k where "sv_conns s x = Some k" using assms(2) by auto
    with server_inv_conns [OF inv, of x k] show "\<exists>k l. sv_conns s x = Some k \<and> sv_objs s k = Some (x, l)" by blast
  qed
  have "TcpServer_destroy keys s = Inl (Undefined ''iterator into connections_ invalidated'')"
    if "sv_conns s x = Some k" "sv_objs s k = Some (x, loop)" for x k
    using server_closeAll_local [OF entries, of x k] that s assms(2,3)
    by (simp add: TcpServer_destroy_def domI)
  moreover
  have "\<exists>s1. TcpServer_destroy keys s = Inr s1 \<and>
      (\<forall>x k. sv_conns s x = Some k \<longrightarrow> (\<exists>l. (l, HandleCloseTask k) \<in> set (sv_tasks s1)) \<and>
         (\<forall>l. server_task_run (RemoveTask k) (s1\<lparr>sv_thread := l\<rparr>) =
            Inl (Undefined ''removeConn task on a destroyed server'')))"
    if remote: "\<forall>x k. sv_conns s x = Some k \<longrightarrow> sv_objs s k \<noteq> Some (x, loop)"
  proof -
    have "\<forall>x \<in> set keys. \<exists>k l. sv_conns s x = Some k \<and> sv_objs s k = Some (x, l) \<and> l \<noteq> sv_thread s"
      using entries remote assms(3) by metis
    from server_closeAll_remote [OF this]
    have "TcpServer_destroy keys s = Inr (s\<lparr>sv_tasks := sv_tasks s @ close_tasks s keys, sv_alive := False\<rparr>)"
      by (simp add: TcpServer_destroy_def)
    moreover have "\<exists>l. (l, HandleCloseTask k) \<in> set (close_tasks s keys)" if "sv_conns s x = Some k" for x k
      using that assms(2) by (force simp: close_tasks_def Let_def)
    ultimately show ?thesis by (auto simp: server_removeTask_def)
  qed
  ultimately show ?thesis by blast
qed

text \<open>A server after one connection, with \<open>n\<close> loops of its own: for the witnesses.\<close>

definition sample_start :: "32 word \<Rightarrow> nat server" where
  "sample_start n = (TcpServer_new 9 ''s'')\<lparr>sv_started := True, sv_listening := True,
     sv_pool := \<lparr>lp_base = 9, lp_idx = 0, lp_threadNum = n, lp_started = True, lp_loops = [0..<unat n]\<rparr>\<rparr>"

lemma sample_start_reach: "server_reach 9 ''s'' id n (sample_start n)"
  by (rule server_reach.start)
    (simp add: sample_start_def TcpServer_start_def TcpServer_setThreadNum_def TcpServer_new_def
      EventLoopPool_start_def EventLoopPool_setThreadNum_def EventLoopPool_new_def server_exec_def)

definition sample_server :: "nat server" where
  "sample_server = (TcpServer_new 9 ''s'')\<lparr>sv_started := True, sv_listening := True,
     sv_pool := \<lparr>lp_base = 9, lp_idx = 1, lp_threadNum = 2, lp_started = True, lp_loops = [0, 1]\<rparr>,
     sv_connIdx := 1, sv_objs := [0 \<mapsto> (''s-u#0'', 0)], sv_next := 1, sv_conns := [''s-u#0'' \<mapsto> 0],
     sv_thread := 0, sv_established := [0]\<rparr>"

definition sample_single :: "nat server" where
  "sample_single = (TcpServer_new 9 ''s'')\<lparr>sv_started := True, sv_listening := True,
     sv_pool := \<lparr>lp_base = 9, lp_idx = 0, lp_threadNum = 0, lp_started = True, lp_loops = []\<rparr>,
     sv_connIdx := 1, sv_objs := [0 \<mapsto> (''s-u#0'', 9)], sv_next := 1, sv_conns := [''s-u#0'' \<mapsto> 0],
     sv_established := [0]\<rparr>"

lemma conn_name_sample: "conn_name ''s'' ''u'' 0 = ''s-u#0''"
  by code_simp

lemma sample_server_reach: "server_reach 9 ''s'' id 2 sample_server"
proof (rule server_reach.step)
  let ?s1 = "(TcpServer_new 9 ''s'')\<lparr>sv_started := True, sv_listening := True,
     sv_pool := \<lparr>lp_base = 9, lp_idx = 1, lp_threadNum = 2, lp_started = True, lp_loops = [0, 1]\<rparr>,
     sv_connIdx := 1, sv_objs := [0 \<mapsto> (''s-u#0'', 0)], sv_next := 1, sv_conns := [''s-u#0'' \<mapsto> 0],
     sv_tasks := [(0, EstablishTask 0)]\<rparr>"
  show "server_reach 9 ''s'' id 2 ?s1"
  proof (rule server_reach.step [OF sample_start_reach])
    show "server_step (NewConn ''u'') (sample_start 2) = Inr ?s1"
      by (simp add: sample_start_def TcpServer_new_def server_exec_def TcpServer_newConnection_def
          EventLoopPool_getLoop_def upt_rec conn_name_sample Let_def)
    show "server_event_ok (NewConn ''u'') (sample_start 2)"
      by (simp add: sample_start_def TcpServer_new_def)
  qed
  show "server_step (RunTask 0) ?s1 = Inr sample_server"
    by (simp add: sample_server_def TcpServer_new_def)
qed simp

lemma sample_single_reach: "server_reach 9 ''s'' id 0 sample_single"
proof (rule server_reach.step [OF sample_start_reach])
  show "server_step (NewConn ''u'') (sample_start 0) = Inr sample_single"
    by (simp add: sample_start_def sample_single_def TcpServer_new_def server_exec_def
        TcpServer_newConnection_def EventLoopPool_getLoop_def conn_name_sample Let_def)
  show "server_event_ok (NewConn ''u'') (sample_start 0)"
    by (simp add: sample_start_def TcpServer_new_def)
qed

lemma server_registry_witness:
  "\<exists>s1. server_step (PeerClose 0) sample_server = Inr s1 \<and> server_reach 9 ''s'' id 2 s1"
  using server_registry [OF sample_server_reach, of "PeerClose 0"]
  by (auto simp: sample_server_def TcpServer_new_def)

lemma server_spreads_connections_witness:
  "\<exists>u. sv_objs sample_server 0 = Some (''s'' @ ''-'' @ u @ ''#'' @ nat_to_string 0, 0)"
proof -
  have "0 < sv_next sample_server" by (simp add: sample_server_def)
  with server_spreads_connections [OF sample_server_reach] show ?thesis by auto
qed

lemma server_destructor_witness:
  "TcpServer_destroy [''s-u#0''] sample_single = Inl (Undefined ''iterator into connections_ invalidated'')"
proof -
  have "set [''s-u#0''] = dom (sv_conns sample_single)" "sv_thread sample_single = 9"
    "sv_conns sample_single ''s-u#0'' = Some 0" "sv_objs sample_single 0 = Some (''s-u#0'', 9)"
    by (simp_all add: sample_single_def TcpServer_new_def)
  with server_destructor [OF sample_single_reach, of "[''s-u#0'']"] show ?thesis by blast
qed

section \<open>The callbacks\<close>

text \<open>
  What \<^verbatim>\<open>TcpServer\<close> and \<^verbatim>\<open>TcpClient\<close> keep for the connections they make. The default callbacks for
  establishment and close only log. A server without a message callback of the user echoes what
  it receives, a client drains the buffer.
\<close>

record owner_callbacks =
  oc_conn :: "tcp_conn \<Rightarrow> tcp_conn res"
  oc_msg :: "tcp_conn \<Rightarrow> tcp_conn res"
  oc_close :: "tcp_conn \<Rightarrow> tcp_conn res"

definition defaultConnCallback :: "tcp_conn \<Rightarrow> tcp_conn res" where
  "defaultConnCallback c = Inr c"

definition defaultCloseCallback :: "tcp_conn \<Rightarrow> tcp_conn res" where
  "defaultCloseCallback c = Inr c"

definition TcpServer_defaultMsgCallback :: "conn_env \<Rightarrow> tcp_conn \<Rightarrow> tcp_conn res" where
  "TcpServer_defaultMsgCallback env c =
     bindR (Buffer_retrieve_all (cn_in c)) (\<lambda>(sl, b).
     bindR (Slice_toString sl) (\<lambda>text.
     TcpConnection_send env True (''recv: '' @ text) (c\<lparr>cn_in := b\<rparr>)))"

definition TcpClient_defaultMsgCallback :: "tcp_conn \<Rightarrow> tcp_conn res" where
  "TcpClient_defaultMsgCallback c =
     bindR (Buffer_retrieve_all (cn_in c)) (\<lambda>(sl, b). Inr (c\<lparr>cn_in := b\<rparr>))"

definition TcpServer_callbacks :: "conn_env \<Rightarrow> owner_callbacks" where
  "TcpServer_callbacks env = \<lparr>oc_conn = defaultConnCallback, oc_msg = TcpServer_defaultMsgCallback env,
     oc_close = defaultCloseCallback\<rparr>"

definition TcpClient_callbacks :: owner_callbacks where
  "TcpClient_callbacks = \<lparr>oc_conn = defaultConnCallback, oc_msg = TcpClient_defaultMsgCallback,
     oc_close = defaultCloseCallback\<rparr>"

definition TcpServer_setConnCallback :: "(tcp_conn \<Rightarrow> tcp_conn res) \<Rightarrow> owner_callbacks \<Rightarrow> owner_callbacks" where
  "TcpServer_setConnCallback cb oc = oc\<lparr>oc_conn := cb\<rparr>"

definition TcpServer_setMsgCallback :: "(tcp_conn \<Rightarrow> tcp_conn res) \<Rightarrow> owner_callbacks \<Rightarrow> owner_callbacks" where
  "TcpServer_setMsgCallback cb oc = oc\<lparr>oc_msg := cb\<rparr>"

definition TcpServer_setCloseCallback :: "(tcp_conn \<Rightarrow> tcp_conn res) \<Rightarrow> owner_callbacks \<Rightarrow> owner_callbacks" where
  "TcpServer_setCloseCallback cb oc = oc\<lparr>oc_close := cb\<rparr>"

definition TcpClient_setConnCallback :: "(tcp_conn \<Rightarrow> tcp_conn res) \<Rightarrow> owner_callbacks \<Rightarrow> owner_callbacks" where
  "TcpClient_setConnCallback cb oc = oc\<lparr>oc_conn := cb\<rparr>"

definition TcpClient_setMsgCallback :: "(tcp_conn \<Rightarrow> tcp_conn res) \<Rightarrow> owner_callbacks \<Rightarrow> owner_callbacks" where
  "TcpClient_setMsgCallback cb oc = oc\<lparr>oc_msg := cb\<rparr>"

definition TcpClient_setCloseCallback :: "(tcp_conn \<Rightarrow> tcp_conn res) \<Rightarrow> owner_callbacks \<Rightarrow> owner_callbacks" where
  "TcpClient_setCloseCallback cb oc = oc\<lparr>oc_close := cb\<rparr>"

text \<open>What \<^verbatim>\<open>newConnection\<close> sets on a new connection; \<open>rm\<close> is the owner's \<^verbatim>\<open>removeConn\<close>.\<close>

definition TcpServer_setCallbacks :: "(tcp_conn \<Rightarrow> tcp_conn res) \<Rightarrow> owner_callbacks \<Rightarrow> conn_env \<Rightarrow> conn_env" where
  "TcpServer_setCallbacks rm oc env =
     TcpConnection_setRmConnCallback rm (TcpConnection_setCloseCallback (oc_close oc)
       (TcpConnection_setMsgCallback (oc_msg oc) (TcpConnection_setConnCallback (oc_conn oc) env)))"

definition TcpClient_setCallbacks :: "(tcp_conn \<Rightarrow> tcp_conn res) \<Rightarrow> owner_callbacks \<Rightarrow> conn_env \<Rightarrow> conn_env" where
  "TcpClient_setCallbacks rm oc env =
     TcpConnection_setCloseCallback (oc_close oc) (TcpConnection_setRmConnCallback rm
       (TcpConnection_setMsgCallback (oc_msg oc) (TcpConnection_setConnCallback (oc_conn oc) env)))"

text \<open>A connection of a server with default callbacks on a loop other than the server's:
  \<^verbatim>\<open>removeConn\<close> puts the removal on the server's loop.\<close>

definition TcpServer_env :: "conn_env \<Rightarrow> conn_env" where
  "TcpServer_env env = TcpServer_setCallbacks Inr (TcpServer_callbacks env) env"

lemma setCallbacks_simps [simp]:
  "env_grow (TcpServer_setCallbacks rm oc env) = env_grow env" "env_write (TcpServer_setCallbacks rm oc env) = env_write env"
  "env_ok (TcpServer_setCallbacks rm oc env) \<longleftrightarrow> env_ok env"
  "env_user (TcpServer_setCallbacks rm oc env) ConnCallback = oc_conn oc"
  "env_user (TcpServer_setCallbacks rm oc env) MsgCallback = oc_msg oc"
  "env_user (TcpServer_setCallbacks rm oc env) CloseCallback = oc_close oc"
  "env_user (TcpServer_setCallbacks rm oc env) RmConnCallback = rm"
  by (simp_all add: TcpServer_setCallbacks_def conn_setter_defs env_ok_def)

text \<open>The order in which the client sets them makes no difference.\<close>

lemma client_setCallbacks [simp]: "TcpClient_setCallbacks rm oc env = TcpServer_setCallbacks rm oc env"
  by (simp add: TcpClient_setCallbacks_def TcpServer_setCallbacks_def conn_setter_defs fun_upd_twist)

lemma TcpServer_env_simps [simp]:
  "env_grow (TcpServer_env env) = env_grow env" "env_write (TcpServer_env env) = env_write env"
  "env_ok (TcpServer_env env) \<longleftrightarrow> env_ok env"
  "env_user (TcpServer_env env) MsgCallback = TcpServer_defaultMsgCallback env"
  "env_user (TcpServer_env env) ConnCallback = Inr" "env_user (TcpServer_env env) CloseCallback = Inr"
  "env_user (TcpServer_env env) RmConnCallback = Inr"
  by (auto simp: TcpServer_env_def TcpServer_callbacks_def defaultConnCallback_def defaultCloseCallback_def)

lemma handleRead_message:
  assumes opened: "conn_open c" and grow: "grow_ok (env_grow env)" and bs: "bs \<noteq> []"
  shows "\<exists>b. buffer_wf b \<and> buffer_contents b = buffer_reexposed (cn_in c) @ bs \<and>
     TcpConnection_handleRead env (length bs) (Some bs) c = conn_callback env MsgCallback (c\<lparr>cn_in := b\<rparr>)"
proof -
  obtain ch where ch: "conn_channel c = Some ch" and wf: "buffer_wf (cn_in c)"
    using opened by (auto simp: conn_open_def)
  obtain b where b: "Buffer_readFrom (env_grow env) (cn_in c) (length bs) (Some bs) = Inr (int (length bs), b)" "buffer_wf b"
    "buffer_contents b = buffer_reexposed (cn_in c) @ bs"
    using Buffer_readFrom_spec [OF wf grow refl, of bs] by auto
  then show ?thesis
    using ch bs conn_open_thread [OF opened]
    by (intro exI [of _ b]) (simp add: TcpConnection_handleRead_def EventLoop_assertTheSameThread_def)
qed

lemma conn_open_in: "conn_open c \<Longrightarrow> buffer_wf b \<Longrightarrow> conn_open (c\<lparr>cn_in := b\<rparr>)"
  by (auto simp: conn_open_def conn_channel_def conn_mask_def)

lemma conn_callback_keeps:
  assumes "conn_open c" "env_user env cb c = Inr c1" "cn_refs c1 \<noteq> 0"
  shows "conn_callback env cb c = Inr c1"
  using assms by (auto simp: conn_open_def conn_callback_def TcpConnection_release_def)

text \<open>A server without callbacks answers every message with an echo: when bytes arrive on an open
  connection, \<^verbatim>\<open>recv:\<close>, a blank and all unread input, the new bytes last, are handed to \<^verbatim>\<open>send\<close>, and
  the input buffer is drained.\<close>

lemma echo_spec:
  assumes opened: "conn_open c" and env: "env_ok env" and refs: "0 < cn_refs c" and bs: "bs \<noteq> []"
  shows "\<exists>b c1. buffer_wf b \<and> buffer_contents b = [] \<and>
     TcpConnection_handleRead (TcpServer_env env) (length bs) (Some bs) c = Inr c1 \<and>
     TcpConnection_send env True (''recv: '' @ buffer_reexposed (cn_in c) @ bs) (c\<lparr>cn_in := b\<rparr>) = Inr c1 \<and>
     conn_open c1 \<and> same_others (cn_chan c) (cn_pw c) (cn_pw c1) \<and> cn_chan c1 = cn_chan c \<and>
     cn_state c1 = cn_state c \<and> cn_refs c1 = cn_refs c \<and> cn_in c1 = b"
proof -
  let ?env = "TcpServer_env env"
  have grow: "grow_ok (env_grow ?env)" using env by (simp add: env_ok_def)
  obtain b where b: "buffer_wf b" "buffer_contents b = buffer_reexposed (cn_in c) @ bs"
    "TcpConnection_handleRead ?env (length bs) (Some bs) c = conn_callback ?env MsgCallback (c\<lparr>cn_in := b\<rparr>)"
    using handleRead_message [OF opened grow bs] by blast
  obtain b1 where b1: "Buffer_retrieve_all b = Inr (Slice_of (buffer_contents b), b1)" "buffer_wf b1"
    "buffer_contents b1 = []"
    using Buffer_retrieve_all_spec [OF b(1)] by blast
  let ?c1 = "c\<lparr>cn_in := b1\<rparr>" and ?msg = "''recv: '' @ buffer_contents b"
  have open1: "conn_open ?c1" by (rule conn_open_in [OF opened b1(2)])
  obtain c2 where c2: "TcpConnection_send env True ?msg ?c1 = Inr c2" "conn_open c2"
    "same_others (cn_chan c) (cn_pw c) (cn_pw c2)" "cn_chan c2 = cn_chan c" "cn_state c2 = cn_state c"
    "cn_refs c2 = cn_refs c" "cn_in c2 = b1"
    using sendTask_spec [OF open1 env, of ?msg] open1 by (cases "cn_state c = Connected") (auto simp: TcpConnection_send_def)
  have str: "Slice_toString (Slice_of (buffer_contents b)) = Inr (buffer_contents b)"
    by (simp add: Slice_toString_def Slice_of_def)
  have "env_user ?env MsgCallback (c\<lparr>cn_in := b\<rparr>) = Inr c2"
    using b1(1) c2(1) str by (simp add: TcpServer_defaultMsgCallback_def)
  then have "conn_callback ?env MsgCallback (c\<lparr>cn_in := b\<rparr>) = Inr c2"
    using conn_callback_keeps [OF conn_open_in [OF opened b(1)]] c2(6) refs by simp
  then show ?thesis
    using b b1 c2 by (intro exI [of _ b1] exI [of _ c2]) simp
qed

section \<open>The client\<close>

text \<open>
  One loop, one connector, one current connection \<^verbatim>\<open>connection_\<close>, guarded by a mutex that is only
  held for single assignments. \<open>cl_made\<close> are the names of the connections made so far; a new one is
  established (its connection callback runs) before \<^verbatim>\<open>connection_\<close> is set. A removal lambda that
  is queued keeps a reference to a \<^verbatim>\<open>shared_ptr\<close> that is gone when it runs.
\<close>

record client =
  cl_name :: string
  cl_connIdx :: "32 word"
  cl_connection :: "nat option"
  cl_made :: "string list"
  cl_established :: "nat list"
  cl_sameThread :: bool
  cl_removals :: nat                  \<comment> \<open>removal lambdas put on the loop's queue\<close>

definition TcpClient_new :: "string \<Rightarrow> client" where
  "TcpClient_new name = \<lparr>cl_name = name, cl_connIdx = 0, cl_connection = None, cl_made = [], cl_established = [],
     cl_sameThread = True, cl_removals = 0\<rparr>"

text \<open>\<^verbatim>\<open>connect()\<close> starts the connector; \<^verbatim>\<open>conn()\<close> reads the current connection.\<close>

definition TcpClient_connect :: "int \<Rightarrow> int \<Rightarrow> connector \<Rightarrow> connector res" where
  "TcpClient_connect fd err connector = Connector_start fd err connector"

definition TcpClient_conn :: "client \<Rightarrow> nat option" where
  [simp]: "TcpClient_conn c = cl_connection c"

definition TcpClient_newConnection :: "string \<Rightarrow> client \<Rightarrow> client res" where
  "TcpClient_newConnection laddr c = assertR (cl_sameThread c) ''isTheSameThread()'' (
     let name = conn_name (cl_name c) laddr (unat (cl_connIdx c)) in
     Inr (c\<lparr>cl_connIdx := cl_connIdx c + 1, cl_made := cl_made c @ [name],
            cl_established := cl_established c @ [length (cl_made c)],
            cl_connection := Some (length (cl_made c))\<rparr>))"

definition client_removeTask :: "client \<Rightarrow> client res" where
  "client_removeTask c = assertR (cl_sameThread c) ''isTheSameThread()'' (Inr (c\<lparr>cl_connection := None\<rparr>))"

definition TcpClient_removeConn :: "client \<Rightarrow> client res" where
  "TcpClient_removeConn c =
     (if cl_sameThread c then client_removeTask c else Inr (c\<lparr>cl_removals := Suc (cl_removals c)\<rparr>))"

fun client_connects :: "string list \<Rightarrow> client \<Rightarrow> client res" where
  "client_connects [] c = Inr c"
| "client_connects (laddr # ls) c = bindR (TcpClient_newConnection laddr c) (client_connects ls)"

lemma client_connects_names:
  "cl_sameThread c \<Longrightarrow> \<exists>c1. client_connects ls c = Inr c1 \<and> cl_sameThread c1 \<and>
     cl_connIdx c1 = cl_connIdx c + of_nat (length ls) \<and>
     cl_made c1 = cl_made c @ map2 (\<lambda>l i. conn_name (cl_name c) l (unat (cl_connIdx c + of_nat i))) ls [0..<length ls] \<and>
     (ls \<noteq> [] \<longrightarrow> cl_connection c1 = Some (length (cl_made c1) - 1))"
proof (induction ls arbitrary: c)
  case (Cons l ls)
  let ?x = "conn_name (cl_name c) l (unat (cl_connIdx c))"
  let ?c1 = "c\<lparr>cl_connIdx := cl_connIdx c + 1, cl_made := cl_made c @ [?x],
    cl_established := cl_established c @ [length (cl_made c)], cl_connection := Some (length (cl_made c))\<rparr>"
  have step: "TcpClient_newConnection l c = Inr ?c1"
    using Cons.prems by (simp add: TcpClient_newConnection_def Let_def)
  obtain c2 where c2: "client_connects ls ?c1 = Inr c2" "cl_sameThread c2"
    "cl_connIdx c2 = cl_connIdx c + 1 + of_nat (length ls)"
    "cl_made c2 = (cl_made c @ [?x]) @
       map2 (\<lambda>l i. conn_name (cl_name c) l (unat (cl_connIdx c + 1 + of_nat i))) ls [0..<length ls]"
    "ls \<noteq> [] \<longrightarrow> cl_connection c2 = Some (length (cl_made c2) - 1)"
    using Cons.IH [of ?c1] Cons.prems by auto
  have upt: "[0..<length (l # ls)] = 0 # map Suc [0..<length ls]"
    by (simp add: map_Suc_upt upt_conv_Cons del: upt_Suc)
  have "map2 (\<lambda>l i. conn_name (cl_name c) l (unat (cl_connIdx c + of_nat i))) (l # ls) [0..<length (l # ls)] =
      ?x # map2 (\<lambda>l i. conn_name (cl_name c) l (unat (cl_connIdx c + 1 + of_nat i))) ls [0..<length ls]"
    unfolding upt by (simp add: zip_map2 case_prod_beta' comp_def add.assoc)
  moreover have "ls = [] \<longrightarrow> cl_connection c2 = Some (length (cl_made c))" using c2(1) by auto
  ultimately show ?case using step c2 by (cases "ls = []") (simp_all add: add.assoc)
qed simp

text \<open>The connections of a client are numbered modulo \<open>2 ^ 32\<close> (\<^verbatim>\<open>connIdx_\<close> is unsigned), so two of
  the first \<open>2 ^ 32\<close> never share a name; \<^verbatim>\<open>conn()\<close> is the latest one, and a removal forgets it,
  whichever connection was removed.\<close>

theorem client_connections:
  assumes "ls \<noteq> []"
  shows "\<exists>c1 c2. client_connects ls (TcpClient_new name) = Inr c1 \<and> length (cl_made c1) = length ls \<and>
     (\<forall>i < length ls. cl_made c1 ! i = name @ ''-'' @ ls ! i @ ''#'' @ nat_to_string (i mod 4294967296)) \<and>
     (\<forall>i < length ls. \<forall>j < length ls. i < 4294967296 \<and> j < 4294967296 \<and> cl_made c1 ! i = cl_made c1 ! j \<longrightarrow> i = j) \<and>
     TcpClient_conn c1 = Some (length ls - 1) \<and> TcpClient_removeConn c1 = Inr c2 \<and> TcpClient_conn c2 = None"
proof -
  obtain c1 where c1: "client_connects ls (TcpClient_new name) = Inr c1" "cl_sameThread c1"
    "cl_made c1 = map2 (\<lambda>l i. conn_name name l (unat (of_nat i :: 32 word))) ls [0..<length ls]"
    "cl_connection c1 = Some (length (cl_made c1) - 1)"
    using client_connects_names [of "TcpClient_new name" ls] assms by (auto simp: TcpClient_new_def)
  have len: "length (cl_made c1) = length ls" using c1(3) by simp
  have nth: "cl_made c1 ! i = conn_name name (ls ! i) (i mod 4294967296)" if "i < length ls" for i
    using that c1(3) by (simp add: unat_of_nat)
  have inj: "i = j"
    if "i < length ls" "j < length ls" "i < 4294967296 \<and> j < 4294967296 \<and> cl_made c1 ! i = cl_made c1 ! j" for i j
  proof -
    have "cl_made c1 ! i = conn_name name (ls ! i) i" "cl_made c1 ! j = conn_name name (ls ! j) j"
      using that nth [of i] nth [of j] by simp_all
    then have "conn_name name (ls ! i) i = conn_name name (ls ! j) j" using that by metis
    then show ?thesis by (rule conn_name_inject)
  qed
  have "\<forall>i < length ls. cl_made c1 ! i = name @ ''-'' @ ls ! i @ ''#'' @ nat_to_string (i mod 4294967296)"
    using nth by (simp add: conn_name_def)
  moreover have "\<forall>i < length ls. \<forall>j < length ls.
      i < 4294967296 \<and> j < 4294967296 \<and> cl_made c1 ! i = cl_made c1 ! j \<longrightarrow> i = j"
    using inj by blast
  moreover have "\<exists>c2. TcpClient_removeConn c1 = Inr c2 \<and> cl_connection c2 = None"
    using c1(2) by (simp add: TcpClient_removeConn_def client_removeTask_def)
  moreover have "cl_connection c1 = Some (length ls - 1)" using c1(4) len by simp
  ultimately show ?thesis using c1(1) len by auto
qed

lemma client_connections_witness:
  "\<exists>c1. client_connects [''u'', ''u''] (TcpClient_new ''c'') = Inr c1 \<and> cl_connection c1 = Some 1 \<and>
     cl_made c1 ! 0 \<noteq> cl_made c1 ! 1"
proof -
  obtain c1 c2 where c1: "client_connects [''u'', ''u''] (TcpClient_new ''c'') = Inr c1" "cl_connection c1 = Some (2 - 1)"
    "\<forall>i < 2. \<forall>j < 2. i < 4294967296 \<and> j < 4294967296 \<and> cl_made c1 ! i = cl_made c1 ! j \<longrightarrow> i = j"
    using client_connections [of "[''u'', ''u'']" "''c''"] by auto
  from c1(3) [rule_format, of 0 1] c1(1,2) show ?thesis by auto
qed

end
