(* ===== verification/Lotta_Loop_Connections.thy ===== *)
theory Lotta_Loop_Connections
  imports Lotta_Tcp_Server
begin

text \<open>
  Many connections on one loop: the \<^verbatim>\<open>TcpConnection\<close>s whose channels share the poller of one I/O
  loop of a \<^verbatim>\<open>TcpServer\<close> with threads. The server's map holds the reference to a connection until
  the removal task gives it up, so that the object outlives its \<^verbatim>\<open>handleClose\<close>.
\<close>

section \<open>State and events\<close>

text \<open>The component \<open>cn_pw\<close> of a connection is not used here: the poller is \<open>kl_pw\<close>.
  Connections are named by the identity of their channel.\<close>

record conn_loop =
  kl_pw :: "io_handler pworld"
  kl_conns :: "nat \<rightharpoonup> tcp_conn"

definition on_conn :: "nat \<Rightarrow> (tcp_conn \<Rightarrow> tcp_conn res) \<Rightarrow> conn_loop \<Rightarrow> conn_loop res" where
  "on_conn d f k = derefR (kl_conns k d) ''connection'' (\<lambda>c.
     bindR (f (c\<lparr>cn_pw := kl_pw k\<rparr>)) (\<lambda>c1.
     Inr (k\<lparr>kl_pw := cn_pw c1, kl_conns := (kl_conns k)(d \<mapsto> c1)\<rparr>)))"

text \<open>
  What happens to a loop's connections: a descriptor accepted by the server is made a connection
  and established, bytes arrive, the socket becomes writable, the program sends, shuts down or
  closes, a send that another thread queued is run, the peer closes, hangs up or fails, and the
  removal task destroys a connection that was closed.
\<close>

datatype conn_event =
    Accept nat int string
  | Arrive nat string
  | Writable nat
  | SendTo nat string
  | SendQueued nat string
  | ShutdownOf nat
  | CloseOf nat
  | PeerClosed nat
  | HangUp nat
  | Failed nat
  | Removed nat

text \<open>The end of the last reference to a connection.\<close>

definition drop_conn :: "nat \<Rightarrow> conn_loop \<Rightarrow> conn_loop res" where
  "drop_conn d k = derefR (kl_conns k d) ''connection'' (\<lambda>c.
     bindR (TcpConnection_release (c\<lparr>cn_pw := kl_pw k, cn_refs := cn_refs c - 1\<rparr>)) (\<lambda>c1.
     Inr (k\<lparr>kl_pw := cn_pw c1, kl_conns := (kl_conns k)(d := None)\<rparr>)))"

fun conn_loop_step :: "(nat \<Rightarrow> conn_env) \<Rightarrow> conn_event \<Rightarrow> conn_loop \<Rightarrow> conn_loop res" where
  "conn_loop_step env (Accept d fd name) k =
     bindR (TcpConnection_connEstablished (env d) (TcpConnection_new (kl_pw k) d name fd)) (\<lambda>c.
     Inr (k\<lparr>kl_pw := cn_pw c, kl_conns := (kl_conns k)(d \<mapsto> c)\<rparr>))"
| "conn_loop_step env (Arrive d bs) k = on_conn d (TcpConnection_handleRead (env d) (length bs) (Some bs)) k"
| "conn_loop_step env (Writable d) k = on_conn d (TcpConnection_handleWrite (env d)) k"
| "conn_loop_step env (SendTo d msg) k = on_conn d (TcpConnection_send (env d) True msg) k"
| "conn_loop_step env (SendQueued d msg) k = on_conn d (TcpConnection_sendTask (env d) msg) k"
| "conn_loop_step env (ShutdownOf d) k = on_conn d (TcpConnection_shutdown True) k"
| "conn_loop_step env (CloseOf d) k = on_conn d (TcpConnection_close (env d) True) k"
| "conn_loop_step env (PeerClosed d) k = on_conn d (TcpConnection_handleRead (env d) 0 (Some [])) k"
| "conn_loop_step env (HangUp d) k = on_conn d (TcpConnection_handleClose (env d)) k"
| "conn_loop_step env (Failed d) k = on_conn d TcpConnection_handleError k"
| "conn_loop_step env (Removed d) k = drop_conn d k"

fun conn_loop_run :: "(nat \<Rightarrow> conn_env) \<Rightarrow> conn_event list \<Rightarrow> conn_loop \<Rightarrow> conn_loop res" where
  "conn_loop_run env [] k = Inr k"
| "conn_loop_run env (ev # evs) k = bindR (conn_loop_step env ev k) (conn_loop_run env evs)"

text \<open>
  Which events the loop's environment can produce: a fresh object and descriptor, reports only for
  connections that exist, and calls on connections the program still has. (A \<^verbatim>\<open>close\<close> of a connection
  that is closed already stops the process: \<open>close_closed_aborts\<close>; a queued send may find it
  destroyed: \<open>queued_send_dangles\<close>.)
\<close>

fun conn_event_ok :: "conn_event \<Rightarrow> conn_loop \<Rightarrow> bool" where
  "conn_event_ok (Accept d fd name) k \<longleftrightarrow>
     kl_conns k d = None \<and> pw_store (kl_pw k) d = None \<and> 0 \<le> fd \<and> pw_map (kl_pw k) fd = None"
| "conn_event_ok (SendTo d msg) k \<longleftrightarrow> kl_conns k d \<noteq> None"
| "conn_event_ok (SendQueued d msg) k \<longleftrightarrow>
     (case kl_conns k d of None \<Rightarrow> False | Some c \<Rightarrow> cn_state c \<noteq> Disconnected)"
| "conn_event_ok (ShutdownOf d) k \<longleftrightarrow> kl_conns k d \<noteq> None"
| "conn_event_ok (Arrive d bs) k \<longleftrightarrow>
     (case kl_conns k d of None \<Rightarrow> False | Some c \<Rightarrow> cn_state c \<noteq> Disconnected \<and> bs \<noteq> [])"
| "conn_event_ok (Writable d) k \<longleftrightarrow> kl_conns k d \<noteq> None"
| "conn_event_ok (Failed d) k \<longleftrightarrow> kl_conns k d \<noteq> None"
| "conn_event_ok (HangUp d) k \<longleftrightarrow> (case kl_conns k d of None \<Rightarrow> False | Some c \<Rightarrow> cn_state c \<noteq> Disconnected)"
| "conn_event_ok (CloseOf d) k \<longleftrightarrow> (case kl_conns k d of None \<Rightarrow> False | Some c \<Rightarrow> cn_state c \<noteq> Disconnected)"
| "conn_event_ok (PeerClosed d) k \<longleftrightarrow> (case kl_conns k d of None \<Rightarrow> False | Some c \<Rightarrow> cn_state c \<noteq> Disconnected)"
| "conn_event_ok (Removed d) k \<longleftrightarrow> (case kl_conns k d of None \<Rightarrow> False | Some c \<Rightarrow> cn_state c = Disconnected)"

fun conn_events_ok :: "(nat \<Rightarrow> conn_env) \<Rightarrow> conn_event list \<Rightarrow> conn_loop \<Rightarrow> bool" where
  "conn_events_ok env [] k \<longleftrightarrow> True"
| "conn_events_ok env (ev # evs) k \<longleftrightarrow> conn_event_ok ev k \<and>
     (case conn_loop_step env ev k of Inl _ \<Rightarrow> True | Inr k1 \<Rightarrow> conn_events_ok env evs k1)"

section \<open>Typing\<close>

text \<open>
  The state of a connection is its type: one that is connected or shutting down is open on the
  loop's poller, one that is disconnected is not registered any more, its channel object still
  exists, and no established connection is still connecting. Between two events the map of the
  server holds the only reference.
\<close>

definition conn_typed :: "io_handler pworld \<Rightarrow> nat \<Rightarrow> tcp_conn \<Rightarrow> bool" where
  "conn_typed w d c \<longleftrightarrow> cn_chan c = d \<and> cn_refs c = 1 \<and>
     (case cn_state c of
        Connecting \<Rightarrow> False
      | Connected \<Rightarrow> conn_open (c\<lparr>cn_pw := w\<rparr>)
      | Disconnecting \<Rightarrow> conn_open (c\<lparr>cn_pw := w\<rparr>)
      | Disconnected \<Rightarrow> (\<exists>ch. pw_store w d = Some ch \<and> ch_events ch = 0) \<and> d \<notin> ran (pw_map w))"

definition kl_typed :: "conn_loop \<Rightarrow> bool" where
  "kl_typed k \<longleftrightarrow> (\<exists>cs. poller_rep (kl_pw k) cs) \<and> slots_live (kl_pw k) \<and>
     (\<forall>d c. kl_conns k d = Some c \<longrightarrow> conn_typed (kl_pw k) d c)"

lemma conn_openI:
  "poller_rep (cn_pw c) cs \<Longrightarrow> cn_chan c \<in> set cs \<Longrightarrow> slots_live (cn_pw c) \<Longrightarrow> conn_channel c = Some ch \<Longrightarrow>
   ch_events ch = conn_mask c \<Longrightarrow> buffer_wf (cn_in c) \<Longrightarrow> buffer_wf (cn_out c) \<Longrightarrow> conn_open c"
  unfolding conn_open_def by blast

text \<open>What an operation on \<open>d\<close> guarantees to the other channels of the loop.\<close>

definition others_kept :: "nat \<Rightarrow> 'cb pworld \<Rightarrow> 'cb pworld \<Rightarrow> bool" where
  "others_kept d w w1 \<longleftrightarrow> (\<exists>cs. poller_rep w1 cs) \<and> slots_live w1 \<and>
     ran (pw_map w1) - {d} = ran (pw_map w) - {d} \<and>
     (\<forall>e. e \<noteq> d \<longrightarrow> (\<exists>i. pw_store w1 e = map_option (\<lambda>ch. ch\<lparr>ch_idxPoll := i\<rparr>) (pw_store w e)))"

lemma same_others_kept:
  assumes same: "same_others d w w1" and w: "poller_rep w cs" "slots_live w"
  shows "others_kept d w w1"
proof -
  have "\<forall>cs. poller_rep w cs \<longrightarrow> poller_rep w1 cs" using same by (simp add: same_others_def)
  then have rep: "poller_rep w1 cs" "slots_live w1" using same w by (simp_all add: same_others_def)
  have "ran (pw_map w1) = ran (pw_map w)" using rep_registered [OF rep(1)] rep_registered [OF w(1)] by simp
  moreover have "\<exists>i. pw_store w1 e = map_option (\<lambda>ch. ch\<lparr>ch_idxPoll := i\<rparr>) (pw_store w e)" if "e \<noteq> d" for e
    using same that channel_idx_self [of "pw_store w e"] by (simp add: same_others_def)
  ultimately show ?thesis unfolding others_kept_def using rep by blast
qed

lemma typed_other:
  assumes kept: "others_kept d w w1" and typed: "conn_typed w e c" and ne: "e \<noteq> d"
  shows "conn_typed w1 e c"
proof -
  obtain i where store: "pw_store w1 e = map_option (\<lambda>ch. ch\<lparr>ch_idxPoll := i\<rparr>) (pw_store w e)"
    using kept ne by (auto simp: others_kept_def)
  have ran: "e \<in> ran (pw_map w1) \<longleftrightarrow> e \<in> ran (pw_map w)" using kept ne by (auto simp: others_kept_def)
  obtain cs1 where rep1: "poller_rep w1 cs1" "slots_live w1" using kept by (auto simp: others_kept_def)
  have chan: "cn_chan c = e" using typed by (simp add: conn_typed_def)
  have "conn_open (c\<lparr>cn_pw := w1\<rparr>)" if opened: "conn_open (c\<lparr>cn_pw := w\<rparr>)"
  proof -
    obtain cs ch where cs: "poller_rep w cs" "e \<in> set cs" and ch: "pw_store w e = Some ch" "ch_events ch = conn_mask c"
      and wf: "buffer_wf (cn_in c)" "buffer_wf (cn_out c)"
      using opened chan by (auto simp: conn_open_def conn_channel_def conn_mask_def)
    have reg: "cn_chan (c\<lparr>cn_pw := w1\<rparr>) \<in> set cs1"
      using cs(2) ran chan unfolding rep_registered [OF cs(1)] rep_registered [OF rep1(1)] by simp
    have "conn_channel (c\<lparr>cn_pw := w1\<rparr>) = Some (ch\<lparr>ch_idxPoll := i\<rparr>)"
      using store ch(1) chan by (simp add: conn_channel_def)
    from conn_openI [OF _ reg _ this] show ?thesis using rep1 ch(2) wf by (simp add: conn_mask_def)
  qed
  moreover have "(\<exists>ch. pw_store w1 e = Some ch \<and> ch_events ch = 0) \<longleftrightarrow> (\<exists>ch. pw_store w e = Some ch \<and> ch_events ch = 0)"
    using store by auto
  ultimately show ?thesis
    using typed ran by (cases "cn_state c") (simp_all add: conn_typed_def)
qed

text \<open>What is to be shown of each operation of one connection.\<close>

definition op_typed :: "tcp_conn \<Rightarrow> tcp_conn res \<Rightarrow> bool" where
  "op_typed c r \<longleftrightarrow> (\<exists>c1. r = Inr c1 \<and> conn_typed (cn_pw c1) (cn_chan c) c1 \<and> others_kept (cn_chan c) (cn_pw c) (cn_pw c1))"

lemma typed_step:
  assumes k: "kl_typed k" and kept: "others_kept d (kl_pw k) w1" and typed: "\<And>c. x = Some c \<Longrightarrow> conn_typed w1 d c"
  shows "kl_typed (k\<lparr>kl_pw := w1, kl_conns := (kl_conns k)(d := x)\<rparr>)"
proof -
  have "conn_typed w1 e c" if "((kl_conns k)(d := x)) e = Some c" for e c
    using that typed typed_other [OF kept, of e c] k by (cases "e = d") (auto simp: kl_typed_def)
  then show ?thesis using kept by (auto simp: kl_typed_def others_kept_def)
qed

lemma on_conn_typed:
  assumes k: "kl_typed k" and c: "kl_conns k d = Some c" and f: "op_typed (c\<lparr>cn_pw := kl_pw k\<rparr>) (f (c\<lparr>cn_pw := kl_pw k\<rparr>))"
  shows "\<exists>k1. on_conn d f k = Inr k1 \<and> kl_typed k1"
proof -
  have chan: "cn_chan c = d" using k c by (auto simp: kl_typed_def conn_typed_def)
  then obtain c1 where c1: "f (c\<lparr>cn_pw := kl_pw k\<rparr>) = Inr c1" "conn_typed (cn_pw c1) d c1"
    "others_kept d (kl_pw k) (cn_pw c1)" using f by (auto simp: op_typed_def)
  then show ?thesis using typed_step [OF k c1(3), of "Some c1"] c by (auto simp: on_conn_def)
qed

section \<open>The operations keep the types\<close>

lemma conn_typed_pw [simp]: "conn_typed w d (c\<lparr>cn_pw := w'\<rparr>) \<longleftrightarrow> conn_typed w d c"
  by (cases "cn_state c") (simp_all add: conn_typed_def)

lemma conn_typed_open: "conn_typed (cn_pw c) d c \<Longrightarrow> cn_state c \<noteq> Disconnected \<Longrightarrow> conn_open c"
  by (cases "cn_state c") (simp_all add: conn_typed_def)

lemma others_kept_refl: "poller_rep w cs \<Longrightarrow> slots_live w \<Longrightarrow> others_kept d w w"
  by (rule same_others_kept) simp_all

lemma op_typed_open:
  assumes opened: "conn_open c" and c1: "conn_open c1" "same_others (cn_chan c) (cn_pw c) (cn_pw c1)"
    and same: "cn_chan c1 = cn_chan c" "cn_refs c1 = 1" "cn_state c1 = Connected \<or> cn_state c1 = Disconnecting"
  shows "op_typed c (Inr c1)"
proof -
  obtain cs where "poller_rep (cn_pw c) cs" "slots_live (cn_pw c)" using opened by (auto simp: conn_open_def)
  then have "others_kept (cn_chan c) (cn_pw c) (cn_pw c1)" by (rule same_others_kept [OF c1(2)])
  then show ?thesis using c1(1) same by (auto simp: op_typed_def conn_typed_def)
qed

lemma op_typed_skip:
  "conn_typed (cn_pw c) (cn_chan c) c \<Longrightarrow> poller_rep (cn_pw c) cs \<Longrightarrow> slots_live (cn_pw c) \<Longrightarrow> op_typed c (Inr c)"
  by (simp add: op_typed_def others_kept_refl)

lemma writable_open_typed:
  assumes "conn_open c" "env_ok env" "cn_refs c = 1" "cn_state c \<in> {Connected, Disconnecting}"
  shows "op_typed c (TcpConnection_handleWrite env c)"
proof -
  obtain c1 where "TcpConnection_handleWrite env c = Inr c1"
    "conn_open c1" "same_others (cn_chan c) (cn_pw c) (cn_pw c1)" "cn_chan c1 = cn_chan c"
    "cn_state c1 = cn_state c" "cn_refs c1 = cn_refs c"
    using handleWrite_stream [OF assms(1,2)] by blast
  then show ?thesis using op_typed_open [OF assms(1)] assms(3,4) by auto
qed

text \<open>A report may come after a handler of the same dispatch has closed the connection: then nothing
  is written, for the interest of a closed channel is empty.\<close>

lemma writable_typed:
  assumes typed: "conn_typed (cn_pw c) (cn_chan c) c" and rep: "poller_rep (cn_pw c) cs" "slots_live (cn_pw c)"
    and env: "env_ok env"
  shows "op_typed c (TcpConnection_handleWrite env c)"
proof (cases "cn_state c = Disconnected")
  case True
  then obtain ch where "conn_channel c = Some ch" "ch_events ch = 0"
    using typed by (auto simp: conn_typed_def conn_channel_def)
  then have "TcpConnection_handleWrite env c = Inr c"
    using rep(1) by (simp add: TcpConnection_handleWrite_def EventLoop_assertTheSameThread_def poller_rep_def Channel_isWriting_def)
  then show ?thesis using op_typed_skip [OF typed rep] by simp
next
  case False
  then show ?thesis
    using writable_open_typed [OF conn_typed_open [OF typed False] env] typed
    by (cases "cn_state c") (auto simp: conn_typed_def)
qed

lemma failed_typed:
  assumes typed: "conn_typed (cn_pw c) (cn_chan c) c" and rep: "poller_rep (cn_pw c) cs" "slots_live (cn_pw c)"
  shows "op_typed c (TcpConnection_handleError c)"
proof -
  have "conn_channel c \<noteq> None" using typed by (cases "cn_state c") (auto simp: conn_typed_def conn_open_def conn_channel_def)
  then have "TcpConnection_handleError c = Inr c"
    using rep(1) by (auto simp: TcpConnection_handleError_def EventLoop_assertTheSameThread_def poller_rep_def)
  then show ?thesis using op_typed_skip [OF typed rep] by simp
qed

lemma sendTask_typed:
  assumes opened: "conn_open c" and env: "env_ok env" and c: "cn_refs c = 1" "cn_state c \<in> {Connected, Disconnecting}"
  shows "op_typed c (TcpConnection_sendTask env msg c)"
proof -
  obtain c1 where "TcpConnection_sendTask env msg c = Inr c1"
    "conn_open c1" "same_others (cn_chan c) (cn_pw c) (cn_pw c1)" "cn_chan c1 = cn_chan c"
    "cn_state c1 = cn_state c" "cn_refs c1 = cn_refs c"
    using sendTask_spec [OF opened env] by blast
  then show ?thesis using op_typed_open [OF opened] c by auto
qed

lemma send_typed:
  assumes typed: "conn_typed (cn_pw c) (cn_chan c) c" and rep: "poller_rep (cn_pw c) cs" "slots_live (cn_pw c)"
    and env: "env_ok env"
  shows "op_typed c (TcpConnection_send env True msg c)"
proof (cases "cn_state c = Connected")
  case True
  have "conn_open c" using conn_typed_open [OF typed] True by simp
  then show ?thesis
    using sendTask_typed [OF _ env] typed True by (simp add: TcpConnection_send_def conn_typed_def)
qed (simp add: TcpConnection_send_def op_typed_skip [OF typed rep])

lemma shutdown_typed:
  assumes typed: "conn_typed (cn_pw c) (cn_chan c) c" and rep: "poller_rep (cn_pw c) cs" "slots_live (cn_pw c)"
  shows "op_typed c (TcpConnection_shutdown True c)"
proof (cases "cn_state c = Connected")
  case True
  have opened: "conn_open c" using conn_typed_open [OF typed] True by simp
  let ?c1 = "c\<lparr>cn_state := Disconnecting\<rparr>"
  have open1: "conn_open ?c1" "conn_open (?c1\<lparr>cn_fin := True\<rparr>)"
    using opened by (simp_all add: conn_open_def conn_channel_def conn_mask_def)
  show ?thesis
    using shutdownTask_open [OF open1(1)] True open1 op_typed_open [OF opened] typed
    by (auto simp: TcpConnection_shutdown_def conn_typed_def)
qed (simp add: TcpConnection_shutdown_def op_typed_skip [OF typed rep])

lemma kl_typed_conn: "kl_typed k \<Longrightarrow> kl_conns k d = Some c \<Longrightarrow> conn_typed (kl_pw k) d c"
  by (simp add: kl_typed_def)

lemma conn_typed_state:
  "conn_typed w d c \<Longrightarrow> cn_chan c = d \<and> cn_refs c = 1 \<and> cn_state c \<noteq> Connecting \<and>
     (cn_state c \<noteq> Disconnected \<longrightarrow> conn_open (c\<lparr>cn_pw := w\<rparr>) \<and> cn_state c \<in> {Connected, Disconnecting}) \<and>
     (cn_state c = Disconnected \<longrightarrow> (\<exists>ch. pw_store w d = Some ch \<and> ch_events ch = 0) \<and> d \<notin> ran (pw_map w))"
  by (cases "cn_state c") (simp_all add: conn_typed_def)

lemma removed_typed:
  assumes k: "kl_typed k" and c: "kl_conns k d = Some c" "cn_state c = Disconnected"
  shows "\<exists>k1. drop_conn d k = Inr k1 \<and> kl_typed k1"
proof -
  obtain cs where rep: "poller_rep (kl_pw k) cs" "slots_live (kl_pw k)" using k by (auto simp: kl_typed_def)
  have typed: "cn_chan c = d" "cn_refs c = 1" "d \<notin> ran (pw_map (kl_pw k))"
    using conn_typed_state [OF kl_typed_conn [OF k c(1)]] c(2) by simp_all
  let ?w1 = "(kl_pw k)\<lparr>pw_store := (pw_store (kl_pw k))(d := None)\<rparr>"
  have "poller_rep ?w1 cs" using rep_store_other [OF rep(1)] typed(3) rep_registered [OF rep(1)] by simp
  then have "others_kept d (kl_pw k) ?w1"
    unfolding others_kept_def using rep(2) channel_idx_self by (auto simp: slots_live_def)
  then show ?thesis
    using typed_step [OF k, of d ?w1 None] c typed by (auto simp: drop_conn_def TcpConnection_release_def)
qed

section \<open>Answers\<close>

lemma conn_stream_pw [simp]: "conn_stream (c\<lparr>cn_pw := w\<rparr>) = conn_stream c"
  by (simp add: conn_stream_def)

fun event_of :: "conn_event \<Rightarrow> nat" where
  "event_of (Accept d fd name) = d"
| "event_of (Arrive d bs) = d"
| "event_of (Writable d) = d"
| "event_of (SendTo d msg) = d"
| "event_of (SendQueued d msg) = d"
| "event_of (ShutdownOf d) = d"
| "event_of (CloseOf d) = d"
| "event_of (PeerClosed d) = d"
| "event_of (HangUp d) = d"
| "event_of (Failed d) = d"
| "event_of (Removed d) = d"

lemma on_conn_other: "on_conn d f k = Inr k1 \<Longrightarrow> e \<noteq> d \<Longrightarrow> kl_conns k1 e = kl_conns k e"
  by (auto simp: on_conn_def res_iffs)

lemma step_other: "conn_loop_step env ev k = Inr k1 \<Longrightarrow> e \<noteq> event_of ev \<Longrightarrow> kl_conns k1 e = kl_conns k e"
  by (cases ev) (auto simp: drop_conn_def res_iffs dest: on_conn_other)

lemma step_exists:
  "conn_loop_step env ev k = Inr k1 \<Longrightarrow> ev \<noteq> Removed d \<Longrightarrow> kl_conns k d \<noteq> None \<Longrightarrow> kl_conns k1 d \<noteq> None"
  by (cases ev) (auto simp: on_conn_def drop_conn_def res_iffs)

text \<open>
  How connection \<open>d\<close> is served: \<open>serve l bs\<close> is what the application answers to the message \<open>bs\<close> when
  \<open>l\<close> is left of earlier input, and what it leaves in turn; it is \<open>None\<close> when the application does
  not keep the connection up after the message. A turn is the answer to one event, a dialogue what
  a run of events comes to; both are \<open>None\<close> when the connection is shut down, closed or removed.
\<close>

fun conn_turn :: "(string \<Rightarrow> string \<Rightarrow> (string \<times> string) option) \<Rightarrow> nat \<Rightarrow> string \<Rightarrow> conn_event \<Rightarrow> (string \<times> string) option" where
  "conn_turn serve d l (Arrive e bs) = (if e = d then serve l bs else Some ([], l))"
| "conn_turn serve d l (SendTo e msg) = Some (if e = d then msg else [], l)"
| "conn_turn serve d l (SendQueued e msg) = Some (if e = d then msg else [], l)"
| "conn_turn serve d l (ShutdownOf e) = (if e = d then None else Some ([], l))"
| "conn_turn serve d l (CloseOf e) = (if e = d then None else Some ([], l))"
| "conn_turn serve d l (PeerClosed e) = (if e = d then None else Some ([], l))"
| "conn_turn serve d l (HangUp e) = (if e = d then None else Some ([], l))"
| "conn_turn serve d l (Removed e) = (if e = d then None else Some ([], l))"
| "conn_turn serve d l _ = Some ([], l)"

fun dialogue :: "(string \<Rightarrow> string \<Rightarrow> (string \<times> string) option) \<Rightarrow> nat \<Rightarrow> string \<Rightarrow> conn_event list \<Rightarrow> (string \<times> string) option" where
  "dialogue serve d l [] = Some ([], l)"
| "dialogue serve d l (ev # evs) = (case conn_turn serve d l ev of None \<Rightarrow> None
     | Some (msg, l1) \<Rightarrow> map_option (\<lambda>(out, l2). (msg @ out, l2)) (dialogue serve d l1 evs))"

lemma dialogue_append:
  "dialogue serve d l (evs @ evs1) = (case dialogue serve d l evs of None \<Rightarrow> None
     | Some (out, l1) \<Rightarrow> map_option (\<lambda>(out1, l2). (out @ out1, l2)) (dialogue serve d l1 evs1))"
  by (induction evs arbitrary: l)
    (auto split: option.split simp: option.map_comp comp_def case_prod_unfold prod.case_eq_if option.map_ident)

text \<open>No event that makes \<open>d\<close> send meets an exhausted buffer or a failing \<^verbatim>\<open>write\<close>.\<close>

definition clean_send :: "conn_env \<Rightarrow> string \<Rightarrow> tcp_conn \<Rightarrow> bool" where
  "clean_send env msg c \<longleftrightarrow> \<not> buffer_exhausted (cn_out c) \<and> \<not> buffer_exhausted (cn_in c) \<and>
     length msg < size_max1 \<and> 0 \<le> env_write env (cn_writes c) (length msg)"

fun speaks :: "nat \<Rightarrow> conn_event \<Rightarrow> bool" where
  "speaks d (Arrive e bs) \<longleftrightarrow> e = d"
| "speaks d (SendTo e msg) \<longleftrightarrow> e = d"
| "speaks d (SendQueued e msg) \<longleftrightarrow> e = d"
| "speaks d _ \<longleftrightarrow> False"

definition clean_event :: "(string \<Rightarrow> string \<Rightarrow> (string \<times> string) option) \<Rightarrow> conn_env \<Rightarrow> nat \<Rightarrow> conn_event \<Rightarrow> conn_loop \<Rightarrow> bool" where
  "clean_event serve env d ev k \<longleftrightarrow> (speaks d ev \<longrightarrow> (case kl_conns k d of None \<Rightarrow> True
     | Some c \<Rightarrow> (case conn_turn serve d (buffer_contents (cn_in c)) ev of None \<Rightarrow> True | Some (msg, _) \<Rightarrow> clean_send env msg c)))"

lemma clean_event_silent [simp]: "\<not> speaks d ev \<Longrightarrow> clean_event serve env d ev k"
  by (simp add: clean_event_def)

lemma clean_event_env:
  assumes "env_write env1 = env_write env"
  shows "clean_send env1 = clean_send env" and "clean_event serve env1 d ev k = clean_event serve env d ev k"
proof -
  show same: "clean_send env1 = clean_send env" using assms by (simp add: clean_send_def fun_eq_iff)
  show "clean_event serve env1 d ev k = clean_event serve env d ev k" unfolding clean_event_def same by (rule refl)
qed

fun clean_events :: "(string \<Rightarrow> string \<Rightarrow> (string \<times> string) option) \<Rightarrow> (nat \<Rightarrow> conn_env) \<Rightarrow> nat \<Rightarrow> conn_event list \<Rightarrow> conn_loop \<Rightarrow> bool" where
  "clean_events serve env d [] k \<longleftrightarrow> True"
| "clean_events serve env d (ev # evs) k \<longleftrightarrow> clean_event serve (env d) d ev k \<and>
     (case conn_loop_step env ev k of Inl _ \<Rightarrow> True | Inr k1 \<Rightarrow> clean_events serve env d evs k1)"

text \<open>A connection that is being served: connected, with \<open>l\<close> left of its input.\<close>

definition serving :: "conn_loop \<Rightarrow> nat \<Rightarrow> string \<Rightarrow> tcp_conn \<Rightarrow> bool" where
  "serving k d l c \<longleftrightarrow> kl_conns k d = Some c \<and> cn_state c = Connected \<and> buffer_contents (cn_in c) = l"

text \<open>The messages that arrive are such that the application can deal with them, given what is left of
  earlier ones in the input buffer.\<close>

definition accepted :: "(buffer \<Rightarrow> string \<Rightarrow> bool) \<Rightarrow> conn_event \<Rightarrow> conn_loop \<Rightarrow> bool" where
  "accepted accepts ev k \<longleftrightarrow> (case ev of
     Arrive d bs \<Rightarrow> (case kl_conns k d of None \<Rightarrow> True | Some c \<Rightarrow> accepts (cn_in c) bs)
   | _ \<Rightarrow> True)"

fun all_accepted :: "(buffer \<Rightarrow> string \<Rightarrow> bool) \<Rightarrow> (nat \<Rightarrow> conn_env) \<Rightarrow> conn_event list \<Rightarrow> conn_loop \<Rightarrow> bool" where
  "all_accepted accepts env [] k \<longleftrightarrow> True"
| "all_accepted accepts env (ev # evs) k \<longleftrightarrow> accepted accepts ev k \<and>
     (case conn_loop_step env ev k of Inl _ \<Rightarrow> True | Inr k1 \<Rightarrow> all_accepted accepts env evs k1)"

lemma all_accepted_any: "\<forall>b bs. accepts b bs \<Longrightarrow> all_accepted accepts env evs k"
  by (induction evs arbitrary: k) (auto simp: accepted_def split: sum.split conn_event.split option.split)

section \<open>The interface of an application\<close>

text \<open>
  What the loop's connections rely on in the owner of their callbacks: \<open>app\<close> sets them, and only the
  message callback does anything to the connection. For a message that it accepts it leaves the
  connection typed; and while the connection is connected, it appends its answer to what is sent
  and leaves the rest of the input, as \<open>serve\<close> says, unless it does not keep the connection up.
\<close>

locale conn_app =
  fixes app :: "conn_env \<Rightarrow> conn_env"
    and accepts :: "buffer \<Rightarrow> string \<Rightarrow> bool"
    and serve :: "string \<Rightarrow> string \<Rightarrow> (string \<times> string) option"
  assumes app_ok: "env_ok env \<Longrightarrow> env_ok (app env)"
    and app_silent: "cb \<noteq> MsgCallback \<Longrightarrow> env_user (app env) cb = Inr"
    and app_typed: "conn_open c \<Longrightarrow> env_ok env \<Longrightarrow> cn_refs c = 1 \<Longrightarrow> cn_state c \<in> {Connected, Disconnecting} \<Longrightarrow>
      bs \<noteq> [] \<Longrightarrow> accepts (cn_in c) bs \<Longrightarrow> op_typed c (TcpConnection_handleRead (app env) (length bs) (Some bs) c)"
    and app_answers: "conn_open c \<Longrightarrow> env_ok env \<Longrightarrow> cn_refs c = 1 \<Longrightarrow> cn_state c = Connected \<Longrightarrow>
      bs \<noteq> [] \<Longrightarrow> accepts (cn_in c) bs \<Longrightarrow> serve (buffer_contents (cn_in c)) bs = Some (msg, l) \<Longrightarrow>
      clean_send (app env) msg c \<Longrightarrow>
      \<exists>c1. TcpConnection_handleRead (app env) (length bs) (Some bs) c = Inr c1 \<and> cn_state c1 = Connected \<and>
        buffer_contents (cn_in c1) = l \<and> conn_stream c1 = conn_stream c @ msg"
begin

lemma server_handleClose:
  assumes opened: "conn_open c" and refs: "0 < cn_refs c"
  shows "\<exists>w1. TcpConnection_handleClose (app env) c = Inr (c\<lparr>cn_state := Disconnected, cn_pw := w1\<rparr>) \<and>
     (\<exists>ch. pw_store w1 (cn_chan c) = Some ch \<and> ch_events ch = 0) \<and>
     cn_chan c \<notin> ran (pw_map w1) \<and> others_kept (cn_chan c) (cn_pw c) w1"
proof -
  obtain w1 cs1 ch where w1: "TcpConnection_handleClose (app env) c =
       bindR (conn_callback (app env) CloseCallback (c\<lparr>cn_state := Disconnected, cn_pw := w1\<rparr>))
         (conn_callback (app env) RmConnCallback)"
    "poller_rep w1 cs1" "slots_live w1" "ran (pw_map w1) = ran (pw_map (cn_pw c)) - {cn_chan c}"
    "pw_store w1 (cn_chan c) = Some ch" "ch_events ch = 0"
    "\<forall>e. e \<noteq> cn_chan c \<longrightarrow> (\<exists>i. pw_store w1 e = map_option (\<lambda>ch. ch\<lparr>ch_idxPoll := i\<rparr>) (pw_store (cn_pw c) e))"
    using handleClose_channel [OF opened, of "app env"] by blast
  have "others_kept (cn_chan c) (cn_pw c) w1"
    unfolding others_kept_def using w1(2,3,4,7) by auto
  moreover have "TcpConnection_handleClose (app env) c = Inr (c\<lparr>cn_state := Disconnected, cn_pw := w1\<rparr>)"
    using w1(1,5) refs by (auto simp: conn_callback_def conn_channel_def TcpConnection_release_def app_silent)
  ultimately show ?thesis using w1(4-6) refs by auto
qed

lemma peer_closed_typed:
  assumes opened: "conn_open c" and env: "env_ok env" and refs: "cn_refs c = 1"
  shows "op_typed c (TcpConnection_handleRead (app env) 0 (Some []) c) \<and>
     (\<exists>c1. TcpConnection_handleRead (app env) 0 (Some []) c = Inr c1 \<and> cn_state c1 = Disconnected)"
proof -
  obtain ch where ch: "conn_channel c = Some ch" and wf: "buffer_wf (cn_in c)"
    using opened by (auto simp: conn_open_def)
  obtain b where b: "Buffer_readFrom (env_grow (app env)) (cn_in c) 0 (Some []) = Inr (0, b)" "buffer_wf b"
    using Buffer_readFrom_spec [OF wf, of "env_grow (app env)" "[]" 0] app_ok [OF env] by (auto simp: env_ok_def)
  have "TcpConnection_handleRead (app env) 0 (Some []) c =
      TcpConnection_handleClose (app env) (c\<lparr>cn_in := b\<rparr>)"
    using b(1) ch conn_open_thread [OF opened]
    by (simp add: TcpConnection_handleRead_def EventLoop_assertTheSameThread_def)
  then show ?thesis
    using server_handleClose [OF conn_open_in [OF opened b(2)], of env] refs by (auto simp: op_typed_def conn_typed_def)
qed

lemma hang_up_typed:
  assumes opened: "conn_open c" and refs: "cn_refs c = 1"
  shows "op_typed c (TcpConnection_handleClose (app env) c)"
  using server_handleClose [OF opened, of env] refs by (auto simp: op_typed_def conn_typed_def)

lemma close_typed:
  assumes opened: "conn_open c" and refs: "cn_refs c = 1"
  shows "op_typed c (TcpConnection_close (app env) True c)"
proof -
  let ?c1 = "c\<lparr>cn_state := Disconnecting, cn_refs := Suc (cn_refs c)\<rparr>"
  have open1: "conn_open ?c1" using opened by (simp add: conn_open_def conn_channel_def conn_mask_def)
  obtain w1 where "TcpConnection_handleClose (app env) ?c1 = Inr (?c1\<lparr>cn_state := Disconnected, cn_pw := w1\<rparr>)"
    "\<exists>ch. pw_store w1 (cn_chan c) = Some ch \<and> ch_events ch = 0" "cn_chan c \<notin> ran (pw_map w1)"
    "others_kept (cn_chan c) (cn_pw c) w1"
    using server_handleClose [OF open1, of env] by auto
  then show ?thesis
    using refs
    by (simp add: TcpConnection_close_def TcpConnection_closeTask_def TcpConnection_release_def op_typed_def conn_typed_def)
qed

lemma accept_typed:
  assumes k: "kl_typed k" and ok: "conn_event_ok (Accept d fd name) k"
  shows "\<exists>k1. conn_loop_step (\<lambda>d. app (env d)) (Accept d fd name) k = Inr k1 \<and> kl_typed k1"
proof -
  obtain cs where rep: "poller_rep (kl_pw k) cs" "slots_live (kl_pw k)" using k by (auto simp: kl_typed_def)
  have new: "pw_store (kl_pw k) d = None" "0 \<le> fd" "fd \<notin> dom (pw_map (kl_pw k))" using ok by auto
  have fresh: "d \<notin> set cs" using poller_rep_slot [OF rep(1)] new(1) by (fastforce simp: in_set_conv_nth)
  let ?c = "TcpConnection_new (kl_pw k) d name fd"
  obtain w1 ch where w1: "TcpConnection_connEstablished (app (env d)) ?c =
       Inr (?c\<lparr>cn_state := Connected, cn_pw := w1\<rparr>)" "conn_open (?c\<lparr>cn_state := Connected, cn_pw := w1\<rparr>)"
    "poller_rep w1 (cs @ [d])" "slots_live w1" "pw_store w1 = (pw_store (kl_pw k))(d \<mapsto> ch)"
    using connEstablished_spec [OF rep fresh new(2,3), of "app (env d)" name] by (auto simp: app_silent)
  have "others_kept d (kl_pw k) w1"
    unfolding others_kept_def
    using w1(3,4,5) rep_registered [OF w1(3)] rep_registered [OF rep(1)] channel_idx_self by auto
  moreover have "conn_typed w1 d (?c\<lparr>cn_state := Connected, cn_pw := w1\<rparr>)"
    using w1(2) by (simp add: conn_typed_def TcpConnection_new_def)
  ultimately show ?thesis
    using typed_step [OF k, of d w1 "Some (?c\<lparr>cn_state := Connected, cn_pw := w1\<rparr>)"] w1(1) by auto
qed

lemma conn_loop_step_typed:
  assumes k: "kl_typed k" and ok: "conn_event_ok ev k" "accepted accepts ev k" and env: "\<forall>d. env_ok (env d)"
  shows "\<exists>k1. conn_loop_step (\<lambda>d. app (env d)) ev k = Inr k1 \<and> kl_typed k1"
proof -
  obtain cs where rep: "poller_rep (kl_pw k) cs" "slots_live (kl_pw k)" using k by (auto simp: kl_typed_def)
  have typed: "conn_typed (kl_pw k) (cn_chan c) (c\<lparr>cn_pw := kl_pw k\<rparr>)" if "kl_conns k d = Some c" for d c
    using kl_typed_conn [OF k that] conn_typed_state [OF kl_typed_conn [OF k that]] by simp
  have opened: "conn_open (c\<lparr>cn_pw := kl_pw k\<rparr>)" "cn_state c \<in> {Connected, Disconnecting}" "cn_refs c = 1"
    if "kl_conns k d = Some c" "cn_state c \<noteq> Disconnected" for d c
    using conn_typed_state [OF kl_typed_conn [OF k that(1)]] that(2) by simp_all
  note on = on_conn_typed [OF k]
  have app: "env_ok (app (env d))" for d using app_ok env by blast
  show ?thesis
  proof (cases ev)
    case (Accept d fd name)
    then show ?thesis using accept_typed [OF k] ok(1) by simp
  next
    case (Removed d)
    then show ?thesis using removed_typed [OF k] ok(1) by (auto split: option.splits)
  next
    case (Arrive d bs)
    then obtain c where c: "kl_conns k d = Some c" "cn_state c \<noteq> Disconnected" "bs \<noteq> []"
      using ok(1) by (auto split: option.splits)
    have "accepts (cn_in c) bs" using ok(2) Arrive c(1) by (simp add: accepted_def)
    then show ?thesis
      using on [OF c(1)] app_typed [OF opened(1) [OF c(1,2)], of "env d" bs] opened [OF c(1,2)] c(3) env Arrive by auto
  next
    case (Writable d)
    then obtain c where c: "kl_conns k d = Some c" using ok(1) by auto
    show ?thesis using on [OF c] writable_typed [of "c\<lparr>cn_pw := kl_pw k\<rparr>", OF _ _ _, of cs] typed [OF c] rep app Writable by auto
  next
    case (Failed d)
    then obtain c where c: "kl_conns k d = Some c" using ok(1) by auto
    show ?thesis using on [OF c] failed_typed [of "c\<lparr>cn_pw := kl_pw k\<rparr>", OF _ _ _, of cs] typed [OF c] rep Failed by auto
  next
    case (HangUp d)
    then obtain c where c: "kl_conns k d = Some c" "cn_state c \<noteq> Disconnected" using ok(1) by (auto split: option.splits)
    show ?thesis using on [OF c(1)] hang_up_typed [OF opened(1) [OF c]] opened [OF c] HangUp by auto
  next
    case (SendTo d msg)
    then obtain c where c: "kl_conns k d = Some c" using ok(1) by auto
    show ?thesis using on [OF c] send_typed [of "c\<lparr>cn_pw := kl_pw k\<rparr>", OF _ _ _, of cs] typed [OF c] rep app SendTo by auto
  next
    case (SendQueued d msg)
    then obtain c where c: "kl_conns k d = Some c" "cn_state c \<noteq> Disconnected" using ok(1) by (auto split: option.splits)
    show ?thesis using on [OF c(1)] sendTask_typed [OF opened(1) [OF c]] opened [OF c] app SendQueued by auto
  next
    case (ShutdownOf d)
    then obtain c where c: "kl_conns k d = Some c" using ok(1) by auto
    show ?thesis using on [OF c] shutdown_typed [of "c\<lparr>cn_pw := kl_pw k\<rparr>", OF _ _ _, of cs] typed [OF c] rep ShutdownOf by auto
  next
    case (CloseOf d)
    then obtain c where c: "kl_conns k d = Some c" "cn_state c \<noteq> Disconnected" using ok(1) by (auto split: option.splits)
    show ?thesis using on [OF c(1)] close_typed [OF opened(1) [OF c]] opened [OF c] CloseOf by auto
  next
    case (PeerClosed d)
    then obtain c where c: "kl_conns k d = Some c" "cn_state c \<noteq> Disconnected" using ok(1) by (auto split: option.splits)
    show ?thesis using on [OF c(1)] peer_closed_typed [OF opened(1) [OF c]] opened [OF c] env PeerClosed by auto
  qed
qed

lemma conn_loop_run_typed:
  assumes env: "\<forall>d. env_ok (env d)"
  shows "kl_typed k \<Longrightarrow> conn_events_ok (\<lambda>d. app (env d)) evs k \<Longrightarrow> all_accepted accepts (\<lambda>d. app (env d)) evs k \<Longrightarrow>
    \<exists>k1. conn_loop_run (\<lambda>d. app (env d)) evs k = Inr k1 \<and> kl_typed k1"
proof (induction evs arbitrary: k)
  case (Cons ev evs)
  then obtain k1 where k1: "conn_loop_step (\<lambda>d. app (env d)) ev k = Inr k1" "kl_typed k1"
    using conn_loop_step_typed [OF _ _ _ env] by fastforce
  with Cons show ?case by simp
qed simp

lemma peer_closed_step:
  assumes k: "kl_typed k" and env: "\<forall>d. env_ok (env d)" and c: "kl_conns k d = Some c" "cn_state c \<noteq> Disconnected"
    and run: "conn_loop_step (\<lambda>d. app (env d)) (PeerClosed d) k = Inr k1"
  shows "\<exists>c1. kl_conns k1 d = Some c1 \<and> cn_state c1 = Disconnected"
proof -
  have "conn_open (c\<lparr>cn_pw := kl_pw k\<rparr>)" "cn_refs c = 1"
    using conn_typed_state [OF kl_typed_conn [OF k c(1)]] c(2) by simp_all
  then show ?thesis
    using peer_closed_typed [of "c\<lparr>cn_pw := kl_pw k\<rparr>" "env d"] env c(1) run by (auto simp: on_conn_def)
qed

lemma serving_step:
  assumes k: "kl_typed k" and ok: "conn_event_ok ev k" "accepted accepts ev k" and env: "\<forall>d. env_ok (env d)"
    and c: "serving k d l c" and turn: "conn_turn serve d l ev = Some (msg, l1)"
    and clean: "clean_event serve (app (env d)) d ev k"
    and ran_ok: "conn_loop_step (\<lambda>d. app (env d)) ev k = Inr k1"
  shows "\<exists>c1. serving k1 d l1 c1 \<and> conn_stream c1 = conn_stream c @ msg"
proof (cases "event_of ev = d")
  case False
  then have "kl_conns k1 d = kl_conns k d" using step_other [OF ran_ok] by simp
  moreover have "msg = [] \<and> l1 = l" using False turn by (cases ev) auto
  ultimately show ?thesis using c by (simp add: serving_def)
next
  case True
  let ?c = "c\<lparr>cn_pw := kl_pw k\<rparr>"
  have kc: "kl_conns k d = Some c" "cn_state c = Connected" "buffer_contents (cn_in c) = l"
    using c by (simp_all add: serving_def)
  have opened: "conn_open ?c" "cn_refs c = 1"
    using conn_typed_state [OF kl_typed_conn [OF k kc(1)]] kc(2) by simp_all
  have app: "env_ok (app (env d))" using app_ok env by blast
  have cl: "clean_send (app (env d)) msg ?c" if "speaks d ev"
    using that clean kc turn by (simp add: clean_event_def clean_send_def)
  consider (arrive) bs where "ev = Arrive d bs" "serve l bs = Some (msg, l1)"
    | (writable) "ev = Writable d" "msg = []" "l1 = l" | (failed) "ev = Failed d" "msg = []" "l1 = l"
    | (send) "ev = SendTo d msg \<or> ev = SendQueued d msg" "l1 = l"
    using True turn ok(1) kc(1) by (cases ev) auto
  then show ?thesis
  proof cases
    case arrive
    then have bs: "bs \<noteq> []" "accepts (cn_in c) bs" using ok kc by (simp_all add: accepted_def)
    obtain c1 where c1: "TcpConnection_handleRead (app (env d)) (length bs) (Some bs) ?c = Inr c1" "cn_state c1 = Connected"
      "buffer_contents (cn_in c1) = l1" "conn_stream c1 = conn_stream c @ msg"
      using app_answers [OF opened(1), of "env d" bs msg l1] env opened(2) kc(2,3) bs arrive cl by auto
    then show ?thesis
      using ran_ok kc(1) arrive by (auto simp: on_conn_def serving_def)
  next
    case writable
    obtain c1 where "TcpConnection_handleWrite (app (env d)) ?c = Inr c1" "conn_stream c1 = conn_stream c"
      "cn_in c1 = cn_in c" "cn_state c1 = cn_state c"
      using handleWrite_stream [OF opened(1) app] by auto
    then show ?thesis
      using ran_ok kc writable by (auto simp: on_conn_def serving_def)
  next
    case failed
    have "conn_channel ?c \<noteq> None" using opened(1) by (auto simp: conn_open_def)
    then have "TcpConnection_handleError ?c = Inr ?c"
      using conn_open_thread [OF opened(1)]
      by (auto simp: TcpConnection_handleError_def EventLoop_assertTheSameThread_def)
    then show ?thesis
      using ran_ok kc failed by (auto simp: on_conn_def serving_def)
  next
    case send
    then have "clean_send (app (env d)) msg ?c" using cl by auto
    then show ?thesis
      using sendTask_spec [OF opened(1) app, of msg] ran_ok kc send
      by (auto simp: on_conn_def serving_def TcpConnection_send_def clean_send_def)
  qed
qed

lemma serving_run:
  assumes env: "\<forall>d. env_ok (env d)"
  shows "kl_typed k \<Longrightarrow> conn_events_ok (\<lambda>d. app (env d)) evs k \<Longrightarrow>
    all_accepted accepts (\<lambda>d. app (env d)) evs k \<Longrightarrow> clean_events serve (\<lambda>d. app (env d)) d evs k \<Longrightarrow>
    serving k d l c \<Longrightarrow> dialogue serve d l evs = Some (out, l1) \<Longrightarrow>
    \<exists>k1 c1. conn_loop_run (\<lambda>d. app (env d)) evs k = Inr k1 \<and> serving k1 d l1 c1 \<and>
      conn_stream c1 = conn_stream c @ out"
proof (induction evs arbitrary: k c l out)
  case Nil
  then show ?case by (intro exI [of _ k] exI [of _ c]) simp
next
  case (Cons ev evs)
  have ok: "conn_event_ok ev k" "accepted accepts ev k" using Cons.prems(2,3) by auto
  obtain k1 where k1: "conn_loop_step (\<lambda>d. app (env d)) ev k = Inr k1" "kl_typed k1"
    using conn_loop_step_typed [OF Cons.prems(1) ok env] by auto
  obtain msg l2 out2 where turn: "conn_turn serve d l ev = Some (msg, l2)" "dialogue serve d l2 evs = Some (out2, l1)"
    "out = msg @ out2" using Cons.prems(6) by (auto split: option.splits)
  obtain c1 where c1: "serving k1 d l2 c1" "conn_stream c1 = conn_stream c @ msg"
    using serving_step [OF Cons.prems(1) ok env Cons.prems(5) turn(1) _ k1(1)] Cons.prems(4) by auto
  have "conn_events_ok (\<lambda>d. app (env d)) evs k1" "all_accepted accepts (\<lambda>d. app (env d)) evs k1"
    "clean_events serve (\<lambda>d. app (env d)) d evs k1"
    using Cons.prems(2-4) k1(1) by auto
  from Cons.IH [OF k1(2) this c1(1) turn(2)] k1(1) c1(2) turn(3) show ?case by auto
qed

end

section \<open>The echo server is an application\<close>

text \<open>The default message callback of \<^verbatim>\<open>TcpServer\<close> takes any message, answers it with an echo of all
  its input and leaves nothing.\<close>

definition echo_serve :: "string \<Rightarrow> string \<Rightarrow> (string \<times> string) option" where
  "echo_serve l bs = Some (''recv: '' @ l @ bs, [])"

lemma arrive_typed:
  assumes "conn_open c" "env_ok env" "cn_refs c = 1" "bs \<noteq> []" "cn_state c \<in> {Connected, Disconnecting}"
  shows "op_typed c (TcpConnection_handleRead (TcpServer_env env) (length bs) (Some bs) c)"
proof -
  obtain c1 where "TcpConnection_handleRead (TcpServer_env env) (length bs) (Some bs) c = Inr c1"
    "conn_open c1" "same_others (cn_chan c) (cn_pw c) (cn_pw c1)" "cn_chan c1 = cn_chan c"
    "cn_state c1 = cn_state c" "cn_refs c1 = cn_refs c"
    using echo_spec [OF assms(1,2) _ assms(4)] assms(3) by auto
  then show ?thesis using op_typed_open [OF assms(1)] assms(3,5) by auto
qed

lemma echo_answers:
  assumes opened: "conn_open c" and env: "env_ok env" and c: "cn_refs c = 1" "cn_state c = Connected"
    and bs: "bs \<noteq> []" and serve: "echo_serve (buffer_contents (cn_in c)) bs = Some (msg, l)"
    and clean: "clean_send (TcpServer_env env) msg c"
  shows "\<exists>c1. TcpConnection_handleRead (TcpServer_env env) (length bs) (Some bs) c = Inr c1 \<and> cn_state c1 = Connected \<and>
     buffer_contents (cn_in c1) = l \<and> conn_stream c1 = conn_stream c @ msg"
proof -
  obtain b c1 where b: "buffer_wf b" "buffer_contents b = []"
    "TcpConnection_handleRead (TcpServer_env env) (length bs) (Some bs) c = Inr c1"
    "TcpConnection_send env True (''recv: '' @ buffer_reexposed (cn_in c) @ bs) (c\<lparr>cn_in := b\<rparr>) = Inr c1"
    "cn_in c1 = b"
    using echo_spec [OF opened env _ bs] c(1) by auto
  have msg: "msg = ''recv: '' @ buffer_reexposed (cn_in c) @ bs" "l = []"
    using clean serve by (simp_all add: clean_send_def buffer_reexposed_def echo_serve_def)
  then have sent: "TcpConnection_sendTask env msg (c\<lparr>cn_in := b\<rparr>) = Inr c1"
    using b(4) c(2) by (simp add: TcpConnection_send_def)
  from sendTask_spec [OF conn_open_in [OF opened b(1)] env, of msg] clean
  have "cn_state c1 = Connected" "conn_stream c1 = conn_stream c @ msg"
    unfolding sent using c(2) by (auto simp: clean_send_def conn_stream_def)
  then show ?thesis using b(2,3,5) msg(2) by simp
qed

interpretation echo: conn_app TcpServer_env "\<lambda>_ _. True" echo_serve
proof
  show "cb \<noteq> MsgCallback \<Longrightarrow> env_user (TcpServer_env env) cb = Inr" for cb env by (cases cb) simp_all
qed (simp_all add: arrive_typed echo_answers)

text \<open>
  \<^verbatim>\<open>close\<close> does not look at the state: on a connection that is closed already, by the peer or by an
  earlier \<^verbatim>\<open>close\<close>, it updates a channel the poller does not know any more, and an assert of
  \<^verbatim>\<open>updateChannel\<close> stops the process.
\<close>

lemma close_closed_aborts:
  assumes opened: "conn_open c" and refs: "0 < cn_refs c"
  shows "\<exists>c1. TcpConnection_handleClose (TcpServer_env env) c = Inr c1 \<and> cn_state c1 = Disconnected \<and>
     TcpConnection_close (TcpServer_env env) True c1 = Inl (AssertFail ''channels_.find(fd) != end'')"
proof -
  obtain w1 ch cs1 where w1: "TcpConnection_handleClose (TcpServer_env env) c =
       bindR (conn_callback (TcpServer_env env) CloseCallback (c\<lparr>cn_state := Disconnected, cn_pw := w1\<rparr>))
         (conn_callback (TcpServer_env env) RmConnCallback)"
    "poller_rep w1 cs1" "pw_store w1 (cn_chan c) = Some ch" "0 \<le> ch_idxPoll ch" "ch_fd ch \<notin> dom (pw_map w1)"
    using handleClose_channel [OF opened, of "TcpServer_env env"] by blast
  let ?c1 = "c\<lparr>cn_state := Disconnected, cn_pw := w1\<rparr>"
  have same: "pw_sameThread w1" using w1(2) by (simp add: poller_rep_def)
  have first: "TcpConnection_handleClose (TcpServer_env env) c = Inr ?c1"
    using w1(1,3) refs by (simp add: conn_callback_def conn_channel_def TcpConnection_release_def)
  have "TcpConnection_close (TcpServer_env env) True ?c1 = Inl (AssertFail ''channels_.find(fd) != end'')"
    using same w1(3-5)
    by (simp add: TcpConnection_close_def TcpConnection_closeTask_def TcpConnection_handleClose_def conn_channel_op_def
        EventLoop_assertTheSameThread_def Channel_disableEvents_def Channel_setMask_def Channel_update_def
        EventLoop_updateChannel_def PollPoller_updateChannel_def domIff)
  then show ?thesis using first by auto
qed

text \<open>
  \<^verbatim>\<open>send\<close> and \<^verbatim>\<open>shutdown\<close> of another thread queue a task with a raw \<^verbatim>\<open>this\<close>: when the connection is
  closed and removed before the task runs, the task works on freed memory.
\<close>

lemma queued_send_dangles:
  assumes opened: "conn_open c" and state: "cn_state c = Connected" "cn_refs c = 1" "cn_queued c = []"
  shows "\<exists>c1 c2 c3. TcpConnection_send env False msg c = Inr c1 \<and>
     TcpConnection_handleClose (TcpServer_env env) c1 = Inr c2 \<and>
     TcpConnection_release (c2\<lparr>cn_refs := cn_refs c2 - 1\<rparr>) = Inr c3 \<and>
     TcpConnection_runTask env c3 = Inl (Undefined ''channel_'')"
proof -
  let ?c1 = "c\<lparr>cn_queued := [SendTask msg]\<rparr>"
  have open1: "conn_open ?c1" using opened by (simp add: conn_open_def conn_channel_def conn_mask_def)
  obtain w1 where w1: "TcpConnection_handleClose (TcpServer_env env) ?c1 = Inr (?c1\<lparr>cn_state := Disconnected, cn_pw := w1\<rparr>)"
    "others_kept (cn_chan c) (cn_pw c) w1"
    using echo.server_handleClose [OF open1, of env] state(2) by auto
  have "pw_sameThread w1" using w1(2) by (auto simp: others_kept_def poller_rep_def)
  then show ?thesis
    using w1(1) state
    by (simp add: TcpConnection_send_def TcpConnection_release_def TcpConnection_runTask_def TcpConnection_sendTask_def
        EventLoop_assertTheSameThread_def conn_channel_def)
qed

section \<open>Properties\<close>

text \<open>C8. The connections of one loop stay well typed: from a typed loop, any sequence of accepts,
  arrivals, writability and error reports, sends, shutdowns, closes, hang-ups and removals succeeds
  without an assertion or an access to a destroyed object, whatever the kernel's writes return, and
  in the end each connected or closing connection is open on the shared poller with the interest
  its buffer calls for, each disconnected one is out of it with its channel still alive, and none is
  still connecting; provided each event is possible when its turn comes (\<open>conn_event_ok\<close>): an accepted
  descriptor and its objects are new, bytes, ends of input and hang-ups are reported for open
  connections, nothing is asked of a connection that is destroyed, closes and queued sends find
  their connection not yet closed, and only closed connections are destroyed. (Without that:
  \<open>close_closed_aborts\<close>, \<open>queued_send_dangles\<close>.)\<close>

theorem loop_conns_typed:
  assumes "kl_typed k" and "\<forall>d. env_ok (env d)" and "conn_events_ok (\<lambda>d. TcpServer_env (env d)) evs k"
  shows "\<exists>k1. conn_loop_run (\<lambda>d. TcpServer_env (env d)) evs k = Inr k1 \<and> kl_typed k1"
  using echo.conn_loop_run_typed [OF assms(2,1,3)] by (simp add: all_accepted_any)

text \<open>A loop with two connections.\<close>

definition sample_conn_channel :: "int \<Rightarrow> nat \<Rightarrow> io_handler channel" where
  "sample_conn_channel fd d = \<lparr>ch_fd = fd, ch_events = kReadPollEvent, ch_revents = 1, ch_idxPoll = int d,
     ch_readCb = Some (OfConn d HandleRead), ch_writeCb = Some (OfConn d HandleWrite),
     ch_closeCb = Some (OfConn d HandleClose), ch_errorCb = Some (OfConn d HandleError)\<rparr>"

definition sample_loop :: conn_loop where
  "sample_loop = \<lparr>kl_pw = \<lparr>pw_store = [0 \<mapsto> sample_conn_channel 7 0, 1 \<mapsto> sample_conn_channel 8 1], pw_map = [7 \<mapsto> 0, 8 \<mapsto> 1],
       pw_fds = [\<lparr>pf_fd = 7, pf_events = ucast kReadPollEvent, pf_revents = 0\<rparr>,
                 \<lparr>pf_fd = 8, pf_events = ucast kReadPollEvent, pf_revents = 0\<rparr>], pw_sameThread = True\<rparr>,
     kl_conns = [0 \<mapsto> sample_conn (Buffer_new 8), 1 \<mapsto> (sample_conn (Buffer_new 8))\<lparr>cn_chan := 1\<rparr>]\<rparr>"

lemma sample_loop_rep: "poller_rep (kl_pw sample_loop) [0, 1]"
  by (simp add: sample_loop_def sample_conn_channel_def poller_rep_def slot_ok_def mask_facts nth_Cons' less_Suc_eq)

lemma sample_loop_typed: "kl_typed sample_loop"
proof -
  have "conn_typed (kl_pw sample_loop) d c" if "kl_conns sample_loop d = Some c" for d c
  proof -
    have c: "d = 0 \<and> c = sample_conn (Buffer_new 8) \<or> d = 1 \<and> c = (sample_conn (Buffer_new 8))\<lparr>cn_chan := 1\<rparr>"
      using that by (auto simp: sample_loop_def split: if_splits)
    have "slots_live (kl_pw sample_loop)" "conn_channel (c\<lparr>cn_pw := kl_pw sample_loop\<rparr>) = Some (sample_conn_channel (7 + int d) d)"
      using c by (auto simp: sample_loop_def slots_live_def conn_channel_def sample_conn_def)
    then have "conn_open (c\<lparr>cn_pw := kl_pw sample_loop\<rparr>)"
      using c sample_loop_rep by (intro conn_openI [where cs = "[0, 1]"]) (auto simp: sample_conn_def sample_conn_channel_def conn_mask_def)
    then show ?thesis using c by (auto simp: conn_typed_def sample_conn_def)
  qed
  moreover have "slots_live (kl_pw sample_loop)" by (auto simp: sample_loop_def slots_live_def)
  ultimately show ?thesis using sample_loop_rep by (auto simp: kl_typed_def)
qed


lemmas sample_eval = on_conn_def TcpConnection_handleRead_def EventLoop_assertTheSameThread_def
    conn_channel_def quiet_env_def Buffer_readFrom_def Buffer_makeSpace_def vec_append_def Buffer_readable_def
    Buffer_retrieve_def Buffer_retrieve_all_def Buffer_peek_def Slice_toString_def
    TcpServer_defaultMsgCallback_def conn_callback_def TcpConnection_release_def TcpConnection_send_def
    TcpConnection_sendTask_def conn_write_def Channel_isWriting_def event_defs size_max1_def Buffer_new_def kInitLen_def
    nul_def Let_def



definition sample_env :: conn_env where
  "sample_env = quiet_env (\<lambda>k n. int n)"

definition sample_events :: "conn_event list" where
  "sample_events = [Arrive 0 ''hi'', PeerClosed 1, SendTo 0 ''!'', Removed 1]"

lemma sample_env_ok: "env_ok sample_env"
  unfolding sample_env_def by (rule quiet_env_ok) simp

lemma sample_events_ok: "conn_events_ok (\<lambda>d. TcpServer_env sample_env) sample_events sample_loop"
proof -
  let ?step = "conn_loop_step (\<lambda>d. TcpServer_env sample_env)"
  have env: "\<forall>d. env_ok ((\<lambda>_. sample_env) d)" using sample_env_ok by simp
  have c: "kl_conns sample_loop 0 = Some (sample_conn (Buffer_new 8))"
    "kl_conns sample_loop 1 = Some ((sample_conn (Buffer_new 8))\<lparr>cn_chan := 1\<rparr>)"
    by (simp_all add: sample_loop_def)
  have first: "conn_event_ok (Arrive 0 ''hi'') sample_loop" using c(1) by (simp add: sample_conn_def)
  have rest: "conn_events_ok (\<lambda>d. TcpServer_env sample_env) [PeerClosed 1, SendTo 0 ''!'', Removed 1] k1"
    if k1: "?step (Arrive 0 ''hi'') sample_loop = Inr k1" for k1
  proof -
    have k1_1: "kl_conns k1 1 = Some ((sample_conn (Buffer_new 8))\<lparr>cn_chan := 1\<rparr>)"
      using step_other [OF k1, of 1] c(2) by simp
    have k1_0: "kl_conns k1 0 \<noteq> None" using step_exists [OF k1, of 0] c(1) by simp
    have typed1: "kl_typed k1"
      using echo.conn_loop_step_typed [OF sample_loop_typed first _ env] k1 by (auto simp: accepted_def split: option.splits simp del: conn_loop_step.simps)
    have "kl_conns k2 0 \<noteq> None \<and> conn_event_ok (Removed 1) k3"
      if k2: "?step (PeerClosed 1) k1 = Inr k2" and k3: "?step (SendTo 0 ''!'') k2 = Inr k3" for k2 k3
    proof -
      obtain c1 where "kl_conns k2 1 = Some c1" "cn_state c1 = Disconnected"
        using echo.peer_closed_step [OF typed1 env k1_1 _ k2] by (auto simp: sample_conn_def)
      then show ?thesis using step_other [OF k3, of 1] step_exists [OF k2, of 0] k1_0 by simp
    qed
    moreover have "kl_conns k2 0 \<noteq> None" if "?step (PeerClosed 1) k1 = Inr k2" for k2
      using step_exists [OF that, of 0] k1_0 by simp
    ultimately show ?thesis
      using k1_1 by (auto simp: sample_conn_def split: sum.split simp del: conn_loop_step.simps)
  qed
  show ?thesis
    using first rest by (simp add: sample_events_def split: sum.split del: conn_loop_step.simps)
qed

lemma loop_conns_typed_witness:
  "\<exists>k1. conn_loop_run (\<lambda>d. TcpServer_env sample_env) sample_events sample_loop = Inr k1 \<and> kl_typed k1"
  using loop_conns_typed [OF sample_loop_typed, of "\<lambda>_. sample_env"] sample_events_ok sample_env_ok by blast

end
