(* ===== verification/Lotta_Connection_Frames.thy ===== *)
theory Lotta_Connection_Frames
  imports Lotta_Loop_Connections
begin

text \<open>
  What the operations of a connection leave alone: the reports and callbacks of every channel of
  the loop, the other channels' registrations, and the references to the connection. On this
  rests that the channels of a loop stay bound to their owners (\<open>kl_wired\<close>).
\<close>

section \<open>What the operations of a connection leave alone\<close>

definition conn_frame :: "tcp_conn \<Rightarrow> tcp_conn \<Rightarrow> bool" where
  "conn_frame c c1 \<longleftrightarrow> channel_frame (cn_chan c) (cn_pw c) (cn_pw c1) \<and> cn_refs c1 = cn_refs c \<and> cn_chan c1 = cn_chan c"

lemma conn_frame_refl [simp]: "conn_frame c c"
  by (simp add: conn_frame_def)

lemma conn_frame_trans: "conn_frame c c1 \<Longrightarrow> conn_frame c1 c2 \<Longrightarrow> conn_frame c c2"
  by (auto simp: conn_frame_def intro: channel_frame_trans)

lemma conn_frame_fields [simp]:
  "conn_frame (c\<lparr>cn_state := st\<rparr>) c1 \<longleftrightarrow> conn_frame c c1" "conn_frame c (c1\<lparr>cn_state := st\<rparr>) \<longleftrightarrow> conn_frame c c1"
  "conn_frame (c\<lparr>cn_in := b\<rparr>) c1 \<longleftrightarrow> conn_frame c c1" "conn_frame (c\<lparr>cn_out := b\<rparr>) c1 \<longleftrightarrow> conn_frame c c1"
  "conn_frame c (c1\<lparr>cn_in := b\<rparr>) \<longleftrightarrow> conn_frame c c1" "conn_frame c (c1\<lparr>cn_out := b\<rparr>) \<longleftrightarrow> conn_frame c c1"
  "conn_frame c (c1\<lparr>cn_fin := f\<rparr>) \<longleftrightarrow> conn_frame c c1" "conn_frame c (c1\<lparr>cn_socket := f\<rparr>) \<longleftrightarrow> conn_frame c c1"
  "conn_frame c (snd (conn_write env bs c1)) \<longleftrightarrow> conn_frame c c1"
  by (simp_all add: conn_frame_def conn_write_def Let_def)

text \<open>A result that is a fault or leaves the frame of \<open>c\<close> alone; the rules follow the code.\<close>

definition frames :: "tcp_conn \<Rightarrow> tcp_conn res \<Rightarrow> bool" where
  "frames c r \<longleftrightarrow> (\<forall>c1. r = Inr c1 \<longrightarrow> conn_frame c c1)"

named_theorems frame_intros \<open>frames of the operations of a connection\<close>

lemma frames_simps [frame_intros]:
  "conn_frame c c1 \<Longrightarrow> frames c (Inr c1)"
  "frames c (Inl e)"
  "frames c r \<Longrightarrow> frames c (assertR b msg r)"
  "frames c r \<Longrightarrow> frames c (EventLoop_assertTheSameThread w r)"
  "(\<And>x. frames c (f x)) \<Longrightarrow> frames c (derefR p msg f)"
  "(b \<Longrightarrow> frames c r1) \<Longrightarrow> (\<not> b \<Longrightarrow> frames c r2) \<Longrightarrow> frames c (if b then r1 else r2)"
  by (auto simp: frames_def res_iffs EventLoop_assertTheSameThread_def)

lemma frames_bind: "(\<And>x. frames c (k x)) \<Longrightarrow> frames c (bindR m k)"
  by (auto simp: frames_def res_iffs)

lemma frames_seq: "frames c m \<Longrightarrow> (\<And>c1. conn_frame c c1 \<Longrightarrow> frames c (k c1)) \<Longrightarrow> frames c (bindR m k)"
  by (auto simp: frames_def res_iffs)

lemma frames_step: "conn_frame c c0 \<Longrightarrow> frames c0 r \<Longrightarrow> frames c r"
  by (auto simp: frames_def intro: conn_frame_trans)

lemma frames_channel_op:
  assumes "\<And>w w1. f w (cn_chan c) = Inr w1 \<Longrightarrow> channel_frame (cn_chan c) w w1"
  shows "frames c (conn_channel_op f c)"
  using assms by (auto simp: frames_def conn_channel_op_def res_iffs conn_frame_def)

lemma frames_channel_ops [frame_intros]:
  "conn_frame c c0 \<Longrightarrow> frames c (conn_channel_op Channel_disableEvents c0)"
  "conn_frame c c0 \<Longrightarrow> frames c (conn_channel_op Channel_remove c0)"
  "conn_frame c c0 \<Longrightarrow> frames c (conn_channel_op Channel_enableReading c0)"
  "conn_frame c c0 \<Longrightarrow> frames c (conn_channel_op Channel_enableWriting c0)"
  "conn_frame c c0 \<Longrightarrow> frames c (conn_channel_op Channel_disableWriting c0)"
  by (erule frames_step, rule frames_channel_op, erule channel_op_frames)+

lemma frames_callback [frame_intros]:
  assumes "conn_frame c c0" and "0 < cn_refs c" and user: "frames c0 (env_user env cb c0)"
  shows "frames c (conn_callback env cb c0)"
proof (rule frames_step [OF assms(1)], unfold frames_def, intro allI impI)
  fix c1 assume "conn_callback env cb c0 = Inr c1"
  then obtain c2 where c2: "env_user env cb c0 = Inr c2" "TcpConnection_release c2 = Inr c1"
    by (auto simp: conn_callback_def res_iffs)
  have frame: "conn_frame c0 c2" using user c2(1) by (simp add: frames_def)
  then have "c1 = c2" using c2(2) assms(1,2) by (simp add: conn_frame_def TcpConnection_release_def)
  with frame show "conn_frame c0 c1" by simp
qed

text \<open>A channel operation or a callback is followed by code that acts on its result, an operation of a
  buffer by code that acts on the connection as it was.\<close>

lemmas frames_then = frames_seq [where m = "conn_channel_op f x" for f x] frames_seq [where m = "conn_callback e cb x" for e cb x]

lemma frames_shutdownTask [frame_intros]: "conn_frame c c0 \<Longrightarrow> frames c (TcpConnection_shutdownTask c0)"
  unfolding TcpConnection_shutdownTask_def by (intro frame_intros) simp

lemma frames_sendTask [frame_intros]: "conn_frame c c0 \<Longrightarrow> frames c (TcpConnection_sendTask env msg c0)"
  unfolding TcpConnection_sendTask_def Let_def case_prod_unfold
  by (intro frame_intros frames_bind) simp_all

lemma frames_send [frame_intros]: "conn_frame c c0 \<Longrightarrow> frames c (TcpConnection_send env True msg c0)"
  unfolding TcpConnection_send_def by (auto intro: frame_intros)

lemma frames_handleWrite [frame_intros]: "conn_frame c c0 \<Longrightarrow> frames c (TcpConnection_handleWrite env c0)"
  unfolding TcpConnection_handleWrite_def Let_def case_prod_unfold
  by (rule frame_intros frames_then frames_bind | assumption | simp)+

lemma frames_handleError [frame_intros]: "conn_frame c c0 \<Longrightarrow> frames c (TcpConnection_handleError c0)"
  unfolding TcpConnection_handleError_def by (intro frame_intros)

lemma frames_message [frame_intros]: "conn_frame c c0 \<Longrightarrow> frames c (TcpServer_defaultMsgCallback env c0)"
  unfolding TcpServer_defaultMsgCallback_def case_prod_unfold by (intro frame_intros frames_bind) simp

lemma frames_shutdown [frame_intros]: "conn_frame c c0 \<Longrightarrow> frames c (TcpConnection_shutdown True c0)"
  unfolding TcpConnection_shutdown_def Let_def by (auto intro!: frame_intros)

text \<open>An application whose message callback keeps the frame too.\<close>

locale io_app = conn_app +
  assumes app_frames: "0 < cn_refs c \<Longrightarrow> frames c (env_user (app env) MsgCallback c)"
begin

lemma frames_handleClose [frame_intros]:
  assumes "conn_frame c c0" "0 < cn_refs c"
  shows "frames c (TcpConnection_handleClose (app env) c0)"
  using assms unfolding TcpConnection_handleClose_def
  by (auto intro!: frame_intros frames_then simp: app_silent)

lemma frames_handleRead [frame_intros]:
  assumes "conn_frame c c0" "0 < cn_refs c"
  shows "frames c (TcpConnection_handleRead (app env) n rd c0)"
proof -
  have "frames c1 (env_user (app env) MsgCallback c1)" if "conn_frame c c1" for c1
    using that assms(2) by (intro app_frames) (simp add: conn_frame_def)
  then show ?thesis
    using assms unfolding TcpConnection_handleRead_def Let_def case_prod_unfold
    by (auto intro!: frame_intros frames_bind)
qed

lemma frames_close:
  assumes refs: "0 < cn_refs c"
  shows "frames c (TcpConnection_close (app env) True c)"
  unfolding frames_def
proof (intro allI impI)
  fix c1 assume run: "TcpConnection_close (app env) True c = Inr c1"
  let ?c = "c\<lparr>cn_state := Disconnecting, cn_refs := Suc (cn_refs c)\<rparr>"
  obtain x where x: "TcpConnection_handleClose (app env) ?c = Inr x"
    "TcpConnection_release (x\<lparr>cn_socket := False, cn_refs := cn_refs x - 1\<rparr>) = Inr c1"
    using run by (auto simp: TcpConnection_close_def TcpConnection_closeTask_def res_iffs)
  have "frames ?c (TcpConnection_handleClose (app env) ?c)" by (rule frames_handleClose) simp_all
  then have frame: "channel_frame (cn_chan c) (cn_pw c) (cn_pw x)" "cn_refs x = Suc (cn_refs c)" "cn_chan x = cn_chan c"
    using x(1) by (simp_all add: frames_def conn_frame_def)
  then have "c1 = x\<lparr>cn_socket := False, cn_refs := cn_refs c\<rparr>"
    using x(2) refs by (simp add: TcpConnection_release_def)
  then show "conn_frame c c1" using frame by (simp add: conn_frame_def)
qed

lemma frames_connEstablished:
  assumes "0 < cn_refs c"
  shows "frames c (TcpConnection_connEstablished (app env) c)"
  unfolding TcpConnection_connEstablished_def
  by (intro frame_intros frames_then) (use assms in \<open>simp_all add: frame_intros app_silent\<close>)

end

section \<open>Who is registered on the loop\<close>

text \<open>The four callbacks of a connection's channel are bound to it; the loop's own channels only read.\<close>

definition conn_bound :: "nat \<Rightarrow> io_handler channel \<Rightarrow> bool" where
  "conn_bound d ch \<longleftrightarrow> ch_closeCb ch = Some (OfConn d HandleClose) \<and> ch_errorCb ch = Some (OfConn d HandleError) \<and>
     ch_readCb ch = Some (OfConn d HandleRead) \<and> ch_writeCb ch = Some (OfConn d HandleWrite)"

definition loop_bound :: "io_handler channel \<Rightarrow> bool" where
  "loop_bound ch \<longleftrightarrow> ch_closeCb ch = None \<and> ch_errorCb ch = None \<and> ch_writeCb ch = None \<and>
     (\<exists>h. ch_readCb ch = Some (OfLoop h))"

definition kl_wired :: "conn_loop \<Rightarrow> bool" where
  "kl_wired k \<longleftrightarrow>
     (\<forall>d. kl_conns k d \<noteq> None \<longrightarrow> (\<exists>ch. pw_store (kl_pw k) d = Some ch \<and> conn_bound d ch)) \<and>
     (\<forall>d \<in> ran (pw_map (kl_pw k)). kl_conns k d \<noteq> None \<or> (\<exists>ch. pw_store (kl_pw k) d = Some ch \<and> loop_bound ch))"

lemma bound_view:
  "ch_view ch1 = ch_view ch \<Longrightarrow> conn_bound d ch1 = conn_bound d ch" "ch_view ch1 = ch_view ch \<Longrightarrow> loop_bound ch1 = loop_bound ch"
  by (simp_all add: ch_view_def conn_bound_def loop_bound_def)

lemma same_views_store:
  assumes "same_views w w1" "pw_store w d = Some ch"
  obtains ch1 where "pw_store w1 d = Some ch1" "ch_view ch1 = ch_view ch"
proof -
  have "map_option ch_view (pw_store w1 d) = Some (ch_view ch)" using assms by (simp add: same_views_def)
  then show ?thesis using that by auto
qed

lemma same_views_bound:
  assumes views: "same_views w w1" and ch: "pw_store w d = Some ch"
  shows "conn_bound e ch \<Longrightarrow> \<exists>ch1. pw_store w1 d = Some ch1 \<and> conn_bound e ch1"
    and "loop_bound ch \<Longrightarrow> \<exists>ch1. pw_store w1 d = Some ch1 \<and> loop_bound ch1"
proof -
  obtain ch1 where ch1: "pw_store w1 d = Some ch1" "ch_view ch1 = ch_view ch" by (rule same_views_store [OF views ch])
  show "conn_bound e ch \<Longrightarrow> \<exists>ch1. pw_store w1 d = Some ch1 \<and> conn_bound e ch1" using ch1 bound_view(1) [OF ch1(2)] by auto
  show "loop_bound ch \<Longrightarrow> \<exists>ch1. pw_store w1 d = Some ch1 \<and> loop_bound ch1" using ch1 bound_view(2) [OF ch1(2)] by auto
qed

text \<open>An operation on one connection keeps the wiring when it keeps the frame.\<close>

lemma wired_frame:
  assumes k: "kl_wired k" and views: "same_views (kl_pw k) (kl_pw k1)" and conns: "dom (kl_conns k1) = dom (kl_conns k)"
    and ran: "ran (pw_map (kl_pw k1)) \<subseteq> ran (pw_map (kl_pw k)) \<union> dom (kl_conns k)"
  shows "kl_wired k1"
proof -
  have "\<exists>ch. pw_store (kl_pw k1) d = Some ch \<and> conn_bound d ch" if d: "kl_conns k d \<noteq> None" for d
  proof -
    obtain ch where ch: "pw_store (kl_pw k) d = Some ch" "conn_bound d ch"
      using k d unfolding kl_wired_def by blast
    show ?thesis by (rule same_views_bound(1) [OF views ch])
  qed
  moreover have "kl_conns k d \<noteq> None \<or> (\<exists>ch. pw_store (kl_pw k1) d = Some ch \<and> loop_bound ch)"
    if "d \<in> ran (pw_map (kl_pw k1))" for d
  proof (cases "kl_conns k d")
    case None
    then have "d \<in> ran (pw_map (kl_pw k))" using ran that by auto
    then obtain ch where ch: "pw_store (kl_pw k) d = Some ch" "loop_bound ch"
      using k None by (auto simp: kl_wired_def)
    show ?thesis using same_views_bound(2) [OF views ch] by simp
  qed simp
  moreover have "kl_conns k1 d \<noteq> None \<longleftrightarrow> kl_conns k d \<noteq> None" for d using conns by blast
  ultimately show ?thesis unfolding kl_wired_def by blast
qed

section \<open>The loop's connections and what they leave alone\<close>

definition kl_owned :: "conn_loop \<Rightarrow> bool" where
  "kl_owned k \<longleftrightarrow> (\<forall>d c. kl_conns k d = Some c \<longrightarrow> cn_refs c = 1 \<and> cn_chan c = d)"

lemma kl_typed_owned: "kl_typed k \<Longrightarrow> kl_owned k"
  using conn_typed_state by (fastforce simp: kl_typed_def kl_owned_def)

lemma on_conn_frame:
  assumes run: "on_conn d f k = Inr k1" and owned: "kl_owned k"
    and f: "\<And>c. 0 < cn_refs c \<Longrightarrow> frames c (f c)"
  shows "channel_frame d (kl_pw k) (kl_pw k1) \<and> dom (kl_conns k1) = dom (kl_conns k) \<and> kl_owned k1"
proof -
  obtain c c1 where c: "kl_conns k d = Some c" "f (c\<lparr>cn_pw := kl_pw k\<rparr>) = Inr c1"
    "k1 = k\<lparr>kl_pw := cn_pw c1, kl_conns := (kl_conns k)(d \<mapsto> c1)\<rparr>"
    using run by (auto simp: on_conn_def res_iffs)
  have own: "cn_refs c = 1" "cn_chan c = d" using owned c(1) by (simp_all add: kl_owned_def)
  then have "conn_frame (c\<lparr>cn_pw := kl_pw k\<rparr>) c1" using f [of "c\<lparr>cn_pw := kl_pw k\<rparr>"] c(2) by (simp add: frames_def)
  then have "channel_frame d (kl_pw k) (cn_pw c1)" "cn_refs c1 = 1" "cn_chan c1 = d" using own by (simp_all add: conn_frame_def)
  then show ?thesis using c(1,3) owned by (auto simp: kl_owned_def)
qed

text \<open>Every event but an accept and a removal is an operation on one connection.\<close>

context io_app
begin

text \<open>Every event but an accept and a removal is an operation on one connection.\<close>

lemma step_frame:
  assumes run: "conn_loop_step (\<lambda>d. app (env d)) ev k = Inr k1" and owned: "kl_owned k"
    and ev: "\<And>d fd name. ev \<noteq> Accept d fd name" "\<And>d. ev \<noteq> Removed d"
  shows "channel_frame (event_of ev) (kl_pw k) (kl_pw k1) \<and> dom (kl_conns k1) = dom (kl_conns k) \<and> kl_owned k1"
proof -
  note on = on_conn_frame [OF _ owned]
  have self: "conn_frame c c" for c by simp
  show ?thesis
    by (cases ev) (use run ev in \<open>auto elim!: on intro: frame_intros frames_close self\<close>)
qed

lemma accept_wired:
  assumes k: "kl_wired k" and ok: "conn_event_ok (Accept d fd name) k"
    and run: "conn_loop_step (\<lambda>d. app (env d)) (Accept d fd name) k = Inr k1"
  shows "kl_wired k1"
proof -
  let ?c = "TcpConnection_new (kl_pw k) d name fd"
  obtain c1 where c1: "TcpConnection_connEstablished (app (env d)) ?c = Inr c1"
    "k1 = k\<lparr>kl_pw := cn_pw c1, kl_conns := (kl_conns k)(d \<mapsto> c1)\<rparr>"
    using run by (auto simp: res_iffs)
  have new: "cn_refs ?c = 1" "cn_chan ?c = d" "pw_map (cn_pw ?c) = pw_map (kl_pw k)"
    by (simp_all add: TcpConnection_new_def)
  obtain ch where ch: "cn_pw ?c = (kl_pw k)\<lparr>pw_store := (pw_store (kl_pw k))(d \<mapsto> ch)\<rparr>" "conn_bound d ch"
    by (rule that [of "Channel_setErrorCallback (OfConn d HandleError) (Channel_setCloseCallback (OfConn d HandleClose)
          (Channel_setWriteCallback (OfConn d HandleWrite) (Channel_setReadCallback (OfConn d HandleRead) (Channel_new fd))))"])
      (simp_all add: TcpConnection_new_def conn_bound_def Channel_setReadCallback_def
        Channel_setWriteCallback_def Channel_setCloseCallback_def Channel_setErrorCallback_def)
  let ?k0 = "k\<lparr>kl_pw := cn_pw ?c, kl_conns := (kl_conns k)(d \<mapsto> ?c)\<rparr>"
  have "kl_wired ?k0" using k ch by (simp add: kl_wired_def)
  moreover have "channel_frame d (cn_pw ?c) (cn_pw c1)"
    using frames_connEstablished [of ?c "env d"] c1(1) new(1,2) by (simp add: frames_def conn_frame_def)
  ultimately show ?thesis
    by (rule_tac wired_frame [of ?k0]) (use c1(2) in \<open>auto simp: channel_frame_def\<close>)
qed

lemma step_wired:
  assumes k: "kl_typed k" "kl_wired k" and ok: "conn_event_ok ev k"
    and run: "conn_loop_step (\<lambda>d. app (env d)) ev k = Inr k1"
  shows "kl_wired k1"
proof (cases "(\<exists>d fd name. ev = Accept d fd name) \<or> (\<exists>d. ev = Removed d)")
  case True
  then consider (accept) d fd name where "ev = Accept d fd name" | (removed) d where "ev = Removed d" by blast
  then show ?thesis
  proof cases
    case accept
    then show ?thesis using accept_wired [OF k(2)] ok run by blast
  next
    case removed
    then obtain c where c: "kl_conns k d = Some c" "cn_state c = Disconnected" using ok by (auto split: option.splits)
    have typed: "cn_chan c = d" "cn_refs c = 1" "d \<notin> ran (pw_map (kl_pw k))"
      using conn_typed_state [OF kl_typed_conn [OF k(1) c(1)]] c(2) by simp_all
    then have "k1 = k\<lparr>kl_pw := (kl_pw k)\<lparr>pw_store := (pw_store (kl_pw k))(d := None)\<rparr>, kl_conns := (kl_conns k)(d := None)\<rparr>"
      using run c removed by (simp add: drop_conn_def TcpConnection_release_def)
    then show ?thesis using k(2) typed(3) by (auto simp: kl_wired_def)
  qed
next
  case False
  have frame: "channel_frame (event_of ev) (kl_pw k) (kl_pw k1)" "dom (kl_conns k1) = dom (kl_conns k)"
    using step_frame [OF run kl_typed_owned [OF k(1)]] False by auto
  have "event_of ev \<in> dom (kl_conns k)" using ok False by (cases ev) (auto split: option.splits)
  then show ?thesis using frame wired_frame [OF k(2)] by (auto simp: channel_frame_def)
qed

end

end
