(* ===== verification/Lotta_Io_Loop.thy ===== *)
theory Lotta_Io_Loop
  imports Lotta_Reactor Lotta_Connection_Frames
begin

text \<open>
  An I/O loop of a \<^verbatim>\<open>TcpServer\<close> with threads, put together: \<^verbatim>\<open>EventLoop::loop\<close> with its poller, wakeup
  channel and function queue (\<^verbatim>\<open>src/event_loop.cc\<close>) drives the \<^verbatim>\<open>TcpConnection\<close>s the server has
  given to it. The reports of \<^verbatim>\<open>poll\<close> reach the handlers bound in the constructor of a connection
  through \<^verbatim>\<open>Channel::handleEvent\<close>; the queue holds what other threads have put on the loop; and the
  server's own thread destroys connections that were closed, while the loop runs. What holds of
  any application (\<open>io_app\<close>) is proved here once.
\<close>

section \<open>The loop with its connections\<close>

text \<open>
  The functions other threads put on the loop: \<^verbatim>\<open>connEstablished\<close> of a new connection, the task of a
  \<^verbatim>\<open>send\<close>, and functions of the program that send, shut down or close. The removal task is not
  among them: \<^verbatim>\<open>TcpServer::removeConn\<close> puts it on the server's loop, which runs in another thread.
\<close>

datatype io_task =
    Establish nat int string
  | QueuedSend nat string
  | CallSend nat string
  | CallShutdown nat
  | CallClose nat

fun task_event :: "io_task \<Rightarrow> conn_event" where
  "task_event (Establish d fd name) = Accept d fd name"
| "task_event (QueuedSend d msg) = SendQueued d msg"
| "task_event (CallSend d msg) = SendTo d msg"
| "task_event (CallShutdown d) = ShutdownOf d"
| "task_event (CallClose d) = CloseOf d"

text \<open>
  \<open>io_conns\<close> holds the connections of the loop by the identity of their channel, \<open>io_reads\<close> counts
  the reads of each, \<open>io_ticks\<close> the callbacks and functions the loop has run.
\<close>

record io_loop = "(unit, io_handler, io_task) reactor" +
  io_conns :: "nat \<rightharpoonup> tcp_conn"
  io_reads :: "nat \<Rightarrow> nat"
  io_ticks :: nat

text \<open>
  What surrounds the loop: for each connection its callbacks and the results of its writes; for
  each read what \<^verbatim>\<open>FIONREAD\<close> announces and what \<^verbatim>\<open>read\<close> returns, \<open>None\<close> for a failure; the connections
  the server's thread destroys after the \<open>n\<close>-th callback or function the loop runs and before the
  next one; and the clock.
\<close>

record io_world =
  iw_conn :: "nat \<Rightarrow> conn_env"
  iw_read :: "nat \<Rightarrow> nat \<Rightarrow> nat \<times> string option"
  iw_remove :: "nat \<Rightarrow> nat list"
  iw_clock :: "nat \<Rightarrow> int"

definition io_view :: "io_loop \<Rightarrow> conn_loop" where
  "io_view s = \<lparr>kl_pw = rc_pw s, kl_conns = io_conns s\<rparr>"

definition io_on :: "(conn_loop \<Rightarrow> conn_loop res) \<Rightarrow> io_loop \<Rightarrow> io_loop res" where
  "io_on g s = bindR (g (io_view s)) (\<lambda>k. Inr (s\<lparr>rc_pw := kl_pw k, io_conns := kl_conns k\<rparr>))"

text \<open>A handler as the constructors bind it.\<close>

fun io_handle :: "io_world \<Rightarrow> io_handler \<Rightarrow> io_loop \<Rightarrow> io_loop res" where
  "io_handle W (OfLoop HandleWakeup) s = Inr (rc_loop EventLoop_handleWakeup s)"
| "io_handle W (OfLoop HandleTimer) s = TimerQueue_handleTimer (iw_clock W) (\<lambda>_ s. Inr s) True s"
| "io_handle W (OfConn d HandleRead) s = (let (n, rd) = iw_read W d (io_reads s d) in
     io_on (on_conn d (conn_run_handler (iw_conn W d) n rd HandleRead))
       (s\<lparr>io_reads := (io_reads s)(d := Suc (io_reads s d))\<rparr>))"
| "io_handle W (OfConn d h) s = io_on (on_conn d (conn_run_handler (iw_conn W d) 0 None h)) s"

text \<open>The removal tasks that the server's thread runs meanwhile: the last reference to each of these
  connections goes, and with it its channel object, wherever the loop is.\<close>

fun drop_conns :: "nat list \<Rightarrow> conn_loop \<Rightarrow> conn_loop res" where
  "drop_conns [] k = Inr k"
| "drop_conns (d # ds) k = bindR (drop_conn d k) (drop_conns ds)"

definition server_removals :: "io_world \<Rightarrow> io_loop \<Rightarrow> io_loop res" where
  "server_removals W s = io_on (drop_conns (iw_remove W (io_ticks s))) (s\<lparr>io_ticks := Suc (io_ticks s)\<rparr>)"

definition io_run :: "io_world \<Rightarrow> io_handler \<Rightarrow> io_loop \<Rightarrow> io_loop res" where
  "io_run W h s = bindR (io_handle W h s) (server_removals W)"

definition io_call :: "io_world \<Rightarrow> io_task \<Rightarrow> io_loop \<Rightarrow> io_loop res" where
  "io_call W t s = bindR (io_on (conn_loop_step (iw_conn W) (task_event t)) s) (server_removals W)"

text \<open>What the handlers, the functions and the removals come to as events of the connections, when a
  read delivers what was announced.\<close>

definition read_whole :: "nat \<times> string option \<Rightarrow> bool" where
  "read_whole r \<longleftrightarrow> (case snd r of None \<Rightarrow> False | Some bs \<Rightarrow> length bs = fst r)"

definition read_event :: "nat \<Rightarrow> nat \<times> string option \<Rightarrow> conn_event" where
  "read_event d r = (case snd r of None \<Rightarrow> PeerClosed d | Some bs \<Rightarrow> if bs = [] then PeerClosed d else Arrive d bs)"

fun handler_events :: "io_world \<Rightarrow> (nat \<Rightarrow> nat) \<Rightarrow> io_handler \<Rightarrow> conn_event list" where
  "handler_events W n (OfConn d HandleRead) = [read_event d (iw_read W d (n d))]"
| "handler_events W n (OfConn d HandleWrite) = [Writable d]"
| "handler_events W n (OfConn d HandleClose) = [HangUp d]"
| "handler_events W n (OfConn d HandleError) = [Failed d]"
| "handler_events W n (OfLoop h) = []"

fun count_read :: "(nat \<Rightarrow> nat) \<Rightarrow> io_handler \<Rightarrow> (nat \<Rightarrow> nat)" where
  "count_read n (OfConn d HandleRead) = n(d := Suc (n d))"
| "count_read n _ = n"

fun io_events :: "io_world \<Rightarrow> (nat \<Rightarrow> nat) \<Rightarrow> nat \<Rightarrow> io_handler list \<Rightarrow> conn_event list" where
  "io_events W n t [] = []"
| "io_events W n t (h # hs) =
     handler_events W n h @ map Removed (iw_remove W t) @ io_events W (count_read n h) (Suc t) hs"

fun task_events :: "io_world \<Rightarrow> nat \<Rightarrow> io_task list \<Rightarrow> conn_event list" where
  "task_events W t [] = []"
| "task_events W t (f # fs) = task_event f # map Removed (iw_remove W t) @ task_events W (Suc t) fs"

lemma io_view_simps [simp]:
  "io_view (rc_loop g s) = io_view s" "io_view (s\<lparr>io_reads := n\<rparr>) = io_view s" "io_view (s\<lparr>io_ticks := t\<rparr>) = io_view s"
  "io_view (s\<lparr>rc_pw := w, rc_active := act\<rparr>) = (io_view s)\<lparr>kl_pw := w\<rparr>"
  "kl_pw (io_view s) = rc_pw s" "kl_conns (io_view s) = io_conns s"
  by (simp_all add: io_view_def rc_loop_def)

text \<open>The program sets no timers, and a report for the timer descriptor finds nothing to expire.\<close>

lemma idle_timer:
  assumes "tq_timers s = []"
  shows "\<exists>s1. TimerQueue_handleTimer clk (\<lambda>_ s. Inr s) True s = Inr s1 \<and> tq_timers s1 = [] \<and>
     io_view s1 = io_view s \<and> rc_el s1 = rc_el s \<and> io_reads s1 = io_reads s \<and> io_ticks s1 = io_ticks s"
  using assms
  by (simp add: TimerQueue_handleTimer_def expireTimers_def resetTimers_def lower_bound_def io_view_def Let_def)

section \<open>A round is a run of the connections' events\<close>

lemma conn_loop_run_append: "conn_loop_run env (evs @ evs1) k = bindR (conn_loop_run env evs k) (conn_loop_run env evs1)"
proof (induction evs arbitrary: k)
  case (Cons ev evs)
  then show ?case by (cases "conn_loop_step env ev k") simp_all
qed simp

lemma conn_loop_run_removed [simp]: "conn_loop_run env (map Removed ds) k = drop_conns ds k"
  by (induction ds arbitrary: k) (simp_all add: bindR_def split: sum.split)

lemma io_on_run: "g (io_view s) = Inr k \<Longrightarrow> \<exists>s1. io_on g s = Inr s1 \<and> io_view s1 = k \<and> rc_el s1 = rc_el s \<and>
    io_reads s1 = io_reads s \<and> tq_timers s1 = tq_timers s \<and> io_ticks s1 = io_ticks s"
  by (simp add: io_on_def io_view_def)

lemma server_removals_run: "drop_conns (iw_remove W (io_ticks s)) (io_view s) = Inr k \<Longrightarrow>
    \<exists>s1. server_removals W s = Inr s1 \<and> io_view s1 = k \<and> rc_el s1 = rc_el s \<and>
    io_reads s1 = io_reads s \<and> tq_timers s1 = tq_timers s \<and> io_ticks s1 = Suc (io_ticks s)"
  using io_on_run [where g = "drop_conns (iw_remove W (io_ticks s))" and s = "s\<lparr>io_ticks := Suc (io_ticks s)\<rparr>" and k = k]
  by (simp add: server_removals_def)

text \<open>The handlers are the events.\<close>

lemma handler_steps:
  "read_whole r \<Longrightarrow> on_conn d (conn_run_handler (env d) (fst r) (snd r) HandleRead) = conn_loop_step env (read_event d r)"
  "on_conn d (conn_run_handler (env d) n rd HandleWrite) = conn_loop_step env (Writable d)"
  "on_conn d (conn_run_handler (env d) n rd HandleClose) = conn_loop_step env (HangUp d)"
  "on_conn d (conn_run_handler (env d) n rd HandleError) = conn_loop_step env (Failed d)"
  by (auto simp: read_event_def read_whole_def on_conn_def fun_eq_iff split: option.splits)

text \<open>A read that fails or delivers less than was announced does not get to the end of \<^verbatim>\<open>handleRead\<close>:
  \<^verbatim>\<open>Buffer::readFrom\<close> asserts that it does not happen.\<close>

lemma short_read_aborts:
  assumes "\<not> read_whole (iw_read W d (io_reads s d))" and c: "io_conns s d = Some c" "conn_open (c\<lparr>cn_pw := rc_pw s\<rparr>)"
  shows "io_run W (OfConn d HandleRead) s = Inl (AssertFail ''ret == n'')"
proof -
  obtain n rd where r: "iw_read W d (io_reads s d) = (n, rd)" by (cases "iw_read W d (io_reads s d)")
  have "buffer_wf (cn_in c)" using c(2) by (auto simp: conn_open_def)
  then have "Buffer_readFrom (env_grow (iw_conn W d)) (cn_in c) n rd = Inl (AssertFail ''ret == n'')"
    using assms(1) by (intro Buffer_readFrom_short) (simp_all add: r read_whole_def)
  moreover have "pw_sameThread (rc_pw s)" using conn_open_thread [OF c(2)] by simp
  moreover obtain ch where "conn_channel (c\<lparr>cn_pw := rc_pw s\<rparr>) = Some ch" using c(2) by (auto simp: conn_open_def)
  ultimately show ?thesis
    using c(1) by (simp add: io_run_def r io_on_def io_view_def on_conn_def TcpConnection_handleRead_def EventLoop_assertTheSameThread_def)
qed

lemma handle_events:
  assumes none: "tq_timers s = []" and reads: "\<forall>d n. read_whole (iw_read W d n)"
    and run: "conn_loop_run (iw_conn W) (handler_events W (io_reads s) h) (io_view s) = Inr k"
  shows "\<exists>s1. io_handle W h s = Inr s1 \<and> io_view s1 = k \<and> tq_timers s1 = [] \<and> el_queue (rc_el s1) = el_queue (rc_el s) \<and>
    io_reads s1 = count_read (io_reads s) h \<and> io_ticks s1 = io_ticks s"
proof (cases h)
  case (OfLoop l)
  then show ?thesis
    using run none idle_timer [OF none, of "iw_clock W"]
    by (cases l) (auto simp: rc_loop_def EventLoop_handleWakeup_def io_view_def)
next
  case (OfConn d g)
  obtain ev where ev: "handler_events W (io_reads s) h = [ev]" using OfConn by (cases g) simp_all
  let ?s = "s\<lparr>io_reads := count_read (io_reads s) h\<rparr>"
  have handle: "io_handle W h s = io_on (conn_loop_step (iw_conn W) ev) ?s"
  proof (cases "g = HandleRead")
    case True
    have "read_whole (iw_read W d (io_reads s d))" using reads by blast
    then show ?thesis
      using OfConn ev True handler_steps(1) [of "iw_read W d (io_reads s d)" d "iw_conn W"]
      by (simp add: case_prod_unfold)
  next
    case False
    then show ?thesis using OfConn ev by (cases g) (auto simp: handler_steps simp del: conn_loop_step.simps)
  qed
  have "conn_loop_step (iw_conn W) ev (io_view ?s) = Inr k" using run ev by (auto simp: res_iffs)
  from io_on_run [where g = "conn_loop_step (iw_conn W) ev", OF this] show ?thesis
    using handle none by auto
qed

lemma handlers_run:
  assumes reads: "\<forall>d n. read_whole (iw_read W d n)"
  shows "tq_timers s = [] \<Longrightarrow> conn_loop_run (iw_conn W) (io_events W (io_reads s) (io_ticks s) hs) (io_view s) = Inr k \<Longrightarrow>
   \<exists>s1. run_all (io_run W) hs s = Inr s1 \<and> io_view s1 = k \<and> tq_timers s1 = [] \<and>
     el_queue (rc_el s1) = el_queue (rc_el s) \<and> io_ticks s1 = io_ticks s + length hs"
proof (induction hs arbitrary: s)
  case (Cons h hs)
  obtain k1 k2 where k1: "conn_loop_run (iw_conn W) (handler_events W (io_reads s) h) (io_view s) = Inr k1"
    and k2: "drop_conns (iw_remove W (io_ticks s)) k1 = Inr k2"
    and k: "conn_loop_run (iw_conn W) (io_events W (count_read (io_reads s) h) (Suc (io_ticks s)) hs) k2 = Inr k"
    using Cons.prems(2) by (auto simp: conn_loop_run_append res_iffs)
  obtain s1 where s1: "io_handle W h s = Inr s1" "io_view s1 = k1" "tq_timers s1 = []"
    "el_queue (rc_el s1) = el_queue (rc_el s)" "io_reads s1 = count_read (io_reads s) h" "io_ticks s1 = io_ticks s"
    using handle_events [OF Cons.prems(1) reads k1] by blast
  obtain s2 where s2: "server_removals W s1 = Inr s2" "io_view s2 = k2" "rc_el s2 = rc_el s1" "io_reads s2 = io_reads s1"
    "tq_timers s2 = []" "io_ticks s2 = Suc (io_ticks s)"
    using server_removals_run [of W s1 k2] k2 s1 by auto
  then show ?case using Cons.IH [of s2] k s1 by (auto simp: io_run_def)
qed simp

lemma functions_run:
  "conn_loop_run (iw_conn W) (task_events W (io_ticks s) fs) (io_view s) = Inr k \<Longrightarrow>
   \<exists>s1. run_functions (io_call W) fs s = Inr s1 \<and> io_view s1 = k \<and> tq_timers s1 = tq_timers s"
proof (induction fs arbitrary: s)
  case (Cons f fs)
  let ?s = "rc_loop doFuncQueue_call s"
  have same: "tq_timers ?s = tq_timers s" "io_ticks ?s = io_ticks s" by (simp_all add: rc_loop_def)
  obtain k1 k2 where k1: "conn_loop_step (iw_conn W) (task_event f) (io_view ?s) = Inr k1"
    and k2: "drop_conns (iw_remove W (io_ticks s)) k1 = Inr k2"
    and k: "conn_loop_run (iw_conn W) (task_events W (Suc (io_ticks s)) fs) k2 = Inr k"
    using Cons.prems by (auto simp: conn_loop_run_append res_iffs)
  obtain s1 where s1: "io_on (conn_loop_step (iw_conn W) (task_event f)) ?s = Inr s1" "io_view s1 = k1"
    "tq_timers s1 = tq_timers s" "io_ticks s1 = io_ticks s"
    using io_on_run [where g = "conn_loop_step (iw_conn W) (task_event f)" and s = ?s, OF k1] same by auto
  obtain s2 where s2: "server_removals W s1 = Inr s2" "io_view s2 = k2" "tq_timers s2 = tq_timers s" "io_ticks s2 = Suc (io_ticks s)"
    using server_removals_run [of W s1 k2] k2 s1 by auto
  then show ?case using Cons.IH [of s2] k s1 by (auto simp: io_call_def)
qed simp

text \<open>The view after the poll of a round, the channels it makes active, and the events of the round.\<close>

definition io_polled :: "io_loop \<Rightarrow> int \<Rightarrow> 16 word list \<Rightarrow> conn_loop" where
  "io_polled s num revs = (case PollPoller_poll (rc_pw s) num revs [] of Inl _ \<Rightarrow> io_view s
     | Inr (w, _) \<Rightarrow> (io_view s)\<lparr>kl_pw := w\<rparr>)"

definition io_active :: "io_loop \<Rightarrow> int \<Rightarrow> 16 word list \<Rightarrow> nat list" where
  "io_active s num revs = (case PollPoller_poll (rc_pw s) num revs [] of Inl _ \<Rightarrow> [] | Inr (_, act) \<Rightarrow> act)"

definition round_events :: "io_world \<Rightarrow> io_loop \<Rightarrow> 16 word list \<Rightarrow> conn_event list" where
  "round_events W s revs = (let hs = ready_callbacks (rc_pw s) revs in
     io_events W (io_reads s) (io_ticks s) hs @ task_events W (io_ticks s + length hs) (el_queue (rc_el s)))"

section \<open>Events that are possible\<close>

lemma conn_events_ok_append:
  "conn_events_ok env (evs @ evs1) k \<longleftrightarrow> conn_events_ok env evs k \<and>
     (case conn_loop_run env evs k of Inl _ \<Rightarrow> True | Inr k1 \<Rightarrow> conn_events_ok env evs1 k1)"
proof (induction evs arbitrary: k)
  case (Cons ev evs)
  then show ?case by (cases "conn_loop_step env ev k") simp_all
qed simp

lemma all_accepted_append:
  "all_accepted accepts env (evs @ evs1) k \<longleftrightarrow> all_accepted accepts env evs k \<and>
     (case conn_loop_run env evs k of Inl _ \<Rightarrow> True | Inr k1 \<Rightarrow> all_accepted accepts env evs1 k1)"
proof (induction evs arbitrary: k)
  case (Cons ev evs)
  then show ?case by (cases "conn_loop_step env ev k") simp_all
qed simp

text \<open>What is asked of the surroundings: the functions and the removals are possible when their turn
  comes. That the reports are is shown below.\<close>

fun is_report :: "conn_event \<Rightarrow> bool" where
  "is_report (Arrive d bs) = True"
| "is_report (PeerClosed d) = True"
| "is_report (Writable d) = True"
| "is_report (HangUp d) = True"
| "is_report (Failed d) = True"
| "is_report _ = False"

fun requests_ok :: "(nat \<Rightarrow> conn_env) \<Rightarrow> conn_event list \<Rightarrow> conn_loop \<Rightarrow> bool" where
  "requests_ok env [] k \<longleftrightarrow> True"
| "requests_ok env (ev # evs) k \<longleftrightarrow> (is_report ev \<or> conn_event_ok ev k) \<and>
     (case conn_loop_step env ev k of Inl _ \<Rightarrow> True | Inr k1 \<Rightarrow> requests_ok env evs k1)"

lemma requests_ok_append:
  "requests_ok env (evs @ evs1) k \<longleftrightarrow> requests_ok env evs k \<and>
     (case conn_loop_run env evs k of Inl _ \<Rightarrow> True | Inr k1 \<Rightarrow> requests_ok env evs1 k1)"
proof (induction evs arbitrary: k)
  case (Cons ev evs)
  then show ?case by (cases "conn_loop_step env ev k") simp_all
qed simp

lemma requests_ok_all: "\<forall>ev \<in> set evs. \<not> is_report ev \<Longrightarrow> requests_ok env evs k = conn_events_ok env evs k"
  by (induction evs arbitrary: k) (auto split: sum.split)

lemma task_requests: "ev \<in> set (task_events W t fs) \<Longrightarrow> \<not> is_report ev"
proof (induction fs arbitrary: t)
  case (Cons f fs)
  then show ?case by (cases f) auto
qed simp

section \<open>The handlers a poll fires find open connections\<close>

text \<open>Handlers that may close their connection; of these a report fires at most one, if a hang-up
  without readable data comes without any other bit that makes the connection read.\<close>

fun closer :: "io_handler \<Rightarrow> nat option" where
  "closer (OfConn d HandleRead) = Some d"
| "closer (OfConn d HandleClose) = Some d"
| "closer _ = None"

definition closers :: "io_handler list \<Rightarrow> nat list" where
  "closers hs = List.map_filter closer hs"

definition hangup_alone :: "16 word \<Rightarrow> bool" where
  "hangup_alone r \<longleftrightarrow> (let e = scast r :: 32 word in
     e AND POLLHUP \<noteq> 0 \<and> e AND POLLIN = 0 \<longrightarrow> e AND kReadPollEvent = 0)"

lemma closers_simps [simp]:
  "closers [] = []" "closers (h # hs) = (case closer h of None \<Rightarrow> closers hs | Some d \<Rightarrow> d # closers hs)"
  "closers (hs @ hs') = closers hs @ closers hs'"
  by (simp_all add: closers_def List.map_filter_def split: option.splits)

lemma closers_concat: "closers (concat hss) = concat (map closers hss)"
  by (induction hss) (simp_all)

lemma fired_loop:
  assumes "loop_bound ch"
  shows "closers (fired_callbacks ch) = []" and "OfConn d g \<notin> set (fired_callbacks ch)"
proof -
  obtain h where "ch_closeCb ch = None" "ch_errorCb ch = None" "ch_writeCb ch = None" "ch_readCb ch = Some (OfLoop h)"
    using assms unfolding loop_bound_def by blast
  then have "fired_callbacks ch = (if revents_read ch then [OfLoop h] else [])" by (simp add: fired_callbacks_def)
  then show "closers (fired_callbacks ch) = []" "OfConn d g \<notin> set (fired_callbacks ch)" by simp_all
qed

lemma fired_conn:
  assumes "conn_bound d ch" and "revents_close ch \<longrightarrow> \<not> revents_read ch"
  shows "closers (fired_callbacks ch) = (if revents_close ch \<or> revents_read ch then [d] else [])"
    and "OfConn e g \<in> set (fired_callbacks ch) \<Longrightarrow> e = d"
proof -
  have fired: "fired_callbacks ch = (if revents_close ch then [OfConn d HandleClose] else []) @
      (if revents_error ch then [OfConn d HandleError] else []) @ (if revents_read ch then [OfConn d HandleRead] else []) @
      (if revents_write ch then [OfConn d HandleWrite] else [])"
    using assms(1) unfolding conn_bound_def by (elim conjE) (simp add: fired_callbacks_def)
  show "closers (fired_callbacks ch) = (if revents_close ch \<or> revents_read ch then [d] else [])"
    using assms(2) unfolding fired by (cases "revents_error ch"; cases "revents_write ch"; cases "revents_read ch") simp_all
  show "OfConn e g \<in> set (fired_callbacks ch) \<Longrightarrow> e = d" unfolding fired by (auto split: if_split_asm)
qed

lemma in_concat_map: "x \<in> set (concat (map f ds)) \<Longrightarrow> \<exists>d \<in> set ds. x \<in> set (f d)"
  by auto

lemma concat_distinct:
  "distinct ds \<Longrightarrow> \<forall>d \<in> set ds. f d = [] \<or> f d = [d] \<Longrightarrow> distinct (concat (map f ds)) \<and> set (concat (map f ds)) \<subseteq> set ds"
proof (induction ds)
  case (Cons d ds)
  then have "distinct (concat (map f ds))" "set (concat (map f ds)) \<subseteq> set ds" "f d = [] \<or> f d = [d]" by simp_all
  then show ?case using Cons.prems(1) by auto
qed simp

lemma distinct_zip_snd: "distinct ds \<Longrightarrow> distinct (map snd (filter P (zip rs ds)))"
proof (induction ds arbitrary: rs)
  case (Cons d ds)
  then show ?case by (cases rs) (auto dest: set_zip_rightD)
qed simp

lemma ready_closers:
  assumes wired: "kl_wired k" and rep: "poller_rep (kl_pw k) cs" and len: "length revs = length (pw_fds (kl_pw k))"
    and neg: "list_all2 (\<lambda>p r. pf_fd p < 0 \<longrightarrow> r = 0) (pw_fds (kl_pw k)) revs"
    and alone: "\<forall>r \<in> set revs. hangup_alone r"
  shows "distinct (closers (ready_callbacks (kl_pw k) revs)) \<and>
    set (closers (ready_callbacks (kl_pw k) revs)) \<subseteq> ran (pw_map (kl_pw k)) \<and>
    (\<forall>d g. OfConn d g \<in> set (ready_callbacks (kl_pw k) revs) \<longrightarrow> kl_conns k d \<noteq> None \<and> d \<in> set (polled_channels cs revs))"
proof -
  let ?act = "map snd (filter (\<lambda>(r, c). r \<noteq> 0) (zip revs cs))"
  let ?f = "\<lambda>d. fired_callbacks (the (reported_store (pw_store (kl_pw k)) cs revs d))"
  have lens: "length revs = length cs" using rep len by (simp add: poller_rep_def)
  have ready: "ready_callbacks (kl_pw k) revs = concat (map ?f ?act)" by (rule ready_callbacks_channels [OF rep len neg])
  have act: "(closers (?f d) = [] \<or> closers (?f d) = [d]) \<and> (\<forall>e g. OfConn e g \<in> set (?f d) \<longrightarrow> e = d \<and> kl_conns k e \<noteq> None)"
    if active: "d \<in> set ?act" for d
  proof -
    obtain i where i: "i < length cs" "cs ! i = d" "revs ! i \<noteq> 0"
      using active lens by (auto simp: set_zip)
    have "d \<in> set cs" using i by auto
    then have reg: "d \<in> ran (pw_map (kl_pw k))" using rep_registered [OF rep] by simp
    obtain ch where ch: "pw_store (kl_pw k) d = Some ch" using poller_rep_slot [OF rep i(1)] i(2) by metis
    let ?ch = "ch\<lparr>ch_revents := scast (revs ! i)\<rparr>"
    have f: "?f d = fired_callbacks ?ch"
      using reported_store_at [OF rep lens i(1), of "pw_store (kl_pw k)"] i ch by simp
    have "hangup_alone (revs ! i)" using alone i(1) lens by simp
    then have single: "revents_close ?ch \<longrightarrow> \<not> revents_read ?ch"
      by (auto simp: hangup_alone_def revents_close_def revents_read_def Let_def)
    show ?thesis
    proof (cases "kl_conns k d")
      case None
      then have "loop_bound ch" using wired reg ch by (auto simp: kl_wired_def)
      then have "loop_bound ?ch" by (simp add: loop_bound_def)
      then show ?thesis using fired_loop [of ?ch] by (simp add: f)
    next
      case (Some c)
      then have "conn_bound d ch" using wired ch by (auto simp: kl_wired_def)
      then have "conn_bound d ?ch" by (simp add: conn_bound_def)
      note fired = fired_conn [OF this single]
      have "closers (fired_callbacks ?ch) = [] \<or> closers (fired_callbacks ?ch) = [d]" unfolding fired(1) by simp
      moreover have "e = d \<and> kl_conns k e \<noteq> None" if "OfConn e g \<in> set (fired_callbacks ?ch)" for e g
        using fired(2) [OF that] Some by simp
      ultimately show ?thesis unfolding f by blast
    qed
  qed
  have "distinct ?act" by (rule distinct_zip_snd [OF poller_rep_distinct [OF rep]])
  then have "distinct (closers (ready_callbacks (kl_pw k) revs)) \<and> set (closers (ready_callbacks (kl_pw k) revs)) \<subseteq> set ?act"
    using concat_distinct [of ?act "\<lambda>d. closers (?f d)"] act by (simp add: ready closers_concat comp_def)
  moreover have "set ?act \<subseteq> ran (pw_map (kl_pw k))"
    unfolding rep_registered [OF rep, symmetric] by (auto dest: set_zip_rightD)
  moreover have "kl_conns k d \<noteq> None \<and> d \<in> set (polled_channels cs revs)"
    if fired: "OfConn d g \<in> set (ready_callbacks (kl_pw k) revs)" for d g
  proof -
    obtain e where e: "e \<in> set ?act" "OfConn d g \<in> set (?f e)"
      using in_concat_map [OF fired [unfolded ready]] by blast
    show ?thesis using act [OF e(1)] e unfolding polled_channels_def by blast
  qed
  ultimately show ?thesis by blast
qed

text \<open>A handler that does not close leaves the state of its connection alone.\<close>

definition open_in :: "conn_loop \<Rightarrow> nat \<Rightarrow> bool" where
  "open_in k d \<longleftrightarrow> (case kl_conns k d of None \<Rightarrow> False | Some c \<Rightarrow> cn_state c \<noteq> Disconnected)"

lemma on_conn_same: "kl_conns k d = Some c \<Longrightarrow> f (c\<lparr>cn_pw := kl_pw k\<rparr>) = Inr c1 \<Longrightarrow>
    on_conn d f k = Inr (k\<lparr>kl_pw := cn_pw c1, kl_conns := (kl_conns k)(d \<mapsto> c1)\<rparr>)"
  by (simp add: on_conn_def)

text \<open>Callbacks that can be run one after the other: the connections they are for exist, and those that
  may close one are for different, open ones.\<close>

definition dispatch_ok :: "conn_loop \<Rightarrow> io_handler list \<Rightarrow> bool" where
  "dispatch_ok k hs \<longleftrightarrow> distinct (closers hs) \<and> (\<forall>d \<in> set (closers hs). open_in k d) \<and>
     (\<forall>d g. OfConn d g \<in> set hs \<longrightarrow> kl_conns k d \<noteq> None)"

lemma closers_of: "d \<in> set (closers hs) \<Longrightarrow> \<exists>g. OfConn d g \<in> set hs"
  by (auto simp: closers_def List.map_filter_def elim!: closer.elims)

lemma dispatch_ok_other:
  assumes "dispatch_ok k hs" and "\<And>d g. OfConn d g \<in> set hs \<Longrightarrow> kl_conns k1 d = kl_conns k d"
  shows "dispatch_ok k1 hs"
  using assms closers_of unfolding dispatch_ok_def open_in_def by metis

context io_app
begin

text \<open>A handler that does not close leaves the state of its connection alone.\<close>

lemma quiet_step_state:
  assumes k: "kl_typed k" and env: "\<forall>d. env_ok (env d)" and ev: "ev = Writable d \<or> ev = Failed d"
    and run: "conn_loop_step (\<lambda>d. app (env d)) ev k = Inr k1"
    and c: "kl_conns k d = Some c" "cn_state c \<noteq> Disconnected"
  shows "\<exists>c1. kl_conns k1 d = Some c1 \<and> cn_state c1 = cn_state c"
proof -
  have opened: "conn_open (c\<lparr>cn_pw := kl_pw k\<rparr>)" using conn_typed_state [OF kl_typed_conn [OF k c(1)]] c(2) by simp
  have "env_ok (app (env d))" using app_ok env by blast
  then have "\<exists>c1. TcpConnection_handleWrite (app (env d)) (c\<lparr>cn_pw := kl_pw k\<rparr>) = Inr c1 \<and> cn_state c1 = cn_state c"
    using handleWrite_stream [OF opened] by auto
  moreover have "TcpConnection_handleError (c\<lparr>cn_pw := kl_pw k\<rparr>) = Inr (c\<lparr>cn_pw := kl_pw k\<rparr>)"
    using opened conn_open_thread [OF opened]
    by (auto simp: TcpConnection_handleError_def EventLoop_assertTheSameThread_def conn_open_def)
  ultimately show ?thesis using run ev on_conn_same [OF c(1)] by auto
qed

lemma handler_ok:
  assumes env: "\<forall>d. env_ok (env d)" and W: "iw_conn W = (\<lambda>d. app (env d))" and k: "kl_typed k" "dispatch_ok k (h # hs)"
    and acc: "all_accepted accepts (iw_conn W) (handler_events W n h) k"
  shows "conn_events_ok (iw_conn W) (handler_events W n h) k \<and>
    (\<exists>k1. conn_loop_run (iw_conn W) (handler_events W n h) k = Inr k1 \<and> kl_typed k1 \<and> dispatch_ok k1 hs)"
proof (cases h)
  case (OfLoop l)
  then show ?thesis using k by (simp add: dispatch_ok_def)
next
  case (OfConn d g)
  define ev where "ev = hd (handler_events W n h)"
  have events: "handler_events W n h = [ev]" using OfConn by (cases g) (simp_all add: ev_def)
  have ev: "event_of ev = d" "\<And>e fd name. ev \<noteq> Accept e fd name" "\<And>e. ev \<noteq> Removed e"
    using OfConn by (cases g; simp add: ev_def read_event_def split: option.split)+
  have c: "kl_conns k d \<noteq> None" using k(2) OfConn by (auto simp: dispatch_ok_def)
  have ok: "conn_event_ok ev k"
    using k(2) c OfConn by (cases g) (auto simp: ev_def read_event_def open_in_def dispatch_ok_def split: option.split)
  have "accepted accepts ev k" using acc unfolding events by simp
  then obtain k1 where k1: "conn_loop_step (iw_conn W) ev k = Inr k1" "kl_typed k1"
    using conn_loop_step_typed [OF k(1) ok _ env] unfolding W by blast
  have dom: "dom (kl_conns k1) = dom (kl_conns k)"
    using step_frame [OF k1(1) [unfolded W] kl_typed_owned [OF k(1)] ev(2,3)] by blast
  have "open_in k1 e" if e: "e \<in> set (closers hs)" for e
  proof (cases "e = d")
    case True
    then have none: "closer h = None" using k(2) e OfConn by (cases "closer h") (cases g; auto simp: dispatch_ok_def)+
    then have quiet: "ev = Writable d \<or> ev = Failed d" using OfConn by (cases g) (simp_all add: ev_def)
    have "open_in k d" using k(2) e True none by (simp add: dispatch_ok_def)
    then obtain c where "kl_conns k d = Some c" "cn_state c \<noteq> Disconnected" by (auto simp: open_in_def split: option.splits)
    then obtain c1 where "kl_conns k1 d = Some c1" "cn_state c1 \<noteq> Disconnected"
      using quiet_step_state [OF k(1) env quiet k1(1) [unfolded W]] by metis
    then show ?thesis using True by (simp add: open_in_def)
  next
    case False
    then have "kl_conns k1 e = kl_conns k e" using step_other [OF k1(1)] ev(1) by simp
    moreover have "open_in k e" using k(2) e by (auto simp: dispatch_ok_def split: option.splits)
    ultimately show ?thesis by (simp add: open_in_def)
  qed
  moreover have "kl_conns k1 e \<noteq> None" if "OfConn e i \<in> set hs" for e i
    using k(2) that dom unfolding dispatch_ok_def by (metis domIff list.set_intros(2))
  moreover have "distinct (closers hs)" using k(2) by (auto simp: dispatch_ok_def split: option.splits)
  ultimately have "dispatch_ok k1 hs" by (simp add: dispatch_ok_def)
  then show ?thesis using events ok k1 by simp
qed

lemma removals_ok:
  assumes env: "\<forall>d. env_ok (env d)" and W: "iw_conn W = (\<lambda>d. app (env d))"
  shows "kl_typed k \<Longrightarrow> requests_ok (iw_conn W) (map Removed ds) k \<Longrightarrow>
    conn_events_ok (iw_conn W) (map Removed ds) k \<and>
    (\<exists>k1. drop_conns ds k = Inr k1 \<and> kl_typed k1 \<and> (\<forall>e. e \<notin> set ds \<longrightarrow> kl_conns k1 e = kl_conns k e))"
proof (induction ds arbitrary: k)
  case (Cons d ds)
  have ok: "conn_event_ok (Removed d) k" using Cons.prems(2) by simp
  obtain k1 where k1: "conn_loop_step (iw_conn W) (Removed d) k = Inr k1" "kl_typed k1"
    using conn_loop_step_typed [OF Cons.prems(1) ok _ env] unfolding W by (auto simp: accepted_def)
  have "requests_ok (iw_conn W) (map Removed ds) k1" using Cons.prems(2) k1(1) by simp
  from Cons.IH [OF k1(2) this] show ?case using ok k1(1) step_other [OF k1(1)] by auto
qed simp

lemma handlers_ok:
  assumes env: "\<forall>d. env_ok (env d)" and W: "iw_conn W = (\<lambda>d. app (env d))"
  shows "kl_typed k \<Longrightarrow> dispatch_ok k hs \<Longrightarrow> all_accepted accepts (iw_conn W) (io_events W n t hs) k \<Longrightarrow>
    requests_ok (iw_conn W) (io_events W n t hs) k \<Longrightarrow>
    \<forall>i < length hs. \<forall>d g. OfConn d g \<in> set hs \<longrightarrow> d \<notin> set (iw_remove W (t + i)) \<Longrightarrow>
    conn_events_ok (iw_conn W) (io_events W n t hs) k"
proof (induction hs arbitrary: k n t)
  case (Cons h hs)
  have acc: "all_accepted accepts (iw_conn W) (handler_events W n h) k"
    using Cons.prems(3) by (simp add: all_accepted_append)
  obtain k1 where k1: "conn_loop_run (iw_conn W) (handler_events W n h) k = Inr k1" "kl_typed k1" "dispatch_ok k1 hs"
    and first: "conn_events_ok (iw_conn W) (handler_events W n h) k"
    using handler_ok [OF env W Cons.prems(1,2) acc] by blast
  have "requests_ok (iw_conn W) (map Removed (iw_remove W t)) k1"
    using Cons.prems(4) k1(1) by (simp add: requests_ok_append)
  from removals_ok [OF env W k1(2) this] obtain k2 where k2: "drop_conns (iw_remove W t) k1 = Inr k2" "kl_typed k2"
    "\<forall>e. e \<notin> set (iw_remove W t) \<longrightarrow> kl_conns k2 e = kl_conns k1 e"
    and second: "conn_events_ok (iw_conn W) (map Removed (iw_remove W t)) k1" by blast
  have "d \<notin> set (iw_remove W t)" if "OfConn d g \<in> set hs" for d g
    using Cons.prems(5) that by (metis add.right_neutral length_greater_0_conv list.distinct(1) list.set_intros(2))
  then have k2_ok: "dispatch_ok k2 hs" using dispatch_ok_other [OF k1(3)] k2(3) by blast
  have later: "\<forall>i < length hs. \<forall>d g. OfConn d g \<in> set hs \<longrightarrow> d \<notin> set (iw_remove W (Suc t + i))"
    using Cons.prems(5) by (auto dest: spec [of _ "Suc _"])
  have "all_accepted accepts (iw_conn W) (io_events W (count_read n h) (Suc t) hs) k2"
    "requests_ok (iw_conn W) (io_events W (count_read n h) (Suc t) hs) k2"
    using Cons.prems(3,4) k1(1) k2(1) by (simp_all add: all_accepted_append requests_ok_append)
  from Cons.IH [OF k2(2) k2_ok this later] show ?case
    using first second k1(1) k2(1) by (simp add: conn_events_ok_append)
qed simp

lemma run_wired:
  assumes env: "\<forall>d. env_ok (env d)"
  shows "kl_typed k \<Longrightarrow> kl_wired k \<Longrightarrow> conn_events_ok (\<lambda>d. app (env d)) evs k \<Longrightarrow>
    all_accepted accepts (\<lambda>d. app (env d)) evs k \<Longrightarrow>
    \<exists>k1. conn_loop_run (\<lambda>d. app (env d)) evs k = Inr k1 \<and> kl_typed k1 \<and> kl_wired k1"
proof (induction evs arbitrary: k)
  case (Cons ev evs)
  then have ok: "conn_event_ok ev k" "accepted accepts ev k" by simp_all
  obtain k1 where k1: "conn_loop_step (\<lambda>d. app (env d)) ev k = Inr k1" "kl_typed k1"
    using conn_loop_step_typed [OF Cons.prems(1) ok env] by blast
  have "kl_wired k1" by (rule step_wired [OF Cons.prems(1,2) ok(1) k1(1)])
  with Cons.IH [OF k1(2)] Cons.prems(3,4) k1(1) show ?case by simp
qed simp

end

section \<open>A poll keeps the types and the wiring\<close>

definition polled_from :: "'cb pworld \<Rightarrow> 'cb pworld \<Rightarrow> bool" where
  "polled_from w w1 \<longleftrightarrow> (\<exists>cs revs. poller_rep w cs \<and> poller_rep w1 cs \<and>
     pw_store w1 = reported_store (pw_store w) cs revs \<and> pw_map w1 = pw_map w \<and>
     map pf_fd (pw_fds w1) = map pf_fd (pw_fds w))"

lemma polled_store:
  assumes "polled_from w w1" "pw_store w d = Some ch"
  shows "\<exists>ch1. pw_store w1 d = Some ch1 \<and> ch_events ch1 = ch_events ch \<and> conn_bound d ch1 = conn_bound d ch \<and>
    loop_bound ch1 = loop_bound ch"
proof -
  obtain cs revs where "pw_store w1 = reported_store (pw_store w) cs revs" using assms(1) by (auto simp: polled_from_def)
  then obtain f where "pw_store w1 d = Some (f ch)" "ch_events (f ch) = ch_events ch" "ch_closeCb (f ch) = ch_closeCb ch"
    "ch_errorCb (f ch) = ch_errorCb ch" "ch_readCb (f ch) = ch_readCb ch" "ch_writeCb (f ch) = ch_writeCb ch"
    using reported_store_map [of "pw_store w" cs revs d] assms(2) by auto
  then show ?thesis by (simp add: conn_bound_def loop_bound_def)
qed

lemma polled_live:
  assumes "polled_from w w1"
  shows "slots_live w1 \<longleftrightarrow> slots_live w"
proof -
  have "map pf_fd (pw_fds w1) = map pf_fd (pw_fds w)" using assms by (auto simp: polled_from_def)
  then have "set (map pf_fd (pw_fds w1)) = set (map pf_fd (pw_fds w))" by (rule arg_cong)
  moreover have "slots_live v \<longleftrightarrow> -1 \<notin> set (map pf_fd (pw_fds v))" for v :: "'a pworld"
    by (auto simp: slots_live_def image_iff)
  ultimately show ?thesis by simp
qed

lemma polled_typed:
  assumes k: "kl_typed k" and polled: "polled_from (kl_pw k) w"
  shows "kl_typed (k\<lparr>kl_pw := w\<rparr>)"
proof -
  obtain cs where rep: "poller_rep (kl_pw k) cs" "poller_rep w cs" and same: "pw_map w = pw_map (kl_pw k)"
    using polled by (auto simp: polled_from_def)
  have live: "slots_live w" "slots_live (kl_pw k)" using k polled_live [OF polled] by (simp_all add: kl_typed_def)
  have "conn_typed w d c" if c: "kl_conns k d = Some c" for d c
  proof -
    have typed: "conn_typed (kl_pw k) d c" by (rule kl_typed_conn [OF k c])
    then have chan: "cn_chan c = d" by (simp add: conn_typed_def)
    have opened: "conn_open (c\<lparr>cn_pw := w\<rparr>)" if before: "conn_open (c\<lparr>cn_pw := kl_pw k\<rparr>)"
    proof -
      obtain cs' ch where cs': "poller_rep (kl_pw k) cs'" "d \<in> set cs'" and ch: "pw_store (kl_pw k) d = Some ch"
        "ch_events ch = conn_mask c" and wf: "buffer_wf (cn_in c)" "buffer_wf (cn_out c)"
        using before chan by (auto simp: conn_open_def conn_channel_def conn_mask_def)
      obtain ch1 where "pw_store w d = Some ch1" "ch_events ch1 = conn_mask c" using polled_store [OF polled ch(1)] ch(2) by auto
      moreover have "d \<in> set cs" using cs' rep_registered [OF rep(1)] rep_registered [OF cs'(1)] by simp
      ultimately show ?thesis
        using conn_openI [of "c\<lparr>cn_pw := w\<rparr>" cs ch1] rep(2) live(1) wf chan by (simp add: conn_channel_def conn_mask_def)
    qed
    moreover have "\<exists>ch1. pw_store w d = Some ch1 \<and> ch_events ch1 = 0" if "\<exists>ch. pw_store (kl_pw k) d = Some ch \<and> ch_events ch = 0"
      using that polled_store [OF polled, of d] by auto
    ultimately show ?thesis
      using typed same by (cases "cn_state c") (simp_all add: conn_typed_def)
  qed
  then show ?thesis using rep(2) live(1) by (auto simp: kl_typed_def)
qed

lemma polled_wired:
  assumes k: "kl_wired k" and polled: "polled_from (kl_pw k) w"
  shows "kl_wired (k\<lparr>kl_pw := w\<rparr>)"
proof -
  have same: "pw_map w = pw_map (kl_pw k)" using polled by (auto simp: polled_from_def)
  have conns: "\<exists>ch. pw_store w d = Some ch \<and> conn_bound d ch" if c: "kl_conns k d \<noteq> None" for d
  proof -
    obtain ch where ch: "pw_store (kl_pw k) d = Some ch" "conn_bound d ch" using k c unfolding kl_wired_def by blast
    show ?thesis using polled_store [OF polled ch(1)] ch(2) by blast
  qed
  have own: "kl_conns k d \<noteq> None \<or> (\<exists>ch. pw_store w d = Some ch \<and> loop_bound ch)" if reg: "d \<in> ran (pw_map (kl_pw k))" for d
  proof (cases "kl_conns k d")
    case None
    then obtain ch where ch: "pw_store (kl_pw k) d = Some ch" "loop_bound ch" using k reg unfolding kl_wired_def by blast
    show ?thesis using polled_store [OF polled ch(1)] ch(2) by blast
  qed simp
  show ?thesis unfolding kl_wired_def using conns own same by simp
qed

section \<open>One round of the loop\<close>

definition io_inv :: "io_loop \<Rightarrow> bool" where
  "io_inv s \<longleftrightarrow> kl_typed (io_view s) \<and> kl_wired (io_view s) \<and> tq_timers s = []"

text \<open>
  What the loop relies on in a round. \<^verbatim>\<open>poll\<close> answers as documented, and a hang-up without readable
  data comes without the other bits that make a channel read. The application accepts the messages
  that arrive. The server's thread does not destroy a connection whose channel the poll has made
  active before the dispatch is over. The functions on the queue and the removals are possible
  when their turn comes: descriptors and objects of new connections are new, calls and queued
  tasks are for connections that are still there, closes and queued sends for ones that are not
  closed, and only closed connections are removed, each once.
\<close>

definition removals_wait :: "io_world \<Rightarrow> int \<Rightarrow> 16 word list \<Rightarrow> io_loop \<Rightarrow> bool" where
  "removals_wait W num revs s \<longleftrightarrow> (\<forall>i < length (ready_callbacks (rc_pw s) revs). \<forall>d \<in> set (iw_remove W (io_ticks s + i)).
     d \<notin> set (io_active s num revs))"

definition io_answer_ok :: "(buffer \<Rightarrow> string \<Rightarrow> bool) \<Rightarrow> io_world \<Rightarrow> int \<Rightarrow> 16 word list \<Rightarrow> io_loop \<Rightarrow> bool" where
  "io_answer_ok accepts W num revs s \<longleftrightarrow>
     poll_answer_ok (OfLoop HandleWakeup) num revs s \<and> (\<forall>r \<in> set revs. hangup_alone r) \<and> removals_wait W num revs s \<and>
     all_accepted accepts (iw_conn W) (round_events W s revs) (io_polled s num revs) \<and>
     requests_ok (iw_conn W) (round_events W s revs) (io_polled s num revs)"

text \<open>A removal takes the channel of its connection and leaves the others alone.\<close>

lemma drop_frame:
  assumes run: "drop_conn d k = Inr k1" and owned: "kl_owned k"
  shows "kl_owned k1 \<and> (\<forall>e. e \<noteq> d \<longrightarrow> pw_store (kl_pw k1) e = pw_store (kl_pw k) e)"
proof -
  obtain c c1 where c: "kl_conns k d = Some c" "TcpConnection_release (c\<lparr>cn_pw := kl_pw k, cn_refs := cn_refs c - 1\<rparr>) = Inr c1"
    "k1 = k\<lparr>kl_pw := cn_pw c1, kl_conns := (kl_conns k)(d := None)\<rparr>"
    using run by (auto simp: drop_conn_def res_iffs)
  have "cn_refs c = 1" "cn_chan c = d" using owned c(1) by (simp_all add: kl_owned_def)
  then have "cn_pw c1 = (kl_pw k)\<lparr>pw_store := (pw_store (kl_pw k))(d := None)\<rparr>"
    using c(2) by (auto simp: TcpConnection_release_def res_iffs)
  then show ?thesis using c(3) owned by (auto simp: kl_owned_def)
qed

lemma drops_frame:
  "drop_conns ds k = Inr k1 \<Longrightarrow> kl_owned k \<Longrightarrow>
   kl_owned k1 \<and> (\<forall>e. e \<notin> set ds \<longrightarrow> pw_store (kl_pw k1) e = pw_store (kl_pw k) e)"
proof (induction ds arbitrary: k)
  case (Cons d ds)
  then obtain k2 where k2: "drop_conn d k = Inr k2" "drop_conns ds k2 = Inr k1" by (auto simp: res_iffs)
  from drop_frame [OF k2(1) Cons.prems(2)] Cons.IH [OF k2(2)] show ?case by auto
qed simp

lemma removals_frame:
  assumes run: "server_removals W s = Inr s1" and owned: "kl_owned (io_view s)"
  shows "kl_owned (io_view s1) \<and> tq_timers s1 = tq_timers s \<and> io_ticks s1 = Suc (io_ticks s) \<and>
    (\<forall>e. e \<notin> set (iw_remove W (io_ticks s)) \<longrightarrow> pw_store (rc_pw s1) e = pw_store (rc_pw s) e)"
proof -
  obtain k where k: "drop_conns (iw_remove W (io_ticks s)) (io_view s) = Inr k"
    "s1 = s\<lparr>io_ticks := Suc (io_ticks s), rc_pw := kl_pw k, io_conns := kl_conns k\<rparr>"
    using run by (auto simp: server_removals_def io_on_def res_iffs)
  then have s1: "io_view s1 = k" "rc_pw s1 = kl_pw k" "tq_timers s1 = tq_timers s" "io_ticks s1 = Suc (io_ticks s)"
    by (simp_all add: io_view_def)
  show ?thesis unfolding s1 using drops_frame [OF k(1) owned] by simp
qed

lemma io_on_frame:
  assumes run: "io_on (on_conn d f) s = Inr s1" and owned: "kl_owned (io_view s)"
    and f: "\<And>c. 0 < cn_refs c \<Longrightarrow> frames c (f c)"
  shows "kl_owned (io_view s1) \<and> same_views (rc_pw s) (rc_pw s1) \<and>
    tq_timers s1 = tq_timers s \<and> io_ticks s1 = io_ticks s"
proof -
  obtain k where k: "on_conn d f (io_view s) = Inr k" "s1 = s\<lparr>rc_pw := kl_pw k, io_conns := kl_conns k\<rparr>"
    using run by (auto simp: io_on_def res_iffs)
  have s1: "io_view s1 = k" "rc_pw s1 = kl_pw k" "tq_timers s1 = tq_timers s" "io_ticks s1 = io_ticks s" using k(2) by (simp_all add: io_view_def)
  show ?thesis unfolding s1 using on_conn_frame [OF k(1) owned f] by (simp add: channel_frame_def)
qed

text \<open>While the callbacks \<open>hs\<close> of a dispatch are still to be run, the active channels are alive with
  the reports of the poll, and the removals to come are for others.\<close>

definition dispatching :: "io_world \<Rightarrow> nat list \<Rightarrow> (nat \<Rightarrow> io_handler channel) \<Rightarrow> io_handler list \<Rightarrow> io_loop \<Rightarrow> bool" where
  "dispatching W act chs hs s \<longleftrightarrow> kl_owned (io_view s) \<and> tq_timers s = [] \<and>
     (\<forall>i < length hs. \<forall>d \<in> set (iw_remove W (io_ticks s + i)). d \<notin> set act) \<and>
     (\<forall>d \<in> set act. \<exists>ch. pw_store (rc_pw s) d = Some ch \<and> ch_view ch = ch_view (chs d))"

text \<open>The connections a poll finds readable or hung up are open.\<close>

lemma dispatch_ok_polled:
  assumes typed: "kl_typed (io_view s)" and distinct: "distinct (closers hs)"
    and reg: "set (closers hs) \<subseteq> ran (pw_map (rc_pw s))" and conns: "\<forall>d g. OfConn d g \<in> set hs \<longrightarrow> io_conns s d \<noteq> None"
  shows "dispatch_ok ((io_view s)\<lparr>kl_pw := w\<rparr>) hs"
proof -
  have "open_in ((io_view s)\<lparr>kl_pw := w\<rparr>) d" if d: "d \<in> set (closers hs)" for d
  proof -
    obtain c where c: "io_conns s d = Some c" using closers_of [OF d] conns by blast
    have "d \<in> ran (pw_map (rc_pw s))" using reg d by blast
    then have "cn_state c \<noteq> Disconnected"
      using conn_typed_state [OF kl_typed_conn [OF typed], of d c] c by auto
    then show ?thesis using c by (simp add: open_in_def)
  qed
  then show ?thesis using distinct conns by (simp add: dispatch_ok_def)
qed

lemma round_run:
  assumes reads: "\<forall>d n. read_whole (iw_read W d n)" and inv: "io_inv s"
    and round: "EventLoop_round (io_run W) (io_call W) num revs s =
      bindR (run_all (io_run W) (ready_callbacks (rc_pw s) revs)
          (rc_loop (\<lambda>e. e\<lparr>el_pc := Handling\<rparr>) (s\<lparr>rc_pw := w, rc_active := act\<rparr>)))
        (EventLoop_doFuncQueue (io_call W))"
    and k1: "conn_loop_run (iw_conn W) (io_events W (io_reads s) (io_ticks s) (ready_callbacks (rc_pw s) revs))
      ((io_view s)\<lparr>kl_pw := w\<rparr>) = Inr k1"
    and k2: "conn_loop_run (iw_conn W)
      (task_events W (io_ticks s + length (ready_callbacks (rc_pw s) revs)) (el_queue (rc_el s))) k1 = Inr k2"
  shows "\<exists>s2. EventLoop_round (io_run W) (io_call W) num revs s = Inr s2 \<and> io_view s2 = k2 \<and> tq_timers s2 = []"
proof -
  let ?hs = "ready_callbacks (rc_pw s) revs" and ?fs = "el_queue (rc_el s)"
  let ?s = "rc_loop (\<lambda>e. e\<lparr>el_pc := Handling\<rparr>) (s\<lparr>rc_pw := w, rc_active := act\<rparr>)"
  have start: "tq_timers ?s = []" "io_view ?s = (io_view s)\<lparr>kl_pw := w\<rparr>" "io_reads ?s = io_reads s"
    "io_ticks ?s = io_ticks s" "el_queue (rc_el ?s) = ?fs"
    using inv by (simp_all add: rc_loop_def io_inv_def io_view_def)
  obtain s1 where s1: "run_all (io_run W) ?hs ?s = Inr s1" "io_view s1 = k1" "tq_timers s1 = []"
    "el_queue (rc_el s1) = ?fs" "io_ticks s1 = io_ticks s + length ?hs"
    using handlers_run [OF reads, of ?s ?hs k1] start k1 by auto
  let ?s1 = "rc_loop (\<lambda>e. (doFuncQueue_swap e)\<lparr>el_pc := Running\<rparr>) s1"
  have swap: "el_functions (rc_el ?s1) = ?fs" "tq_timers ?s1 = []" "io_ticks ?s1 = io_ticks s1"
    using s1 by (simp_all add: rc_loop_def doFuncQueue_swap_def)
  have view1: "io_view ?s1 = k1" using s1(2) by (simp only: io_view_simps)
  obtain s2 where s2: "run_functions (io_call W) ?fs ?s1 = Inr s2" "io_view s2 = k2" "tq_timers s2 = []"
    using functions_run [of W ?s1 ?fs k2] k2 unfolding view1 swap s1(5) by auto
  let ?s2 = "rc_loop (\<lambda>e. (doFuncQueue_end e)\<lparr>el_pc := Testing\<rparr>) s2"
  have "EventLoop_round (io_run W) (io_call W) num revs s = Inr ?s2"
    unfolding round using s1(1) s2(1) swap(1) by (simp add: EventLoop_doFuncQueue_def Let_def)
  moreover have "io_view ?s2 = k2" using s2(2) by (simp only: io_view_simps)
  moreover have "tq_timers ?s2 = []" using s2(3) by (simp add: rc_loop_def)
  ultimately show ?thesis by blast
qed

context io_app
begin

lemma io_handle_frame:
  assumes run: "io_handle W h s = Inr s1" and W: "iw_conn W = (\<lambda>d. app (env d))" and s: "kl_owned (io_view s)" "tq_timers s = []"
  shows "kl_owned (io_view s1) \<and> tq_timers s1 = [] \<and> io_ticks s1 = io_ticks s \<and> same_views (rc_pw s) (rc_pw s1)"
proof (cases h)
  case (OfLoop l)
  have view: "same_views (rc_pw s) (rc_pw s1)" if "io_view s1 = io_view s" using that by (simp add: io_view_def)
  show ?thesis
  proof (cases l)
    case HandleWakeup
    then show ?thesis using run OfLoop s by (auto simp: rc_loop_def io_view_def)
  next
    case HandleTimer
    then have "tq_timers s1 = []" "io_view s1 = io_view s" "io_ticks s1 = io_ticks s"
      using idle_timer [OF s(2), of "iw_clock W"] run OfLoop by auto
    then show ?thesis using view s(1) by simp
  qed
next
  case (OfConn d g)
  define s0 where "s0 = s\<lparr>io_reads := count_read (io_reads s) h\<rparr>"
  have s0: "kl_owned (io_view s0)" "rc_pw s0 = rc_pw s" "tq_timers s0 = []" "io_ticks s0 = io_ticks s"
    using s by (simp_all add: s0_def)
  have "\<exists>n r. io_on (on_conn d (conn_run_handler (app (env d)) n r g)) s0 = Inr s1"
    using run OfConn by (cases g) (auto simp: s0_def W case_prod_unfold Let_def simp del: conn_run_handler.simps)
  then obtain n r where run0: "io_on (on_conn d (conn_run_handler (app (env d)) n r g)) s0 = Inr s1" by blast
  have self: "conn_frame c c" for c by simp
  have "frames c (conn_run_handler (app (env d)) n r g c)" if "0 < cn_refs c" for c
    using that by (cases g) (auto intro: frame_intros self)
  from io_on_frame [OF run0 s0(1) this] show ?thesis using s0(2-4) by simp
qed

lemma dispatching_run:
  assumes W: "iw_conn W = (\<lambda>d. app (env d))"
  shows "runs_along (dispatching W act chs) (io_run W)"
  unfolding runs_along_def
proof (intro allI impI)
  fix h hs s s2 assume Q: "dispatching W act chs (h # hs) s" and run: "io_run W h s = Inr s2"
  obtain s1 where s1: "io_handle W h s = Inr s1" "server_removals W s1 = Inr s2"
    using run by (auto simp: io_run_def res_iffs)
  have handle: "kl_owned (io_view s1)" "tq_timers s1 = []" "io_ticks s1 = io_ticks s" "same_views (rc_pw s) (rc_pw s1)"
    using io_handle_frame [OF s1(1) W] Q by (simp_all add: dispatching_def)
  have drops: "kl_owned (io_view s2)" "tq_timers s2 = []" "io_ticks s2 = Suc (io_ticks s)"
    "\<And>e. e \<notin> set (iw_remove W (io_ticks s)) \<Longrightarrow> pw_store (rc_pw s2) e = pw_store (rc_pw s1) e"
    using removals_frame [OF s1(2) handle(1)] handle(2,3) by simp_all
  have now: "\<forall>d \<in> set (iw_remove W (io_ticks s)). d \<notin> set act" using Q by (auto simp: dispatching_def)
  have later: "\<forall>i < length hs. \<forall>d \<in> set (iw_remove W (Suc (io_ticks s) + i)). d \<notin> set act"
    using Q by (auto simp: dispatching_def dest: spec [of _ "Suc _"])
  have "\<exists>ch. pw_store (rc_pw s2) d = Some ch \<and> ch_view ch = ch_view (chs d)" if d: "d \<in> set act" for d
  proof -
    obtain ch where ch: "pw_store (rc_pw s) d = Some ch" "ch_view ch = ch_view (chs d)"
      using Q d by (auto simp: dispatching_def)
    obtain ch1 where "pw_store (rc_pw s1) d = Some ch1" "ch_view ch1 = ch_view ch"
      by (rule same_views_store [OF handle(4) ch(1)])
    moreover have "pw_store (rc_pw s2) d = pw_store (rc_pw s1) d" using drops(4) now d by blast
    ultimately show ?thesis using ch(2) by simp
  qed
  then show "dispatching W act chs hs s2" using drops(1-3) later by (simp add: dispatching_def)
qed

text \<open>The poll of a round, and what it fires: a run of events on the polled loop.\<close>

lemma io_poll:
  assumes inv: "io_inv s" and W: "iw_conn W = (\<lambda>d. app (env d))"
    and answer: "poll_answer_ok (OfLoop HandleWakeup) num revs s" "removals_wait W num revs s"
    and rep: "poller_rep (rc_pw s) cs"
  shows "\<exists>w. polled_from (rc_pw s) w \<and> io_polled s num revs = (io_view s)\<lparr>kl_pw := w\<rparr> \<and>
    io_active s num revs = polled_channels cs revs \<and>
    EventLoop_round (io_run W) call num revs s =
      bindR (run_all (io_run W) (ready_callbacks (rc_pw s) revs)
               (rc_loop (\<lambda>e. e\<lparr>el_pc := Handling\<rparr>) (s\<lparr>rc_pw := w, rc_active := polled_channels cs revs\<rparr>)))
        (EventLoop_doFuncQueue call)"
proof -
  obtain w where w: "PollPoller_poll (rc_pw s) num revs [] = Inr (w, polled_channels cs revs)" "poller_rep w cs"
    "pw_store w = reported_store (pw_store (rc_pw s)) cs revs" "pw_map w = pw_map (rc_pw s)"
    "map pf_fd (pw_fds w) = map pf_fd (pw_fds (rc_pw s))" "\<forall>d \<in> set (polled_channels cs revs). pw_store w d \<noteq> None"
    "ready_callbacks (rc_pw s) revs =
      concat (map (\<lambda>d. fired_callbacks (the (pw_store w d))) (polled_channels cs revs))"
    using poll_answered [OF rep answer(1)] by blast
  let ?act = "polled_channels cs revs" and ?chs = "\<lambda>d. the (pw_store w d)" and ?hs = "ready_callbacks (rc_pw s) revs"
  let ?s = "rc_loop (\<lambda>e. e\<lparr>el_pc := Handling\<rparr>) (s\<lparr>rc_pw := w, rc_active := ?act\<rparr>)"
  have active: "io_active s num revs = ?act" using w(1) by (simp add: io_active_def)
  have owned: "kl_owned (io_view s)" "tq_timers s = []" using inv kl_typed_owned by (auto simp: io_inv_def)
  have "rc_pw ?s = w" "io_ticks ?s = io_ticks s" "tq_timers ?s = []" "kl_owned (io_view ?s)"
    using owned by (simp_all add: rc_loop_def kl_owned_def io_view_def)
  then have Q: "dispatching W ?act ?chs (concat (map (\<lambda>d. fired_callbacks (?chs d)) ?act)) ?s"
    using answer(2) w(6) unfolding w(7) [symmetric] by (auto simp: dispatching_def removals_wait_def active)
  have "\<forall>d \<in> set ?act. sees (dispatching W ?act ?chs) (\<lambda>s. pw_store (rc_pw s) d) (?chs d)"
    by (simp add: sees_def dispatching_def)
  from dispatch_along [OF dispatching_run [OF W] this Q]
  have "dispatch_active (io_run W) ?act ?s = run_all (io_run W) ?hs ?s" unfolding w(7) .
  moreover have "polled_from (rc_pw s) w" unfolding polled_from_def using rep w(2-5) by blast
  moreover have "io_polled s num revs = (io_view s)\<lparr>kl_pw := w\<rparr>" using w(1) by (simp add: io_polled_def)
  ultimately show ?thesis using w(1) active by (auto simp: EventLoop_round_def)
qed

lemma io_round:
  assumes inv: "io_inv s" and W: "iw_conn W = (\<lambda>d. app (env d))" and env: "\<forall>d. env_ok (env d)"
    and reads: "\<forall>d n. read_whole (iw_read W d n)" and answer: "io_answer_ok accepts W num revs s"
  shows "\<exists>s1. EventLoop_round (io_run W) (io_call W) num revs s = Inr s1 \<and>
    io_inv s1 \<and> kl_typed (io_polled s num revs) \<and> kl_conns (io_polled s num revs) = io_conns s \<and>
    conn_events_ok (iw_conn W) (round_events W s revs) (io_polled s num revs) \<and>
    all_accepted accepts (iw_conn W) (round_events W s revs) (io_polled s num revs) \<and>
    conn_loop_run (iw_conn W) (round_events W s revs) (io_polled s num revs) = Inr (io_view s1)"
proof -
  let ?hs = "ready_callbacks (rc_pw s) revs" and ?fs = "el_queue (rc_el s)"
  let ?reports = "io_events W (io_reads s) (io_ticks s) ?hs" and ?tasks = "task_events W (io_ticks s + length ?hs) ?fs"
  have ok: "poll_answer_ok (OfLoop HandleWakeup) num revs s" "removals_wait W num revs s" "\<forall>r \<in> set revs. hangup_alone r"
    and asked: "all_accepted accepts (iw_conn W) (?reports @ ?tasks) (io_polled s num revs)"
      "requests_ok (iw_conn W) (?reports @ ?tasks) (io_polled s num revs)"
    using answer by (simp_all add: io_answer_ok_def round_events_def Let_def)
  have typed: "kl_typed (io_view s)" "kl_wired (io_view s)" using inv by (simp_all add: io_inv_def)
  obtain cs where rep: "poller_rep (rc_pw s) cs" using typed(1) by (auto simp: kl_typed_def)
  obtain w where w: "polled_from (rc_pw s) w" "io_polled s num revs = (io_view s)\<lparr>kl_pw := w\<rparr>"
      "io_active s num revs = polled_channels cs revs"
    and round: "EventLoop_round (io_run W) (io_call W) num revs s =
      bindR (run_all (io_run W) ?hs (rc_loop (\<lambda>e. e\<lparr>el_pc := Handling\<rparr>) (s\<lparr>rc_pw := w, rc_active := polled_channels cs revs\<rparr>)))
        (EventLoop_doFuncQueue (io_call W))"
    using io_poll [OF inv W ok(1,2) rep] by blast
  let ?k = "(io_view s)\<lparr>kl_pw := w\<rparr>"
  let ?s = "rc_loop (\<lambda>e. e\<lparr>el_pc := Handling\<rparr>) (s\<lparr>rc_pw := w, rc_active := polled_channels cs revs\<rparr>)"
  have k: "kl_typed ?k" "kl_wired ?k" using polled_typed [OF typed(1), of w] polled_wired [OF typed(2), of w] w(1) by simp_all
  have ready: "distinct (closers ?hs)" "set (closers ?hs) \<subseteq> ran (pw_map (rc_pw s))"
    "\<forall>d g. OfConn d g \<in> set ?hs \<longrightarrow> io_conns s d \<noteq> None \<and> d \<in> set (polled_channels cs revs)"
    using ready_closers [OF typed(2), of cs revs] rep ok(1,3) by (simp_all add: poll_answer_ok_def)
  have "dispatch_ok ?k ?hs" by (rule dispatch_ok_polled [OF typed(1) ready(1,2)]) (use ready(3) in blast)
  moreover have "\<forall>i < length ?hs. \<forall>d g. OfConn d g \<in> set ?hs \<longrightarrow> d \<notin> set (iw_remove W (io_ticks s + i))"
    using ok(2) ready(3) unfolding removals_wait_def w(3) by blast
  ultimately have events: "conn_events_ok (iw_conn W) ?reports ?k"
    using handlers_ok [OF env W k(1)] asked w(2) by (simp add: all_accepted_append requests_ok_append)
  have acc: "all_accepted accepts (iw_conn W) ?reports ?k" using asked(1) w(2) by (simp add: all_accepted_append)
  obtain k1 where k1: "conn_loop_run (iw_conn W) ?reports ?k = Inr k1" "kl_typed k1" "kl_wired k1"
    using run_wired [OF env k] events acc unfolding W by blast
  have tasks: "conn_events_ok (iw_conn W) ?tasks k1" "all_accepted accepts (iw_conn W) ?tasks k1"
    using asked k1(1) w(2) requests_ok_all [of ?tasks "iw_conn W" k1] task_requests
    by (auto simp: requests_ok_append all_accepted_append)
  obtain k2 where k2: "conn_loop_run (iw_conn W) ?tasks k1 = Inr k2" "kl_typed k2" "kl_wired k2"
    using run_wired [OF env k1(2,3)] tasks unfolding W by blast
  obtain s2 where s2: "EventLoop_round (io_run W) (io_call W) num revs s = Inr s2" "io_view s2 = k2" "tq_timers s2 = []"
    using round_run [OF reads inv round k1(1) k2(1)] by blast
  have "io_inv s2" using s2(2,3) k2(2,3) by (simp add: io_inv_def)
  then show ?thesis
    using s2(1,2) k k1(1) k2(1) events acc tasks w(2)
    by (simp add: round_events_def Let_def conn_events_ok_append all_accepted_append conn_loop_run_append)
qed

end

section \<open>The whole loop\<close>

text \<open>The world of an application: its callbacks are set on every connection. The results of writes are
  as documented, and what \<^verbatim>\<open>FIONREAD\<close> announces is what \<^verbatim>\<open>read\<close> delivers (\<open>short_read_aborts\<close>).\<close>

definition world_of :: "(conn_env \<Rightarrow> conn_env) \<Rightarrow> io_world \<Rightarrow> io_world" where
  "world_of app W = W\<lparr>iw_conn := (\<lambda>d. app (iw_conn W d))\<rparr>"

definition world_ok :: "io_world \<Rightarrow> bool" where
  "world_ok W \<longleftrightarrow> (\<forall>d. env_ok (iw_conn W d)) \<and> (\<forall>d n. read_whole (iw_read W d n))"

lemma world_of_simps [simp]:
  "iw_conn (world_of app W) = (\<lambda>d. app (iw_conn W d))" "iw_read (world_of app W) = iw_read W"
  "iw_remove (world_of app W) = iw_remove W" "iw_clock (world_of app W) = iw_clock W"
  by (simp_all add: world_of_def)

text \<open>A condition on every round of a run, and the events of a run: those the polls report, the
  functions taken from the queue and the removals, in order.\<close>

definition io_sleep :: "io_task loop_action list \<Rightarrow> io_loop \<Rightarrow> io_loop" where
  "io_sleep others s = rc_loop (\<lambda>e. others_act others (e\<lparr>el_pc := Polling\<rparr>)) s"

fun io_rounds :: "(int \<Rightarrow> 16 word list \<Rightarrow> io_loop \<Rightarrow> bool) \<Rightarrow> io_world \<Rightarrow> io_task poll_answer list \<Rightarrow> io_loop \<Rightarrow> bool" where
  "io_rounds P W [] s \<longleftrightarrow> True"
| "io_rounds P W ((others, num, revs) # answers) s \<longleftrightarrow>
     el_quit (rc_el s) \<or>
     P num revs (io_sleep others s) \<and>
     (case EventLoop_round (io_run W) (io_call W) num revs (io_sleep others s) of
        Inl _ \<Rightarrow> True | Inr s1 \<Rightarrow> io_rounds P W answers s1)"

fun io_trace :: "io_world \<Rightarrow> io_task poll_answer list \<Rightarrow> io_loop \<Rightarrow> conn_event list" where
  "io_trace W [] s = []"
| "io_trace W ((others, num, revs) # answers) s =
     (if el_quit (rc_el s) then []
      else (let s0 = io_sleep others s in
        round_events W s0 revs @
        (case EventLoop_round (io_run W) (io_call W) num revs s0 of
           Inl _ \<Rightarrow> [] | Inr s1 \<Rightarrow> io_trace W answers s1)))"

text \<open>In no round an event that makes \<open>d\<close> send meets an exhausted buffer or a failing \<^verbatim>\<open>write\<close>.\<close>

definition io_clean :: "(string \<Rightarrow> string \<Rightarrow> (string \<times> string) option) \<Rightarrow> io_world \<Rightarrow> nat \<Rightarrow> int \<Rightarrow> 16 word list \<Rightarrow> io_loop \<Rightarrow> bool" where
  "io_clean serve W d num revs s \<longleftrightarrow> clean_events serve (iw_conn W) d (round_events W s revs) (io_polled s num revs)"

definition loop_entered :: "io_loop \<Rightarrow> io_loop" where
  "loop_entered s = rc_loop (\<lambda>e. e\<lparr>el_looping := True, el_quit := False, el_pc := Testing\<rparr>) s"

lemma io_inv_loop [simp]: "io_inv (rc_loop g s) = io_inv s" "io_inv (io_sleep others s) = io_inv s"
    "io_inv (loop_entered s) = io_inv s"
    "io_conns (rc_loop g s) = io_conns s" "io_conns (io_sleep others s) = io_conns s"
  by (simp_all add: io_inv_def io_view_def rc_loop_def io_sleep_def loop_entered_def)

lemma io_inv_thread: "io_inv s \<Longrightarrow> pw_sameThread (rc_pw s)"
  by (auto simp: io_inv_def kl_typed_def poller_rep_def)

lemma EventLoop_loop_io:
  "io_inv s \<Longrightarrow> EventLoop_loop run call answers s = loop_while run call answers (loop_entered s)"
  by (simp add: EventLoop_loop_def EventLoop_assertTheSameThread_def io_inv_thread loop_entered_def)

context io_app
begin

lemma io_world_round:
  assumes "world_ok W" "io_inv s" "io_answer_ok accepts (world_of app W) num revs s"
  shows "\<exists>s1. EventLoop_round (io_run (world_of app W)) (io_call (world_of app W)) num revs s = Inr s1 \<and>
    io_inv s1 \<and> kl_typed (io_polled s num revs) \<and> kl_conns (io_polled s num revs) = io_conns s \<and>
    conn_events_ok (\<lambda>d. app (iw_conn W d)) (round_events (world_of app W) s revs) (io_polled s num revs) \<and>
    all_accepted accepts (\<lambda>d. app (iw_conn W d)) (round_events (world_of app W) s revs) (io_polled s num revs) \<and>
    conn_loop_run (\<lambda>d. app (iw_conn W d)) (round_events (world_of app W) s revs) (io_polled s num revs) = Inr (io_view s1)"
  using io_round [OF assms(2), of "world_of app W" "iw_conn W" num revs] assms(1,3) by (simp add: world_ok_def)

lemma loop_while_io:
  assumes W: "world_ok W"
  shows "io_inv s \<Longrightarrow> io_rounds (io_answer_ok accepts (world_of app W)) (world_of app W) answers s \<Longrightarrow>
    \<exists>done s1. loop_while (io_run (world_of app W)) (io_call (world_of app W)) answers s = Inr (done, s1) \<and> io_inv s1"
proof (induction answers arbitrary: s)
  case Nil
  then show ?case by (cases "el_quit (rc_el s)") auto
next
  case (Cons ans answers)
  obtain others num revs where ans: "ans = (others, num, revs)" by (cases ans)
  show ?case
  proof (cases "el_quit (rc_el s)")
    case True
    then show ?thesis using Cons.prems(1) ans by auto
  next
    case False
    have inv: "io_inv (io_sleep others s)" using Cons.prems(1) by simp
    obtain s1 where s1: "EventLoop_round (io_run (world_of app W)) (io_call (world_of app W)) num revs (io_sleep others s) = Inr s1"
      "io_inv s1"
      using io_world_round [OF W inv, of num revs] Cons.prems(2) False ans by auto
    then show ?thesis using Cons.IH [OF s1(2)] Cons.prems(2) False ans by (auto simp: io_sleep_def)
  qed
qed

lemma loop_while_serves:
  assumes W: "world_ok W"
  shows "io_inv s \<Longrightarrow> io_rounds (io_answer_ok accepts (world_of app W)) (world_of app W) answers s \<Longrightarrow>
    io_rounds (io_clean serve (world_of app W) d) (world_of app W) answers s \<Longrightarrow>
    serving (io_view s) d l c \<Longrightarrow> dialogue serve d l (io_trace (world_of app W) answers s) = Some (out, l1) \<Longrightarrow>
    \<exists>done s1 c1. loop_while (io_run (world_of app W)) (io_call (world_of app W)) answers s = Inr (done, s1) \<and>
      serving (io_view s1) d l1 c1 \<and> conn_stream c1 = conn_stream c @ out"
proof (induction answers arbitrary: s c l out)
  case Nil
  then show ?case by (cases "el_quit (rc_el s)") auto
next
  case (Cons ans answers)
  obtain others num revs where ans: "ans = (others, num, revs)" by (cases ans)
  show ?case
  proof (cases "el_quit (rc_el s)")
    case True
    then show ?thesis using Cons.prems(4,5) ans by auto
  next
    case False
    let ?s0 = "io_sleep others s" and ?W = "world_of app W"
    let ?evs = "round_events ?W ?s0 revs"
    have inv: "io_inv ?s0" using Cons.prems(1) by simp
    obtain s1 where s1: "EventLoop_round (io_run ?W) (io_call ?W) num revs ?s0 = Inr s1" "io_inv s1"
      and polled: "kl_typed (io_polled ?s0 num revs)" "kl_conns (io_polled ?s0 num revs) = io_conns s"
        "conn_events_ok (\<lambda>d. app (iw_conn W d)) ?evs (io_polled ?s0 num revs)"
        "all_accepted accepts (\<lambda>d. app (iw_conn W d)) ?evs (io_polled ?s0 num revs)"
        "conn_loop_run (\<lambda>d. app (iw_conn W d)) ?evs (io_polled ?s0 num revs) = Inr (io_view s1)"
      using io_world_round [OF W inv, of num revs] Cons.prems(2) False ans by auto
    have trace: "io_trace ?W (ans # answers) s = ?evs @ io_trace ?W answers s1"
      using False ans s1(1) by (simp add: Let_def)
    obtain out1 l2 out2 where talk: "dialogue serve d l ?evs = Some (out1, l2)"
      "dialogue serve d l2 (io_trace ?W answers s1) = Some (out2, l1)" "out = out1 @ out2"
      using Cons.prems(5) unfolding trace dialogue_append by (auto split: option.splits)
    have env: "\<forall>d. env_ok (iw_conn W d)" using W by (simp add: world_ok_def)
    have "serving (io_polled ?s0 num revs) d l c" using Cons.prems(4) polled(2) by (simp add: serving_def)
    moreover have "clean_events serve (\<lambda>d. app (iw_conn W d)) d ?evs (io_polled ?s0 num revs)"
      using Cons.prems(3) False ans by (simp add: io_clean_def)
    ultimately obtain c1 where c1: "serving (io_view s1) d l2 c1" "conn_stream c1 = conn_stream c @ out1"
      using serving_run [OF env polled(1,3,4), of d l c out1 l2] polled(5) talk(1) by auto
    have rest: "io_rounds (io_answer_ok accepts ?W) ?W answers s1" "io_rounds (io_clean serve ?W d) ?W answers s1"
      using Cons.prems(2,3) False ans s1(1) by simp_all
    have while: "loop_while (io_run ?W) (io_call ?W) (ans # answers) s = loop_while (io_run ?W) (io_call ?W) answers s1"
      using False ans s1(1) by (simp add: io_sleep_def)
    show ?thesis
      unfolding while using Cons.IH [OF s1(2) rest c1(1) talk(2)] c1(2) talk(3) by simp
  qed
qed

text \<open>\<^verbatim>\<open>loop()\<close> itself.\<close>

lemma loop_safe:
  assumes inv: "io_inv s" and W: "world_ok W"
    and "io_rounds (io_answer_ok accepts (world_of app W)) (world_of app W) answers (loop_entered s)"
  shows "\<exists>done s1. EventLoop_loop (io_run (world_of app W)) (io_call (world_of app W)) answers s = Inr (done, s1) \<and> io_inv s1"
  unfolding EventLoop_loop_io [OF inv] by (rule loop_while_io [OF W _ assms(3)]) (simp add: inv)

lemma loop_answers:
  assumes inv: "io_inv s" and W: "world_ok W"
    and "io_rounds (io_answer_ok accepts (world_of app W)) (world_of app W) answers (loop_entered s)"
    and "io_rounds (io_clean serve (world_of app W) d) (world_of app W) answers (loop_entered s)"
    and c: "io_conns s d = Some c" "cn_state c = Connected"
    and talk: "dialogue serve d (buffer_contents (cn_in c)) (io_trace (world_of app W) answers (loop_entered s)) = Some (out, l)"
  shows "\<exists>done s1 c1. EventLoop_loop (io_run (world_of app W)) (io_call (world_of app W)) answers s = Inr (done, s1) \<and>
     io_conns s1 d = Some c1 \<and> cn_state c1 = Connected \<and> buffer_contents (cn_in c1) = l \<and>
     cn_wire c1 @ buffer_contents (cn_out c1) = cn_wire c @ buffer_contents (cn_out c) @ out"
proof -
  have "serving (io_view (loop_entered s)) d (buffer_contents (cn_in c)) c" using c by (simp add: serving_def loop_entered_def)
  moreover have "io_inv (loop_entered s)" using inv by simp
  ultimately show ?thesis
    using loop_while_serves [OF W _ assms(3,4) _ talk, of c] EventLoop_loop_io [OF inv]
    by (auto simp: serving_def conn_stream_def)
qed

end

text \<open>
  The removal that does not wait: when the server's thread runs the removal task of a connection
  right after its \<^verbatim>\<open>handleClose\<close>, while the loop is still in the \<^verbatim>\<open>handleEvent\<close> that called it, the
  next test of \<^verbatim>\<open>revents_\<close> reads freed memory.
\<close>

lemma early_removal_use_after_free:
  assumes ch: "pw_store (rc_pw s) d = Some ch" "ch_revents ch AND POLLHUP = 0" "ch_revents ch AND kErrorPollEvent = 0"
      "ch_revents ch AND kReadPollEvent \<noteq> 0" "ch_readCb ch = Some (OfConn d HandleRead)"
    and closed: "io_handle W (OfConn d HandleRead) s = Inr s1" "io_conns s1 d = Some c1" "cn_state c1 = Disconnected"
      "cn_refs c1 = 1" "cn_chan c1 = d"
    and early: "iw_remove W (io_ticks s1) = [d]"
  shows "Channel_handleEvent (io_run W) (\<lambda>s. pw_store (rc_pw s) d) s =
    Inl (Undefined ''handleEvent on a destroyed channel'')"
proof -
  obtain s2 where s2: "server_removals W s1 = Inr s2" "pw_store (rc_pw s2) d = None"
    using closed(2-5) early
    by (auto simp: server_removals_def io_on_def io_view_def drop_conn_def TcpConnection_release_def)
  then have "io_run W (OfConn d HandleRead) s = Inr s2" using closed(1) by (simp add: io_run_def)
  then show ?thesis
    using ch s2(2)
    by (simp add: Channel_handleEvent_def Channel_fire_def revents_close_def revents_error_def revents_read_def)
qed

section \<open>A new loop\<close>

definition io_new :: "int \<Rightarrow> int \<Rightarrow> nat \<Rightarrow> nat \<Rightarrow> io_loop res" where
  "io_new wfd tfd d e = bindR (EventLoop_construct OfLoop wfd tfd d e PollPoller_new) (\<lambda>l.
     Inr (timer_queue.extend TimerQueue_new \<lparr>rc_pw = lc_pw l, rc_active = [], rc_el = EventLoop_new,
       io_conns = Map.empty, io_reads = (\<lambda>_. 0), io_ticks = 0\<rparr>))"

lemma io_new_inv:
  assumes "d \<noteq> e" "wfd \<noteq> tfd" "0 \<le> wfd" "0 \<le> tfd"
  shows "\<exists>s. io_new wfd tfd d e = Inr s \<and> io_inv s"
proof -
  have new: "poller_rep (PollPoller_new :: io_handler pworld) []" "slots_live (PollPoller_new :: io_handler pworld)"
    by (rule poller_rep_new) (simp add: slots_live_def PollPoller_new_def)
  have unused: "wfd \<notin> dom (pw_map (PollPoller_new :: io_handler pworld))" "tfd \<notin> dom (pw_map (PollPoller_new :: io_handler pworld))"
    by (simp_all add: PollPoller_new_def)
  obtain w wch tch where w: "EventLoop_construct OfLoop wfd tfd d e PollPoller_new =
       Inr \<lparr>lc_pw = w, lc_wake = d, lc_timer = e, lc_closed = []\<rparr>"
    "poller_rep w ([] @ [e, d])" "slots_live w" "pw_store w d = Some wch" "only_reads (OfLoop HandleWakeup) wch"
    "pw_store w e = Some tch" "only_reads (OfLoop HandleTimer) tch"
    using EventLoop_construct_spec [OF new assms(1) _ _ assms(2-4) unused, of OfLoop] by auto
  let ?s = "timer_queue.extend TimerQueue_new \<lparr>rc_pw = w, rc_active = [], rc_el = EventLoop_new,
      io_conns = Map.empty, io_reads = (\<lambda>_. 0), io_ticks = 0\<rparr> :: io_loop"
  have view: "io_view ?s = \<lparr>kl_pw = w, kl_conns = Map.empty\<rparr>" "tq_timers ?s = []"
    by (simp_all add: io_view_def TimerQueue_new_def timer_queue.defs)
  have "ran (pw_map w) = {e, d}" using rep_registered [OF w(2)] by auto
  moreover have "loop_bound wch" "loop_bound tch" using w(5,7) by (simp_all add: only_reads_def loop_bound_def)
  ultimately have "kl_wired (io_view ?s)" using w(4,6) by (auto simp: view kl_wired_def)
  moreover have "kl_typed (io_view ?s)" using w(2,3) by (auto simp: view kl_typed_def)
  ultimately have "io_inv ?s" using view(2) by (simp add: io_inv_def)
  then show ?thesis using w(1) by (simp add: io_new_def)
qed

end
