(* ===== verification/Lotta_Io_Server.thy ===== *)
theory Lotta_Io_Server
  imports Lotta_Io_Loop
begin

text \<open>
  The I/O loop of a server with default callbacks, the echo server: the interface of an
  application is interpreted on it, and what it promises holds of the real loop.
\<close>

interpretation echo_loop: io_app TcpServer_env "\<lambda>_ _. True" echo_serve
  by unfold_locales (simp add: frames_message)

section \<open>Properties\<close>

text \<open>C3. An I/O loop of a server with threads runs without a fault: from a loop whose connections are
  typed and whose channels are bound to their owners (a new loop is one, \<open>io_new_inv\<close>),
  \<^verbatim>\<open>EventLoop::loop\<close> passes all its asserts and touches no destroyed object, and in the end its
  connections are typed and its channels bound again; for any number of connections, whatever
  arrives, however much the writes take, and also while the server's thread removes closed
  connections in the middle of a dispatch; on these conditions (\<open>io_answer_ok\<close>, \<open>world_ok\<close>).
  \<^verbatim>\<open>poll\<close> answers as documented, in any order and with any bits, only a hang-up without readable data
  comes without the other bits that make a channel read. A read delivers what was announced
  (otherwise \<open>short_read_aborts\<close>). The functions on the queue are for connections that still exist,
  closes and queued sends for ones not yet closed (\<open>close_closed_aborts\<close>, \<open>queued_send_dangles\<close>).
  Only closed connections are removed, each once, and none while its channel is active in a
  dispatch (\<open>early_removal_use_after_free\<close>).\<close>

theorem io_loop_safe:
  assumes "kl_typed (io_view s)" "kl_wired (io_view s)" "tq_timers s = []" and "world_ok W"
    and "io_rounds (io_answer_ok (\<lambda>_ _. True) (world_of TcpServer_env W)) (world_of TcpServer_env W) answers (loop_entered s)"
  shows "\<exists>done s1. EventLoop_loop (io_run (world_of TcpServer_env W)) (io_call (world_of TcpServer_env W)) answers s =
       Inr (done, s1) \<and> kl_typed (io_view s1) \<and> kl_wired (io_view s1)"
proof -
  have "io_inv s" using assms(1-3) by (simp add: io_inv_def)
  from echo_loop.loop_safe [OF this assms(4,5)] show ?thesis by (auto simp: io_inv_def)
qed

text \<open>C5. What goes out of the real loop on a connection is that connection's own stream. Let the loop
  run as in the property above, and follow a connected connection to which nothing happens that
  ends it (it is not shut down, closed, hung up, removed, and its peer does not close), while no event
  that makes it send meets an exhausted buffer or a failing \<^verbatim>\<open>write\<close>. Then what the kernel has taken on
  it followed by what is still buffered is what it was, followed by the echo of each message its
  reads found (the first one with what was left in its input before) and by each message sent
  to it through the queue, in the order in which the polls and the queue delivered them,
  whatever the other connections of the loop do in the same rounds.\<close>

theorem io_loop_echo:
  assumes "kl_typed (io_view s)" "kl_wired (io_view s)" "tq_timers s = []" and "world_ok W"
    and "io_rounds (io_answer_ok (\<lambda>_ _. True) (world_of TcpServer_env W)) (world_of TcpServer_env W) answers (loop_entered s)"
    and "io_rounds (io_clean echo_serve (world_of TcpServer_env W) d) (world_of TcpServer_env W) answers (loop_entered s)"
    and "io_conns s d = Some c" "cn_state c = Connected"
    and "dialogue echo_serve d (buffer_contents (cn_in c)) (io_trace (world_of TcpServer_env W) answers (loop_entered s)) = Some (out, l)"
  shows "\<exists>done s1 c1. EventLoop_loop (io_run (world_of TcpServer_env W)) (io_call (world_of TcpServer_env W)) answers s =
       Inr (done, s1) \<and> io_conns s1 d = Some c1 \<and> cn_state c1 = Connected \<and> buffer_contents (cn_in c1) = l \<and>
     cn_wire c1 @ buffer_contents (cn_out c1) = cn_wire c @ buffer_contents (cn_out c) @ out"
proof -
  have "io_inv s" using assms(1-3) by (simp add: io_inv_def)
  from echo_loop.loop_answers [OF this assms(4-9)] show ?thesis .
qed

text \<open>A loop with two connections, one round: another thread queues a send, bytes arrive on the first
  connection, the peer of the second closes, and the server's thread removes it when the queued
  function has run.\<close>

definition sample_own_channel :: "int \<Rightarrow> int \<Rightarrow> loop_handler \<Rightarrow> io_handler channel" where
  "sample_own_channel fd i h = (Channel_new fd)\<lparr>ch_events := kReadPollEvent, ch_idxPoll := i, ch_readCb := Some (OfLoop h)\<rparr>"

definition sample_io :: io_loop where
  "sample_io = timer_queue.extend TimerQueue_new
     \<lparr>rc_pw = \<lparr>pw_store = [0 \<mapsto> sample_own_channel 4 0 HandleTimer, 1 \<mapsto> sample_own_channel 3 1 HandleWakeup,
          2 \<mapsto> sample_conn_channel 7 2, 3 \<mapsto> sample_conn_channel 8 3],
        pw_map = [4 \<mapsto> 0, 3 \<mapsto> 1, 7 \<mapsto> 2, 8 \<mapsto> 3],
        pw_fds = map (\<lambda>fd. \<lparr>pf_fd = fd, pf_events = ucast kReadPollEvent, pf_revents = 0\<rparr>) [4, 3, 7, 8],
        pw_sameThread = True\<rparr>,
      rc_active = [], rc_el = EventLoop_new,
      io_conns = [2 \<mapsto> (sample_conn (Buffer_new 8))\<lparr>cn_chan := 2\<rparr>, 3 \<mapsto> (sample_conn (Buffer_new 8))\<lparr>cn_chan := 3\<rparr>],
      io_reads = (\<lambda>_. 0), io_ticks = 0\<rparr>"

definition sample_world :: io_world where
  "sample_world = \<lparr>iw_conn = \<lambda>_. sample_env, iw_read = \<lambda>d n. if d = 2 then (2, Some ''hi'') else (0, Some []),
     iw_remove = \<lambda>t. if t = 3 then [3] else [], iw_clock = int\<rparr>"

definition sample_round :: "io_task poll_answer list" where
  "sample_round = [([OtherPush (CallSend 2 ''!''), OtherWakeup], 3, [0, 1, 1, 1])]"

lemma sample_world_simps [simp]:
  "iw_conn sample_world = (\<lambda>_. sample_env)" "iw_read sample_world d n = (if d = 2 then (2, Some ''hi'') else (0, Some []))"
  "iw_remove sample_world t = (if t = 3 then [3] else [])"
  by (simp_all add: sample_world_def)

lemma sample_world_ok: "world_ok sample_world"
  by (simp add: world_ok_def sample_env_ok read_whole_def)

lemma sample_io_fields [simp]:
  "tq_timers sample_io = []" "rc_el sample_io = EventLoop_new" "io_reads sample_io = (\<lambda>_. 0)" "io_ticks sample_io = 0"
  "io_conns sample_io = [2 \<mapsto> (sample_conn (Buffer_new 8))\<lparr>cn_chan := 2\<rparr>, 3 \<mapsto> (sample_conn (Buffer_new 8))\<lparr>cn_chan := 3\<rparr>]"
  by (simp_all add: sample_io_def TimerQueue_new_def timer_queue.defs)

lemma sample_io_pw:
  "rc_pw sample_io = \<lparr>pw_store = [0 \<mapsto> sample_own_channel 4 0 HandleTimer, 1 \<mapsto> sample_own_channel 3 1 HandleWakeup,
          2 \<mapsto> sample_conn_channel 7 2, 3 \<mapsto> sample_conn_channel 8 3],
        pw_map = [4 \<mapsto> 0, 3 \<mapsto> 1, 7 \<mapsto> 2, 8 \<mapsto> 3],
        pw_fds = map (\<lambda>fd. \<lparr>pf_fd = fd, pf_events = ucast kReadPollEvent, pf_revents = 0\<rparr>) [4, 3, 7, 8],
        pw_sameThread = True\<rparr>"
  by (simp add: sample_io_def TimerQueue_new_def timer_queue.defs)

lemma sample_io_rep: "poller_rep (rc_pw sample_io) [0, 1, 2, 3]"
  by (simp add: sample_io_pw sample_conn_channel_def sample_own_channel_def Channel_new_def poller_rep_def slot_ok_def
      mask_facts nth_Cons' less_Suc_eq)

lemma sample_io_typed: "kl_typed (io_view sample_io)"
proof -
  have live: "slots_live (rc_pw sample_io)" by (auto simp: sample_io_pw slots_live_def)
  have "conn_typed (rc_pw sample_io) d c" if "io_conns sample_io d = Some c" for d c
  proof -
    have c: "d = 2 \<and> c = (sample_conn (Buffer_new 8))\<lparr>cn_chan := 2\<rparr> \<or> d = 3 \<and> c = (sample_conn (Buffer_new 8))\<lparr>cn_chan := 3\<rparr>"
      using that by (auto split: if_splits)
    then have "conn_channel (c\<lparr>cn_pw := rc_pw sample_io\<rparr>) = Some (sample_conn_channel (5 + int d) d)"
      by (auto simp: sample_io_pw conn_channel_def)
    then have "conn_open (c\<lparr>cn_pw := rc_pw sample_io\<rparr>)"
      using c sample_io_rep live
      by (intro conn_openI [where cs = "[0, 1, 2, 3]"]) (auto simp: sample_conn_def sample_conn_channel_def conn_mask_def)
    then show ?thesis using c by (auto simp: conn_typed_def sample_conn_def)
  qed
  then show ?thesis using sample_io_rep live by (auto simp: kl_typed_def)
qed

lemma sample_io_wired: "kl_wired (io_view sample_io)"
proof -
  have "ran (pw_map (rc_pw sample_io)) = {0, 1, 2, 3}" using rep_registered [OF sample_io_rep] by auto
  then show ?thesis
    by (auto simp: kl_wired_def sample_io_pw sample_conn_channel_def conn_bound_def loop_bound_def
        sample_own_channel_def Channel_new_def split: if_splits)
qed

lemma sample_io_ready:
  "ready_callbacks (rc_pw sample_io) [0, 1, 1, 1] = [OfLoop HandleWakeup, OfConn 2 HandleRead, OfConn 3 HandleRead]"
  by (simp add: sample_io_pw ready_callbacks_def fired_callbacks_def sample_conn_channel_def sample_own_channel_def
      Channel_new_def revents_close_def revents_error_def revents_read_def revents_write_def event_defs)

abbreviation sample_server :: io_world where
  "sample_server \<equiv> world_of TcpServer_env sample_world"

abbreviation sample_s0 :: io_loop where
  "sample_s0 \<equiv> io_sleep [OtherPush (CallSend 2 ''!''), OtherWakeup] (loop_entered sample_io)"

abbreviation sample_k0 :: conn_loop where
  "sample_k0 \<equiv> io_polled sample_s0 3 [0, 1, 1, 1]"

lemma sample_s0_fields [simp]:
  "rc_pw sample_s0 = rc_pw sample_io" "io_reads sample_s0 = (\<lambda>_. 0)" "io_ticks sample_s0 = 0"
  "el_queue (rc_el sample_s0) = [CallSend 2 ''!'']" "el_counter (rc_el sample_s0) = 1" "io_view sample_s0 = io_view sample_io" "tq_timers sample_s0 = []"
  by (simp_all add: io_sleep_def loop_entered_def rc_loop_def EventLoop_new_def loop_ops io_view_def)

lemma sample_round_events:
  "round_events sample_server sample_s0 [0, 1, 1, 1] = [Arrive 2 ''hi'', PeerClosed 3, SendTo 2 ''!'', Removed 3]"
  by (simp add: round_events_def sample_io_ready read_event_def)

lemma sample_poll_ok: "poll_answer_ok (OfLoop HandleWakeup) 3 [0, 1, 1, 1] sample_s0"
  unfolding poll_answer_ok_def sample_s0_fields sample_io_ready by (simp add: sample_io_pw)

lemma sample_waits: "removals_wait sample_server 3 [0, 1, 1, 1] sample_s0"
  by (simp add: removals_wait_def sample_io_ready)

lemma sample_polled [simp]: "kl_conns (io_polled sample_s0 num revs) = io_conns sample_io"
proof -
  have "io_conns sample_s0 = kl_conns (io_view sample_s0)" by (simp only: io_view_simps)
  then show ?thesis by (simp add: io_polled_def split: sum.split)
qed

lemma sample_polled_typed: "kl_typed sample_k0"
proof -
  have inv: "io_inv sample_s0" using sample_io_typed sample_io_wired by (simp add: io_inv_def)
  have rep: "poller_rep (rc_pw sample_s0) [0, 1, 2, 3]" using sample_io_rep by simp
  obtain w where "polled_from (rc_pw sample_io) w" "sample_k0 = (io_view sample_io)\<lparr>kl_pw := w\<rparr>"
    using echo_loop.io_poll [OF inv _ sample_poll_ok sample_waits rep, of "\<lambda>_. sample_env"] by auto
  then show ?thesis using polled_typed [OF sample_io_typed] by simp
qed

text \<open>The events of the round, one after the other.\<close>

lemma sample_closed:
  assumes k1: "conn_loop_step (iw_conn sample_server) (Arrive 2 bs) k = Inr k1" and k: "kl_typed k" "kl_conns k = io_conns sample_io"
    and bs: "bs \<noteq> []" and k2: "conn_loop_step (iw_conn sample_server) (PeerClosed 3) k1 = Inr k2"
  shows "kl_conns k2 2 = kl_conns k1 2 \<and> kl_conns k1 2 \<noteq> None \<and>
    (\<exists>c3. kl_conns k2 3 = Some c3 \<and> cn_state c3 = Disconnected)"
proof -
  let ?env = "\<lambda>d. (\<lambda>_. sample_env) d"
  have env: "\<forall>d. env_ok (?env d)" using sample_env_ok by simp
  have "conn_event_ok (Arrive 2 bs) k" using k(2) bs by (simp add: sample_conn_def)
  then have typed: "kl_typed k1"
    using echo.conn_loop_step_typed [OF k(1) _ _ env, of "Arrive 2 bs"] k1
    by (auto simp: accepted_def split: option.splits simp del: conn_loop_step.simps)
  have "kl_conns k1 3 = Some ((sample_conn (Buffer_new 8))\<lparr>cn_chan := 3\<rparr>)" using step_other [OF k1, of 3] k(2) by simp
  then have "\<exists>c3. kl_conns k2 3 = Some c3 \<and> cn_state c3 = Disconnected"
    using echo.peer_closed_step [OF typed env _ _ k2 [unfolded world_of_simps sample_world_simps]] by (auto simp: sample_conn_def)
  moreover have "kl_conns k1 2 \<noteq> None" using step_exists [OF k1, of 2] k(2) by simp
  ultimately show ?thesis using step_other [OF k2, of 2] by simp
qed

lemma sample_requests:
  "requests_ok (iw_conn sample_server) [Arrive 2 ''hi'', PeerClosed 3, SendTo 2 ''!'', Removed 3] sample_k0"
proof -
  have "kl_conns k2 2 \<noteq> None \<and> (\<forall>k3. conn_loop_step (iw_conn sample_server) (SendTo 2 ''!'') k2 = Inr k3 \<longrightarrow>
      conn_event_ok (Removed 3) k3)"
    if k1: "conn_loop_step (iw_conn sample_server) (Arrive 2 ''hi'') sample_k0 = Inr k1"
      and k2: "conn_loop_step (iw_conn sample_server) (PeerClosed 3) k1 = Inr k2" for k1 k2
  proof -
    have c: "kl_conns k2 2 \<noteq> None" "\<exists>c3. kl_conns k2 3 = Some c3 \<and> cn_state c3 = Disconnected"
      using sample_closed [OF k1 sample_polled_typed _ _ k2] by auto
    have "conn_event_ok (Removed 3) k3" if "conn_loop_step (iw_conn sample_server) (SendTo 2 ''!'') k2 = Inr k3" for k3
      using step_other [OF that, of 3] c(2) by auto
    then show ?thesis using c(1) by blast
  qed
  then show ?thesis by (simp split: sum.split del: conn_loop_step.simps)
qed

lemma sample_io_answer: "io_answer_ok (\<lambda>_ _. True) sample_server 3 [0, 1, 1, 1] sample_s0"
  unfolding io_answer_ok_def sample_round_events
  using sample_poll_ok sample_waits sample_requests all_accepted_any
  by (simp add: hangup_alone_def del: requests_ok.simps all_accepted.simps)

lemma sample_polled_pw:
  "pw_sameThread (kl_pw sample_k0) \<and> (\<exists>ch. pw_store (kl_pw sample_k0) 2 = Some ch \<and> ch_events ch = kReadPollEvent)"
  unfolding io_polled_def sample_s0_fields
  by (simp add: sample_io_pw PollPoller_poll_def sample_conn_channel_def sample_own_channel_def Channel_new_def)

lemma sample_io_arrive:
  "\<exists>k1 c1. conn_loop_step (iw_conn sample_server) (Arrive 2 ''hi'') sample_k0 = Inr k1 \<and>
     kl_conns k1 2 = Some c1 \<and> cn_state c1 = Connected \<and> clean_send sample_env ''!'' c1"
proof -
  obtain ch where ch: "pw_sameThread (kl_pw sample_k0)" "pw_store (kl_pw sample_k0) 2 = Some ch" "ch_events ch = kReadPollEvent"
    using sample_polled_pw by blast
  then show ?thesis
    by (simp add: sample_conn_def sample_env_def sample_eval copy_to_front_def
        buffer_contents_def Buffer_writable_def libstdcxx_grow_def clean_send_def buffer_exhausted_def)
qed

lemma sample_io_clean: "io_clean echo_serve sample_server 2 3 [0, 1, 1, 1] sample_s0"
proof -
  obtain k1 c1 where k1: "conn_loop_step (iw_conn sample_server) (Arrive 2 ''hi'') sample_k0 = Inr k1"
    "kl_conns k1 2 = Some c1" "cn_state c1 = Connected" "clean_send sample_env ''!'' c1"
    using sample_io_arrive by blast
  have c: "clean_send sample_env ''recv: hi'' ((sample_conn (Buffer_new 8))\<lparr>cn_chan := 2\<rparr>)"
    by (simp_all add: sample_conn_def clean_send_def buffer_exhausted_def Buffer_new_def kInitLen_def
        size_max1_def sample_env_def quiet_env_def)
  have empty: "buffer_contents (cn_in ((sample_conn (Buffer_new 8))\<lparr>cn_chan := 2\<rparr>)) = []"
    by (simp add: sample_conn_def Buffer_new_def buffer_contents_def kInitLen_def)
  have "clean_event echo_serve sample_env 2 (Arrive 2 ''hi'') sample_k0"
    using c empty by (simp add: clean_event_def echo_serve_def)
  moreover have "clean_event echo_serve sample_env 2 (SendTo 2 ''!'') k2"
    if "conn_loop_step (iw_conn sample_server) (PeerClosed 3) k1 = Inr k2" for k2
    using step_other [OF that, of 2] k1(2,4) by (simp add: clean_event_def)
  moreover have "clean_event serve (TcpServer_env e) d ev k = clean_event serve e d ev k" for serve e d ev k
    by (rule clean_event_env) simp
  ultimately show ?thesis
    unfolding io_clean_def sample_round_events
    using k1(1) by (simp split: sum.split del: conn_loop_step.simps)
qed

lemma sample_entered: "el_quit (rc_el (loop_entered sample_io)) = False"
  by (simp add: loop_entered_def rc_loop_def)

lemma sample_round_ok: "P 3 [0, 1, 1, 1] sample_s0 \<Longrightarrow> io_rounds P W sample_round (loop_entered sample_io)"
  by (simp add: sample_round_def sample_entered split: sum.split)

lemma sample_trace:
  "io_trace sample_server sample_round (loop_entered sample_io) = [Arrive 2 ''hi'', PeerClosed 3, SendTo 2 ''!'', Removed 3]"
proof -
  have "(case EventLoop_round (io_run sample_server) (io_call sample_server) 3 [0, 1, 1, 1] sample_s0 of
      Inl _ \<Rightarrow> [] | Inr s1 \<Rightarrow> io_trace sample_server [] s1) = []"
    by (simp split: sum.split)
  then show ?thesis
    unfolding sample_round_def io_trace.simps sample_entered if_False Let_def sample_round_events by simp
qed

lemma io_loop_safe_witness:
  "\<exists>done s1. EventLoop_loop (io_run sample_server) (io_call sample_server) sample_round sample_io =
     Inr (done, s1) \<and> kl_typed (io_view s1) \<and> kl_wired (io_view s1)"
  by (rule io_loop_safe [OF sample_io_typed sample_io_wired sample_io_fields(1) sample_world_ok])
    (rule sample_round_ok [where P = "io_answer_ok (\<lambda>_ _. True) sample_server", OF sample_io_answer])

lemma io_loop_echo_witness:
  "\<exists>done s1 c1. EventLoop_loop (io_run sample_server) (io_call sample_server) sample_round sample_io =
     Inr (done, s1) \<and> io_conns s1 2 = Some c1 \<and> cn_wire c1 @ buffer_contents (cn_out c1) = ''recv: hi!''"
proof -
  let ?c = "(sample_conn (Buffer_new 8))\<lparr>cn_chan := 2\<rparr>"
  have c: "io_conns sample_io 2 = Some ?c" "cn_state ?c = Connected"
    "dialogue echo_serve 2 (buffer_contents (cn_in ?c)) (io_trace sample_server sample_round (loop_entered sample_io)) =
      Some (''recv: hi!'', [])"
    "cn_wire ?c @ buffer_contents (cn_out ?c) @ ''recv: hi!'' = ''recv: hi!''"
    by (simp_all add: sample_trace sample_conn_def echo_serve_def Buffer_new_def buffer_contents_def kInitLen_def)
  show ?thesis
    using io_loop_echo [OF sample_io_typed sample_io_wired sample_io_fields(1) sample_world_ok
        sample_round_ok [where P = "io_answer_ok (\<lambda>_ _. True) sample_server", OF sample_io_answer]
        sample_round_ok [where P = "io_clean echo_serve sample_server 2", OF sample_io_clean] c(1-3)]
    unfolding c(4) by blast
qed

end
