(* ===== verification/Lotta_Http.thy ===== *)
theory Lotta_Http
  imports Lotta_Buffer
begin

text \<open>
  The HTTP layer (\<^verbatim>\<open>include/lotta/http\<close>, \<^verbatim>\<open>src/http\<close>): \<^verbatim>\<open>Headers\<close>, \<^verbatim>\<open>Request::readBuffer\<close>,
  \<^verbatim>\<open>Response\<close> and the routing of \<^verbatim>\<open>Server::msgCallback\<close>.

  \<^verbatim>\<open>readBuffer\<close> works on a \<^verbatim>\<open>Buffer\<close> through slices; \<open>http_parse\<close> is the same parser on
  plain strings, the specification it is shown to refine. An exception that is thrown is part of
  the result, next to what the request had become by then: the server still asks the request for
  its headers after catching it.
\<close>

section \<open>States and exceptions\<close>

datatype http_method = OPTIONS | GET | HEAD | POST | PUT | DELETE | TRACE | CONNECT

datatype http_version = V09 | V10 | V11 | V20 | V30

datatype http_status = OK | BadRequest | NotFound

datatype http_exn = BadRequestException | NotFoundException

fun status_int :: "http_status \<Rightarrow> nat" where
  "status_int OK = 200"
| "status_int BadRequest = 400"
| "status_int NotFound = 404"

fun exn_code :: "http_exn \<Rightarrow> nat" where
  "exn_code BadRequestException = 400"
| "exn_code NotFoundException = 404"

definition status_of_int :: "nat \<Rightarrow> http_status" where
  "status_of_int n = (if n = 400 then BadRequest else if n = 404 then NotFound else OK)"

fun StatusMsgs :: "http_status \<Rightarrow> string" where
  "StatusMsgs OK = ''OK''"
| "StatusMsgs BadRequest = ''Bad Request''"
| "StatusMsgs NotFound = ''Not Found''"

fun MethodMsgs :: "http_method \<Rightarrow> string" where
  "MethodMsgs GET = ''GET''"
| "MethodMsgs POST = ''POST''"
| "MethodMsgs PUT = ''PUT''"
| "MethodMsgs DELETE = ''DELETE''"
| "MethodMsgs HEAD = ''HEAD''"
| "MethodMsgs OPTIONS = ''OPTIONS''"
| "MethodMsgs CONNECT = ''CONNECT''"
| "MethodMsgs TRACE = ''TRACE''"

section \<open>Headers\<close>

type_synonym headers = "(string \<times> string) list"

fun Headers_get :: "headers \<Rightarrow> string \<Rightarrow> string" where
  "Headers_get [] key = []"
| "Headers_get (p # ps) key = (if fst p = key then snd p else Headers_get ps key)"

definition Headers_append :: "headers \<Rightarrow> string \<Rightarrow> string \<Rightarrow> headers" where
  "Headers_append hs key val = hs @ [(key, val)]"

fun Headers_assign :: "headers \<Rightarrow> string \<Rightarrow> string \<Rightarrow> headers option" where
  "Headers_assign [] key val = None"
| "Headers_assign (p # ps) key val =
     (if fst p = key then Some ((fst p, val) # ps)
      else map_option (Cons p) (Headers_assign ps key val))"

definition Headers_set :: "headers \<Rightarrow> string \<Rightarrow> string \<Rightarrow> headers" where
  "Headers_set hs key val =
     (case Headers_assign hs key val of Some hs1 \<Rightarrow> hs1 | None \<Rightarrow> Headers_append hs key val)"

section \<open>Requests\<close>

record request =
  rq_method :: http_method
  rq_version :: http_version
  rq_path :: string
  rq_query :: string
  rq_headers :: headers
  rq_body :: string

definition Request_new :: request where
  "Request_new = \<lparr>rq_method = GET, rq_version = V11, rq_path = ''/'', rq_query = [],
     rq_headers = [], rq_body = []\<rparr>"

definition Request_getHeader :: "request \<Rightarrow> string \<Rightarrow> string" where
  "Request_getHeader rq key = Headers_get (rq_headers rq) key"

definition crlf :: string where
  "crlf = [CHR 0x0D, CHR 0x0A]"

text \<open>
  \<^verbatim>\<open>os.write(slice.data, slice.n)\<close>, which every log line with a slice performs: the count is
  converted to the signed \<^verbatim>\<open>streamsize\<close> and must not be negative.
\<close>

definition Slice_write :: "slice \<Rightarrow> string res" where
  "Slice_write sl =
     (if 9223372036854775808 \<le> sl_n sl then Inl (Undefined ''ostream::write with a negative count'')
      else Slice_toString sl)"

text \<open>The chains of \<^verbatim>\<open>slice == "..."\<close> tests.\<close>

fun match_slice :: "slice \<Rightarrow> (string \<times> 'a) list \<Rightarrow> 'a option res" where
  "match_slice sl [] = Inr None"
| "match_slice sl ((str, x) # alts) =
     bindR (Slice_eq_cstr sl str) (\<lambda>eq. if eq then Inr (Some x) else match_slice sl alts)"

definition method_tests :: "(string \<times> http_method) list" where
  "method_tests = [(''GET'', GET), (''POST'', POST), (''PUT'', PUT), (''DELETE'', DELETE),
     (''OPTIONS'', OPTIONS), (''HEAD'', HEAD), (''TRACE'', TRACE), (''CONNECT'', CONNECT)]"

definition version_tests :: "(string \<times> http_version) list" where
  "version_tests = [(''0.9'', V09), (''1.0'', V10), (''1.1'', V11), (''2.0'', V20), (''3.0'', V30)]"

text \<open>\<^verbatim>\<open>{slice.data + 5, slice.n - 5}\<close>; nothing can be read through \<^verbatim>\<open>nullptr + 5\<close>.\<close>

definition Slice_skip5 :: "slice \<Rightarrow> slice" where
  "Slice_skip5 sl =
     \<lparr>sl_data = Some (case sl_data sl of None \<Rightarrow> [] | Some bs \<Rightarrow> drop 5 bs), sl_n = size_sub (sl_n sl) 5\<rparr>"

lemma bindR_cong [fundef_cong]:
  "m = m' \<Longrightarrow> (\<And>x. m' = Inr x \<Longrightarrow> f x = g x) \<Longrightarrow> bindR m f = bindR m' g"
  by (cases m') auto

function read_headers :: "headers \<Rightarrow> buffer \<Rightarrow> (headers \<times> buffer \<times> http_exn option) res" where
  "read_headers hs b = bindR (Buffer_retrieveUntil b crlf) (\<lambda>(sl, b1).
     if Slice_empty sl then Inr (hs, b1, None)
     else bindR (Slice_toString sl) (\<lambda>line.
       let colon = std_search line '': '' in
       if colon = length line
       then bindR (Slice_write sl) (\<lambda>_. Inr (hs, b1, Some BadRequestException))
       else read_headers (Headers_append hs (take colon line) (drop (colon + 2) line)) b1))"
  by auto

lemma retrieve_advances:
  assumes "Buffer_retrieve b n = Inr (sl, b1)"
  shows "buf_data b1 = buf_data b" and "buf_idx b1 = buf_idx b + n" and "buf_idx b1 \<le> length (buf_data b)"
    and "sl_n sl = n"
  using assms by (auto simp: Buffer_retrieve_def Buffer_readable_def res_iffs)

lemma retrieveUntil_advances:
  assumes "Buffer_retrieveUntil b delim = Inr (sl, b1)" and "\<not> Slice_empty sl"
  shows "length (buf_data b1) - buf_idx b1 < length (buf_data b) - buf_idx b"
proof -
  let ?it = "std_search (Buffer_peek b) delim"
  obtain sl2 b0 where first: "Buffer_retrieve b ?it = Inr (sl, b0)"
    and second: "Buffer_retrieve b0 (length delim) = Inr (sl2, b1)"
    using assms by (auto simp: Buffer_retrieveUntil_def Let_def res_iffs Slice_empty_def Slice_null_def
        split: if_splits)
  from retrieve_advances [OF first] retrieve_advances [OF second] assms(2) show ?thesis
    by (auto simp: Slice_empty_def)
qed

termination read_headers
  by (relation "measure (\<lambda>(hs, b). length (buf_data b) - buf_idx b)")
    (auto dest: retrieveUntil_advances)

declare read_headers.simps [simp del]

definition Request_readBuffer :: "request \<Rightarrow> buffer \<Rightarrow> (request \<times> buffer \<times> http_exn option) res" where
  "Request_readBuffer rq b =
     bindR (Buffer_retrieveUntil b '' '') (\<lambda>(msl, b1).
     bindR (match_slice msl method_tests) (\<lambda>meth. case meth of
       None \<Rightarrow> bindR (Slice_write msl) (\<lambda>_. Inr (rq, b1, Some BadRequestException))
     | Some m \<Rightarrow>
     let rq1 = rq\<lparr>rq_method := m\<rparr> in
     bindR (Buffer_retrieveUntil b1 '' '') (\<lambda>(psl, b2).
     if Slice_empty psl then Inr (rq1, b2, Some BadRequestException) else
     bindR (Slice_toString psl) (\<lambda>path.
     let rq2 = rq1\<lparr>rq_path := path\<rparr> in
     bindR (Buffer_retrieveUntil b2 crlf) (\<lambda>(vsl, b3).
     bindR (if sl_n vsl < 5 then Slice_write vsl else Inr []) (\<lambda>_.
     let vsl1 = Slice_skip5 vsl in
     bindR (match_slice vsl1 version_tests) (\<lambda>vers. case vers of
       None \<Rightarrow> bindR (Slice_write vsl1) (\<lambda>_. Inr (rq2, b3, Some BadRequestException))
     | Some v \<Rightarrow>
     let rq3 = rq2\<lparr>rq_version := v\<rparr> in
     bindR (read_headers (rq_headers rq3) b3) (\<lambda>(hs, b4, exn).
     let rq4 = rq3\<lparr>rq_headers := hs\<rparr> in
     case exn of Some e \<Rightarrow> Inr (rq4, b4, Some e)
     | None \<Rightarrow> bindR (Buffer_retrieve_all b4) (\<lambda>(bsl, b5).
         bindR (Slice_toString bsl) (\<lambda>body. Inr (rq4\<lparr>rq_body := body\<rparr>, b5, None)))))))))))"

section \<open>Responses\<close>

record response =
  rs_status :: http_status
  rs_version :: http_version
  rs_headers :: headers
  rs_body :: string

definition Response_new :: response where
  "Response_new = \<lparr>rs_status = OK, rs_version = V11,
     rs_headers = [(''Connection'', ''Keep-Alive''), (''Content-Length'', ''0'')], rs_body = []\<rparr>"

definition Response_setStatus :: "http_status \<Rightarrow> response \<Rightarrow> response" where
  "Response_setStatus status rs = rs\<lparr>rs_status := status\<rparr>"

definition Response_setBody :: "string \<Rightarrow> response \<Rightarrow> response" where
  "Response_setBody body rs = rs\<lparr>rs_body := body,
     rs_headers := Headers_set (rs_headers rs) ''Content-Length'' (nat_to_string (length body))\<rparr>"

definition Response_toString :: "response \<Rightarrow> string" where
  "Response_toString rs =
     ''HTTP/1.1 '' @ nat_to_string (status_int (rs_status rs)) @ '' '' @ StatusMsgs (rs_status rs) @ crlf @
     concat (map (\<lambda>header. fst header @ '': '' @ snd header @ crlf) (rs_headers rs)) @
     crlf @ rs_body rs"

section \<open>The server\<close>

text \<open>A handler fills in the response and may throw.\<close>

type_synonym route_func = "request \<Rightarrow> response \<Rightarrow> response \<times> http_exn option"

datatype conn_action = Send string | Shutdown

definition Server_route ::
  "http_method \<Rightarrow> string \<Rightarrow> route_func \<Rightarrow> (http_method \<times> string \<rightharpoonup> route_func) \<Rightarrow> (http_method \<times> string \<rightharpoonup> route_func)" where
  "Server_route m path f routes = routes((m, path) \<mapsto> f)"

definition Server_msgCallback ::
  "(http_method \<times> string \<rightharpoonup> route_func) \<Rightarrow> buffer \<Rightarrow> (buffer \<times> conn_action list) res" where
  "Server_msgCallback routes b =
     bindR (Request_readBuffer Request_new b) (\<lambda>(rq, b1, thrown).
     let (rs, exn) = (case thrown of
           Some e \<Rightarrow> (Response_new, Some e)
         | None \<Rightarrow> (case routes (rq_method rq, rq_path rq) of
             None \<Rightarrow> (Response_new, Some NotFoundException)
           | Some f \<Rightarrow> f rq Response_new));
         rs1 = (case exn of Some e \<Rightarrow> Response_setStatus (status_of_int (exn_code e)) rs | None \<Rightarrow> rs)
     in Inr (b1, Send (Response_toString rs1) #
              (if Request_getHeader rq ''Connection'' = ''close'' then [Shutdown] else [])))"

section \<open>The parser on strings\<close>

definition take_token :: "string \<Rightarrow> string \<Rightarrow> string \<times> string" where
  "take_token delim s =
     (let i = std_search s delim in if i = length s then ([], s) else (take i s, drop (i + length delim) s))"

lemma take_token_shorter:
  assumes "take_token delim s = (w, rest)" "w \<noteq> []"
  shows "length rest < length s"
proof -
  have "std_search s delim \<le> length s" by (rule std_search_le)
  with assms show ?thesis by (auto simp: take_token_def Let_def split: if_splits)
qed

function parse_headers :: "headers \<Rightarrow> string \<Rightarrow> headers \<times> string \<times> http_exn option" where
  "parse_headers hs s =
     (let (line, rest) = take_token crlf s in
      if line = [] then (hs, rest, None)
      else let colon = std_search line '': '' in
        if colon = length line then (hs, rest, Some BadRequestException)
        else parse_headers (hs @ [(take colon line, drop (colon + 2) line)]) rest)"
  by auto
termination by (relation "measure (\<lambda>(hs, s). length s)") (auto dest: take_token_shorter [OF sym])

declare parse_headers.simps [simp del]

text \<open>\<open>None\<close>: undefined behaviour. Otherwise the request, the unread bytes and the exception.\<close>

definition http_parse :: "request \<Rightarrow> string \<Rightarrow> (request \<times> string \<times> http_exn option) option" where
  "http_parse rq s =
     (let (meth, s1) = take_token '' '' s in
      case map_of method_tests meth of
        None \<Rightarrow> Some (rq, s1, Some BadRequestException)
      | Some m \<Rightarrow>
      let (path, s2) = take_token '' '' s1; rq1 = rq\<lparr>rq_method := m\<rparr> in
      if path = [] then Some (rq1, s2, Some BadRequestException) else
      let (vers, s3) = take_token crlf s2; rq2 = rq1\<lparr>rq_path := path\<rparr> in
      if length vers < 5 then None else
      case map_of version_tests (drop 5 vers) of
        None \<Rightarrow> Some (rq2, s3, Some BadRequestException)
      | Some v \<Rightarrow>
      let (hs, s4, exn) = parse_headers (rq_headers rq2) s3;
          rq3 = rq2\<lparr>rq_version := v, rq_headers := hs\<rparr> in
      case exn of Some e \<Rightarrow> Some (rq3, s4, Some e) | None \<Rightarrow> Some (rq3\<lparr>rq_body := s4\<rparr>, [], None))"

section \<open>Refinement\<close>

lemma Buffer_retrieveUntil_token:
  assumes wf: "buffer_wf b" and "delim \<noteq> []"
  shows "\<exists>sl b1. Buffer_retrieveUntil b delim = Inr (sl, b1) \<and> slice_ok sl \<and> buffer_wf b1 \<and>
     take_token delim (buffer_contents b) = (slice_text sl, buffer_contents b1)"
proof (cases "sublist delim (buffer_contents b)")
  case True
  then obtain w rest where split: "buffer_contents b = w @ delim @ rest"
      and len: "std_search (buffer_contents b) delim = length w"
    using std_search_obtain [OF assms(2)] by blast
  obtain b1 where "Buffer_retrieveUntil b delim =
        Inr (\<lparr>sl_data = Some (w @ delim @ rest), sl_n = length w\<rparr>, b1)"
      "buffer_wf b1" "buffer_contents b1 = rest"
    using Buffer_retrieveUntil_found [OF wf split assms(2) len] by blast
  moreover have "take_token delim (buffer_contents b) = (w, rest)"
    using len assms(2) by (simp add: take_token_def) (simp add: split)
  ultimately show ?thesis by (auto simp: slice_ok_def slice_text_def)
next
  case False
  then have "take_token delim (buffer_contents b) = ([], buffer_contents b)"
    using assms(2) by (simp add: take_token_def std_search_missing)
  with False show ?thesis by (simp add: Buffer_retrieveUntil_missing assms(2) wf)
qed

lemma token_length: "take_token delim s = (w, rest) \<Longrightarrow> length w \<le> length s \<and> length rest \<le> length s"
  by (auto simp: take_token_def Let_def split: if_splits)

lemma match_slice_ok:
  "slice_ok sl \<Longrightarrow> \<forall>(str, x) \<in> set tests. nul \<notin> set str \<Longrightarrow>
   match_slice sl tests = Inr (map_of tests (slice_text sl))"
  by (induction sl tests rule: match_slice.induct) (auto simp: Slice_eq_cstr_ok)

lemma match_slice_length:
  "\<forall>(str, x) \<in> set tests. length (c_str str) \<noteq> sl_n sl \<Longrightarrow> match_slice sl tests = Inr None"
  by (induction sl tests rule: match_slice.induct) (auto simp: Slice_eq_cstr_def)

lemma tests_plain:
  "\<forall>(str, x) \<in> set method_tests. nul \<notin> set str" "\<forall>(str, x) \<in> set version_tests. nul \<notin> set str"
  by (simp_all add: method_tests_def version_tests_def nul_def)

lemma Slice_write_ok:
  "slice_ok sl \<Longrightarrow> sl_n sl < 9223372036854775808 \<Longrightarrow> Slice_write sl = Inr (slice_text sl)"
  by (simp add: Slice_write_def Slice_toString_ok)

lemma skip5_ok:
  assumes "slice_ok sl" "5 \<le> sl_n sl" "sl_n sl < size_max1"
  shows "slice_ok (Slice_skip5 sl) \<and> slice_text (Slice_skip5 sl) = drop 5 (slice_text sl) \<and>
    sl_n (Slice_skip5 sl) \<le> sl_n sl"
  using assms size_sub_le [of 5 "sl_n sl"]
  by (auto simp: Slice_skip5_def slice_ok_def slice_text_def drop_take split: option.splits)

lemma skip5_short:
  assumes "sl_n sl < 5"
  shows "match_slice (Slice_skip5 sl) version_tests = Inr None"
    and "Slice_write (Slice_skip5 sl) = Inl (Undefined ''ostream::write with a negative count'')"
proof -
  have n: "sl_n (Slice_skip5 sl) = 18446744073709551616 - (5 - sl_n sl)"
    using size_sub_wraps [of "sl_n sl" 5] assms by (simp add: Slice_skip5_def size_max1_def)
  then have large: "9223372036854775808 \<le> sl_n (Slice_skip5 sl)" using assms by linarith
  then show "Slice_write (Slice_skip5 sl) = Inl (Undefined ''ostream::write with a negative count'')"
    by (simp add: Slice_write_def)
  have "\<forall>(str, x) \<in> set version_tests. length (c_str str) = 3"
    by (simp add: version_tests_def nul_def)
  with large show "match_slice (Slice_skip5 sl) version_tests = Inr None"
    by (intro match_slice_length) fastforce
qed

lemma read_headers_parse:
  assumes "buffer_wf b" "length (buffer_contents b) < 9223372036854775808"
  shows "\<exists>b1. read_headers hs b = (let (hs1, rest, exn) = parse_headers hs (buffer_contents b) in Inr (hs1, b1, exn)) \<and>
     buffer_wf b1 \<and> buffer_contents b1 = fst (snd (parse_headers hs (buffer_contents b)))"
  using assms
proof (induction "length (buffer_contents b)" arbitrary: hs b rule: less_induct)
  case less
  have ne: "crlf \<noteq> []" by (simp add: crlf_def)
  obtain sl b1 where step: "Buffer_retrieveUntil b crlf = Inr (sl, b1)" "slice_ok sl" "buffer_wf b1"
    and tok: "take_token crlf (buffer_contents b) = (slice_text sl, buffer_contents b1)"
    using Buffer_retrieveUntil_token [OF less.prems(1) ne] by blast
  let ?line = "slice_text sl" and ?colon = "std_search (slice_text sl) '': ''"
  have len: "length ?line \<le> length (buffer_contents b)" "length (buffer_contents b1) \<le> length (buffer_contents b)"
    using token_length [OF tok] by simp_all
  have logged: "Slice_write sl = Inr ?line"
    using step(2) len less.prems(2) slice_text_length [OF step(2)] by (intro Slice_write_ok) simp_all
  note code = read_headers.simps [of hs b] parse_headers.simps [of hs "buffer_contents b"]
  show ?case
  proof (cases "?line = [] \<or> ?colon = length ?line")
    case True
    then show ?thesis
      using step tok logged by (auto simp: code Slice_toString_ok Slice_empty_iff Let_def)
  next
    case False
    have "length (buffer_contents b1) < length (buffer_contents b)"
      using take_token_shorter [OF tok] False by blast
    from less.hyps [OF this step(3), of "Headers_append hs (take ?colon ?line) (drop (?colon + 2) ?line)"]
    show ?thesis
      using False step tok len less.prems(2)
      by (auto simp: code Slice_toString_ok Slice_empty_iff Headers_append_def Let_def)
  qed
qed

text \<open>What the buffer-level parser must do, given what the string parser says.\<close>

definition parses_as ::
  "(request \<times> buffer \<times> http_exn option) res \<Rightarrow> (request \<times> string \<times> http_exn option) option \<Rightarrow> bool" where
  "parses_as r spec \<longleftrightarrow>
     (case spec of
        None \<Rightarrow> r = Inl (Undefined ''ostream::write with a negative count'')
      | Some (rq, rest, exn) \<Rightarrow> \<exists>b. r = Inr (rq, b, exn) \<and> buffer_wf b \<and> buffer_contents b = rest)"

lemma parses_as_simps:
  "parses_as r None \<longleftrightarrow> r = Inl (Undefined ''ostream::write with a negative count'')"
  "parses_as r (Some (rq, rest, exn)) \<longleftrightarrow> (\<exists>b. r = Inr (rq, b, exn) \<and> buffer_wf b \<and> buffer_contents b = rest)"
  by (simp_all add: parses_as_def)

lemma readBuffer_parses:
  assumes wf: "buffer_wf b" and short: "length (buffer_contents b) < 9223372036854775808"
  shows "parses_as (Request_readBuffer rq b) (http_parse rq (buffer_contents b))"
proof -
  have ne: "'' '' \<noteq> []" "crlf \<noteq> []" by (simp_all add: crlf_def)
  obtain msl b1 where m: "Buffer_retrieveUntil b '' '' = Inr (msl, b1)" "slice_ok msl" "buffer_wf b1"
    and tokm: "take_token '' '' (buffer_contents b) = (slice_text msl, buffer_contents b1)"
    using Buffer_retrieveUntil_token [OF wf ne(1)] by blast
  obtain psl b2 where p: "Buffer_retrieveUntil b1 '' '' = Inr (psl, b2)" "slice_ok psl" "buffer_wf b2"
    and tokp: "take_token '' '' (buffer_contents b1) = (slice_text psl, buffer_contents b2)"
    using Buffer_retrieveUntil_token [OF m(3) ne(1)] by blast
  obtain vsl b3 where v: "Buffer_retrieveUntil b2 crlf = Inr (vsl, b3)" "slice_ok vsl" "buffer_wf b3"
    and tokv: "take_token crlf (buffer_contents b2) = (slice_text vsl, buffer_contents b3)"
    using Buffer_retrieveUntil_token [OF p(3) ne(2)] by blast
  note lens = token_length [OF tokm] token_length [OF tokp] token_length [OF tokv]
  have nv: "length (slice_text vsl) = sl_n vsl" "sl_n vsl < 9223372036854775808"
    using slice_text_length [OF v(2)] lens short by simp_all
  have writem: "Slice_write msl = Inr (slice_text msl)"
    using slice_text_length [OF m(2)] lens short by (intro Slice_write_ok m(2)) simp
  have writev: "Slice_write vsl = Inr (slice_text vsl)" by (rule Slice_write_ok [OF v(2) nv(2)])
  note meth = match_slice_ok [OF m(2) tests_plain(1)]
  note code = Request_readBuffer_def http_parse_def parses_as_simps m(1) p(1) v(1) tokm tokp tokv
    meth writem writev Slice_empty_iff [OF p(2)] Slice_toString_ok [OF p(2)] nv(1)
  show ?thesis
  proof (cases "map_of method_tests (slice_text msl)")
    case None
    with m(3) show ?thesis by (simp add: code)
  next
    case found: (Some me)
    show ?thesis
    proof (cases "slice_text psl = []")
      case True
      with found p(3) show ?thesis by (simp add: code)
    next
      case path: False
      show ?thesis
      proof (cases "sl_n vsl < 5")
        case True
        with found path show ?thesis by (simp add: code skip5_short Let_def)
      next
        case False
        then have skip: "slice_ok (Slice_skip5 vsl)" "slice_text (Slice_skip5 vsl) = drop 5 (slice_text vsl)"
          "sl_n (Slice_skip5 vsl) \<le> sl_n vsl"
          using skip5_ok [OF v(2)] nv(2) by (simp_all add: size_max1_def)
        have vers: "match_slice (Slice_skip5 vsl) version_tests = Inr (map_of version_tests (drop 5 (slice_text vsl)))"
          using match_slice_ok [OF skip(1) tests_plain(2)] skip(2) by simp
        have writes: "Slice_write (Slice_skip5 vsl) = Inr (slice_text (Slice_skip5 vsl))"
          using skip(3) nv(2) by (intro Slice_write_ok skip(1)) simp
        have small: "length (buffer_contents b3) < 9223372036854775808" using lens short by simp
        show ?thesis
        proof (cases "map_of version_tests (drop 5 (slice_text vsl))")
          case None
          with found path False v(3) show ?thesis by (simp add: code vers writes Let_def)
        next
          case version: (Some ve)
          obtain hs s4 exn where parse: "parse_headers (rq_headers rq) (buffer_contents b3) = (hs, s4, exn)"
            by (metis prod_cases3)
          obtain b4 where b4: "read_headers (rq_headers rq) b3 = Inr (hs, b4, exn)" "buffer_wf b4"
            "buffer_contents b4 = s4"
            using read_headers_parse [OF v(3) small, of "rq_headers rq"] by (auto simp: parse)
          obtain b5 where b5: "Buffer_retrieve_all b4 = Inr (Slice_of s4, b5)" "buffer_wf b5" "buffer_contents b5 = []"
            using Buffer_retrieve_all_spec [OF b4(2)] b4(3) by blast
          show ?thesis
            using found path False version b4 b5
            by (cases exn) (simp_all add: code vers parse Let_def Slice_toString_ok)
        qed
      qed
    qed
  qed
qed

section \<open>Properties of requests\<close>

text \<open>C14. \<^verbatim>\<open>readBuffer\<close> is the string parser on the unread bytes: it yields the same request, the
  same exception and the same rest, keeps the buffer well-formed, never trips an assert, and
  has undefined behaviour exactly where the string parser says so (a version token of fewer than
  five characters, whose length then wraps around).\<close>

theorem readBuffer_refines:
  assumes "buffer_wf b" and "length (buffer_contents b) < 9223372036854775808"
  shows "case http_parse rq (buffer_contents b) of
      None \<Rightarrow> Request_readBuffer rq b = Inl (Undefined ''ostream::write with a negative count'')
    | Some (rq1, rest, exn) \<Rightarrow> \<exists>b1. Request_readBuffer rq b = Inr (rq1, b1, exn) \<and>
        buffer_wf b1 \<and> buffer_contents b1 = rest"
  using readBuffer_parses [OF assms, of rq] unfolding parses_as_def .

lemma readBuffer_refines_witness:
  "\<exists>b1. Request_readBuffer Request_new \<lparr>buf_idx = 2, buf_data = ''..GET x'', buf_capacity = 9\<rparr> =
      Inr (Request_new\<lparr>rq_method := GET\<rparr>, b1, Some BadRequestException) \<and> buffer_contents b1 = ''x''"
proof -
  have "http_parse Request_new ''GET x'' = Some (Request_new\<lparr>rq_method := GET\<rparr>, ''x'', Some BadRequestException)"
    by (simp add: http_parse_def take_token_def method_tests_def)
  then show ?thesis
    using readBuffer_refines [of "\<lparr>buf_idx = 2, buf_data = ''..GET x'', buf_capacity = 9\<rparr>" Request_new]
    by (auto simp: buffer_wf_def buffer_contents_def)
qed

text \<open>The parser throws nothing but \<^verbatim>\<open>BadRequestException\<close>.\<close>

lemma parse_headers_throws: "parse_headers hs s = (hs1, rest, Some e) \<Longrightarrow> e = BadRequestException"
proof (induction hs s arbitrary: hs1 rest rule: parse_headers.induct)
  case (1 hs s)
  then show ?case
    by (subst (asm) (2) parse_headers.simps) (auto simp: Let_def split: prod.splits if_splits)
qed

lemma http_parse_throws: "http_parse rq s = Some (rq1, rest, Some e) \<Longrightarrow> e = BadRequestException"
  by (auto simp: http_parse_def Let_def split: prod.splits option.splits if_splits
      dest: parse_headers_throws)

text \<open>What a client sends.\<close>

fun version_string :: "http_version \<Rightarrow> string" where
  "version_string V09 = ''0.9''"
| "version_string V10 = ''1.0''"
| "version_string V11 = ''1.1''"
| "version_string V20 = ''2.0''"
| "version_string V30 = ''3.0''"

definition render_line :: "string \<times> string \<Rightarrow> string" where
  "render_line h = fst h @ '': '' @ snd h"

definition render_headers :: "headers \<Rightarrow> string" where
  "render_headers hs = concat (map (\<lambda>h. render_line h @ crlf) hs)"

definition render_request :: "http_method \<Rightarrow> string \<Rightarrow> http_version \<Rightarrow> headers \<Rightarrow> string \<Rightarrow> string" where
  "render_request m path v hs body =
     MethodMsgs m @ '' '' @ path @ '' '' @ ''HTTP/'' @ version_string v @ crlf @
     render_headers hs @ crlf @ body"

definition path_ok :: "string \<Rightarrow> bool" where
  "path_ok path \<longleftrightarrow> path \<noteq> [] \<and> CHR 0x20 \<notin> set path"

definition header_ok :: "string \<times> string \<Rightarrow> bool" where
  "header_ok h \<longleftrightarrow> CHR 0x3A \<notin> set (fst h) \<and> CHR 0x0D \<notin> set (fst h) \<and> CHR 0x0D \<notin> set (snd h)"

lemma take_token_space: "CHR 0x20 \<notin> set w \<Longrightarrow> take_token '' '' (w @ CHR 0x20 # rest) = (w, rest)"
  using std_search_char [of "CHR 0x20" w rest] by (simp add: take_token_def)

lemma take_token_crlf:
  assumes "CHR 0x0D \<notin> set w"
  shows "take_token crlf (w @ crlf @ rest) = (w, rest)"
proof -
  have "\<not> sublist crlf w" using assms set_mono_sublist by (force simp: crlf_def)
  then have "std_search (w @ crlf @ rest) crlf = length w"
    unfolding crlf_def by (simp add: std_search_pair)
  then show ?thesis by (simp add: take_token_def) (simp add: crlf_def)
qed

lemma colon_found:
  assumes "CHR 0x3A \<notin> set key"
  shows "std_search (key @ '': '' @ val) '': '' = length key"
proof -
  have "\<not> sublist '': '' key" using assms set_mono_sublist by force
  then show ?thesis by (simp add: std_search_pair)
qed

lemma parse_rendered_headers:
  "\<forall>h \<in> set hs. header_ok h \<Longrightarrow>
   parse_headers acc (render_headers hs @ crlf @ body) = (acc @ hs, body, None)"
proof (induction hs arbitrary: acc)
  case Nil
  have "take_token crlf (crlf @ body) = ([], body)" using take_token_crlf [of "[]" body] by simp
  then show ?case by (simp add: render_headers_def parse_headers.simps)
next
  case (Cons h hs)
  have key: "CHR 0x3A \<notin> set (fst h)" and cr: "CHR 0x0D \<notin> set (render_line h)"
    using Cons.prems by (auto simp: header_ok_def render_line_def)
  have "render_headers (h # hs) @ crlf @ body = render_line h @ crlf @ render_headers hs @ crlf @ body"
    by (simp add: render_headers_def)
  then have tok: "take_token crlf (render_headers (h # hs) @ crlf @ body) =
      (render_line h, render_headers hs @ crlf @ body)"
    using take_token_crlf [OF cr] by simp
  have colon: "std_search (render_line h) '': '' = length (fst h)"
    using colon_found [OF key, of "snd h"] by (simp add: render_line_def)
  have parts: "take (length (fst h)) (render_line h) = fst h" "drop (length (fst h) + 2) (render_line h) = snd h"
    "length (fst h) \<noteq> length (render_line h)" "render_line h \<noteq> []"
    by (simp_all add: render_line_def)
  have "parse_headers acc (render_headers (h # hs) @ crlf @ body) =
      parse_headers (acc @ [h]) (render_headers hs @ crlf @ body)"
    unfolding parse_headers.simps [of acc "render_headers (h # hs) @ crlf @ body"] tok
    using parts by (simp add: colon Let_def)
  then show ?case using Cons by simp
qed

lemma method_space: "CHR 0x20 \<notin> set (MethodMsgs m)"
  by (cases m) simp_all

lemma method_found: "map_of method_tests (MethodMsgs m) = Some m"
  by (cases m) (simp_all add: method_tests_def)

lemma http_parse_method_path:
  assumes "path_ok path"
  shows "http_parse rq (MethodMsgs m @ '' '' @ path @ '' '' @ s2) =
    (let (vers, s3) = take_token crlf s2; rq2 = rq\<lparr>rq_method := m, rq_path := path\<rparr> in
      if length vers < 5 then None else
      case map_of version_tests (drop 5 vers) of
        None \<Rightarrow> Some (rq2, s3, Some BadRequestException)
      | Some v \<Rightarrow>
      let (hs, s4, exn) = parse_headers (rq_headers rq2) s3;
          rq3 = rq2\<lparr>rq_version := v, rq_headers := hs\<rparr> in
      case exn of Some e \<Rightarrow> Some (rq3, s4, Some e) | None \<Rightarrow> Some (rq3\<lparr>rq_body := s4\<rparr>, [], None))"
proof -
  have "take_token '' '' (MethodMsgs m @ '' '' @ path @ '' '' @ s2) = (MethodMsgs m, path @ '' '' @ s2)"
    "take_token '' '' (path @ '' '' @ s2) = (path, s2)"
    using take_token_space [OF method_space] take_token_space assms by (simp_all add: path_ok_def)
  then show ?thesis using assms by (simp add: http_parse_def method_found path_ok_def)
qed

lemma http_parse_render:
  assumes "path_ok path" and hs: "\<forall>h \<in> set hs. header_ok h"
  shows "http_parse Request_new (render_request m path v hs body) =
    Some (\<lparr>rq_method = m, rq_version = v, rq_path = path, rq_query = [], rq_headers = hs, rq_body = body\<rparr>, [], None)"
proof -
  let ?v = "''HTTP/'' @ version_string v"
  have vers: "CHR 0x0D \<notin> set ?v" "length ?v = 8" "drop 5 ?v = version_string v"
    "map_of version_tests (version_string v) = Some v"
    by (cases v; simp add: version_tests_def)+
  have "take_token crlf (?v @ crlf @ render_headers hs @ crlf @ body) = (?v, render_headers hs @ crlf @ body)"
    using vers(1) by (rule take_token_crlf)
  then show ?thesis
    using http_parse_method_path [OF assms(1), of Request_new m "?v @ crlf @ render_headers hs @ crlf @ body"]
      vers parse_rendered_headers [OF hs, of "[]" body]
    by (simp add: render_request_def Request_new_def)
qed

text \<open>C15. Every well-formed request that a client renders is parsed back exactly, with any body,
  and leaves nothing unread.\<close>

theorem request_roundtrip:
  assumes "buffer_wf b" and "length (buffer_contents b) < 9223372036854775808"
    and "buffer_contents b = render_request m path v hs body"
    and "path_ok path" and "\<forall>h \<in> set hs. header_ok h"
  shows "\<exists>b1. Request_readBuffer Request_new b =
      Inr (\<lparr>rq_method = m, rq_version = v, rq_path = path, rq_query = [], rq_headers = hs,
            rq_body = body\<rparr>, b1, None) \<and> buffer_contents b1 = []"
  using readBuffer_parses [OF assms(1,2), of Request_new]
  by (auto simp: assms(3) http_parse_render [OF assms(4,5)] parses_as_simps)

lemma request_roundtrip_witness:
  "\<exists>b1. Request_readBuffer Request_new
      \<lparr>buf_idx = 0, buf_data = render_request POST ''/a'' V10 [(''Host'', ''b: c'')] ''d e'', buf_capacity = 99\<rparr> =
    Inr (\<lparr>rq_method = POST, rq_version = V10, rq_path = ''/a'', rq_query = [],
      rq_headers = [(''Host'', ''b: c'')], rq_body = ''d e''\<rparr>, b1, None) \<and> buffer_contents b1 = []"
  by (rule request_roundtrip)
    (simp_all add: buffer_wf_def buffer_contents_def render_request_def render_headers_def
      render_line_def crlf_def path_ok_def header_ok_def)

text \<open>C37. A request that arrives in pieces is not waited for: if the first segment has the method and
  the path, each with the space behind it, but ends before the line break of the request line,
  whatever there is of the version, the length of the missing version token wraps around and the
  process logs a slice of about \<open>2 ^ 64\<close> bytes.\<close>

theorem partial_request_undefined:
  assumes "buffer_wf b" and "length (buffer_contents b) < 9223372036854775808"
    and c: "buffer_contents b = MethodMsgs m @ '' '' @ path @ '' '' @ rest"
    and "path_ok path" and cut: "\<not> sublist crlf rest"
  shows "Request_readBuffer rq b = Inl (Undefined ''ostream::write with a negative count'')"
proof -
  have "crlf \<noteq> []" by (simp add: crlf_def)
  then have "take_token crlf rest = ([], rest)" using cut by (simp add: take_token_def std_search_missing)
  then have "http_parse rq (buffer_contents b) = None"
    using http_parse_method_path [OF assms(4), of rq m rest] by (simp add: c)
  then show ?thesis using readBuffer_parses [OF assms(1,2), of rq] by (simp add: parses_as_simps)
qed

lemma partial_request_undefined_witness:
  "Request_readBuffer Request_new \<lparr>buf_idx = 0, buf_data = ''GET / HTTP/1.1'', buf_capacity = 99\<rparr> =
     Inl (Undefined ''ostream::write with a negative count'')"
proof -
  let ?b = "\<lparr>buf_idx = 0, buf_data = ''GET / HTTP/1.1'', buf_capacity = 99\<rparr>"
  have wf: "buffer_wf ?b" by (simp add: buffer_wf_def)
  have c: "buffer_contents ?b = MethodMsgs GET @ '' '' @ ''/'' @ '' '' @ ''HTTP/1.1''"
    by (simp add: buffer_contents_def)
  then have len: "length (buffer_contents ?b) < 9223372036854775808" by simp
  have path: "path_ok ''/''" by (simp add: path_ok_def)
  have "\<not> set crlf \<subseteq> set ''HTTP/1.1''" by (simp add: crlf_def)
  then have cut: "\<not> sublist crlf ''HTTP/1.1''" using set_mono_sublist by blast
  show ?thesis by (rule partial_request_undefined [OF wf len c path cut])
qed

section \<open>Headers as a dictionary\<close>

text \<open>What the response relies on when it keeps a field up to date.\<close>

locale header_fields =
  fixes get :: "'h \<Rightarrow> string \<Rightarrow> string"
    and put :: "'h \<Rightarrow> string \<Rightarrow> string \<Rightarrow> 'h"
  assumes get_put: "get (put h k v) k = v"
    and get_put_other: "j \<noteq> k \<Longrightarrow> get (put h k v) j = get h j"
begin

definition puts :: "'h \<Rightarrow> (string \<times> string) list \<Rightarrow> 'h" where
  "puts h kvs = foldl (\<lambda>h kv. put h (fst kv) (snd kv)) h kvs"

lemma puts_snoc: "puts h (kvs @ [kv]) = put (puts h kvs) (fst kv) (snd kv)"
  by (simp add: puts_def)

lemma get_puts: "get (puts h kvs) k = (case map_of (rev kvs) k of Some v \<Rightarrow> v | None \<Rightarrow> get h k)"
proof (induction kvs rule: rev_induct)
  case Nil
  then show ?case by (simp add: puts_def)
next
  case (snoc kv kvs)
  then show ?case by (cases "fst kv = k") (auto simp: puts_snoc get_put get_put_other)
qed

end

lemma Headers_get_append: "Headers_assign hs k v = None \<Longrightarrow>
    Headers_get (hs @ [(k, v)]) j = (if j = k then v else Headers_get hs j)"
  by (induction hs) (auto split: if_splits)

lemma Headers_get_assign: "Headers_assign hs k v = Some hs1 \<Longrightarrow>
    Headers_get hs1 j = (if j = k then v else Headers_get hs j)"
  by (induction hs arbitrary: hs1) (auto split: if_splits)

lemma Headers_get_set: "Headers_get (Headers_set hs k v) j = (if j = k then v else Headers_get hs j)"
  by (simp add: Headers_set_def Headers_append_def Headers_get_append Headers_get_assign split: option.split)

interpretation fields: header_fields Headers_get Headers_set
  by unfold_locales (simp_all add: Headers_get_set)

text \<open>C38. \<^verbatim>\<open>Headers\<close> behaves as a dictionary under any sequence of \<^verbatim>\<open>set\<close> calls: a lookup gives
  the value set last for the key, or what the headers held before; and no other field moves.\<close>

theorem headers_dictionary:
  "Headers_get (foldl (\<lambda>hs kv. Headers_set hs (fst kv) (snd kv)) hs kvs) k =
     (case map_of (rev kvs) k of Some v \<Rightarrow> v | None \<Rightarrow> Headers_get hs k)"
  using fields.get_puts [of hs kvs k] by (simp add: fields.puts_def)

section \<open>Properties of responses and routing\<close>

datatype response_op = SetStatus http_status | SetBody string

fun response_step :: "response \<Rightarrow> response_op \<Rightarrow> response" where
  "response_step rs (SetStatus st) = Response_setStatus st rs"
| "response_step rs (SetBody body) = Response_setBody body rs"

fun last_status :: "response_op list \<Rightarrow> http_status" where
  "last_status [] = OK"
| "last_status (SetStatus st # ops) = st"
| "last_status (SetBody _ # ops) = last_status ops"

fun last_body :: "response_op list \<Rightarrow> string" where
  "last_body [] = []"
| "last_body (SetBody b # ops) = b"
| "last_body (SetStatus _ # ops) = last_body ops"

lemma nat_to_string_0: "nat_to_string 0 = ''0''"
  by (simp add: nat_to_string.simps digit_char_def char_of_def bit_simps)

lemma response_after:
  "foldl response_step Response_new ops =
    \<lparr>rs_status = last_status (rev ops), rs_version = V11,
     rs_headers = [(''Connection'', ''Keep-Alive''),
       (''Content-Length'', nat_to_string (length (last_body (rev ops))))],
     rs_body = last_body (rev ops)\<rparr>"
proof (induction ops rule: rev_induct)
  case Nil
  then show ?case using nat_to_string_0 by (simp add: Response_new_def)
next
  case (snoc op ops)
  then show ?case
    by (cases op) (simp_all add: Response_setStatus_def Response_setBody_def Headers_set_def)
qed

text \<open>C39. Whatever a handler does to a response with its public operations, in whatever order, the
  bytes sent are the status line of the last status, \<^verbatim>\<open>Connection\<close>, a \<^verbatim>\<open>Content-Length\<close> whose
  value is the decimal length of the body that follows, an empty line and the last body.\<close>

theorem response_bytes:
  "Response_toString (foldl response_step Response_new ops) =
     ''HTTP/1.1 '' @ nat_to_string (status_int (last_status (rev ops))) @ '' '' @ StatusMsgs (last_status (rev ops)) @ crlf @
     ''Connection: Keep-Alive'' @ crlf @
     ''Content-Length: '' @ nat_to_string (length (last_body (rev ops))) @ crlf @ crlf @ last_body (rev ops)"
  by (simp add: response_after Response_toString_def)

text \<open>The response to a parsed request, and the whole callback.\<close>

definition http_reply ::
  "(http_method \<times> string \<rightharpoonup> route_func) \<Rightarrow> request \<Rightarrow> http_exn option \<Rightarrow> response" where
  "http_reply routes rq exn = (if exn = None then
     (case routes (rq_method rq, rq_path rq) of
        None \<Rightarrow> Response_setStatus NotFound Response_new
      | Some f \<Rightarrow> (case f rq Response_new of
          (rs, None) \<Rightarrow> rs
        | (rs, Some e) \<Rightarrow> Response_setStatus (status_of_int (exn_code e)) rs))
     else Response_setStatus BadRequest Response_new)"

lemma Server_msgCallback_spec:
  assumes "buffer_wf b" and "length (buffer_contents b) < 9223372036854775808"
    and spec: "http_parse Request_new (buffer_contents b) = Some (rq, rest, exn)"
  shows "\<exists>b1. Server_msgCallback routes b = Inr (b1, Send (Response_toString (http_reply routes rq exn)) #
     (if Headers_get (rq_headers rq) ''Connection'' = ''close'' then [Shutdown] else [])) \<and>
     buffer_wf b1 \<and> buffer_contents b1 = rest"
proof -
  obtain b1 where b1: "Request_readBuffer Request_new b = Inr (rq, b1, exn)" "buffer_wf b1" "buffer_contents b1 = rest"
    using readBuffer_parses [OF assms(1,2), of Request_new] spec by (auto simp: parses_as_simps)
  have bad: "e = BadRequestException" if "exn = Some e" for e
    using spec that http_parse_throws by blast
  show ?thesis
  proof (cases exn)
    case None
    with b1 show ?thesis
      by (auto simp: Server_msgCallback_def http_reply_def Request_getHeader_def status_of_int_def Let_def
          split: option.split prod.split)
  next
    case (Some e)
    with b1 bad show ?thesis
      by (simp add: Server_msgCallback_def http_reply_def Request_getHeader_def status_of_int_def Let_def)
  qed
qed

text \<open>The server answers every request it can read from one buffer with exactly one response:
  what the handler of the route made of it, status 404 with an empty body when there is no
  route, or 400 with an empty body when the request is malformed; and it shuts the connection
  down exactly when the headers read so far ask for it.\<close>

theorem msgCallback_routes:
  assumes "buffer_wf b" and "length (buffer_contents b) < 9223372036854775808"
    and spec: "http_parse Request_new (buffer_contents b) = Some (rq, rest, exn)"
  shows "\<exists>b1. Server_msgCallback routes b = Inr (b1,
     Send (Response_toString (if exn = None then
        (case routes (rq_method rq, rq_path rq) of
           None \<Rightarrow> Response_setStatus NotFound Response_new
         | Some f \<Rightarrow> (case f rq Response_new of
             (rs, None) \<Rightarrow> rs
           | (rs, Some e) \<Rightarrow> Response_setStatus (status_of_int (exn_code e)) rs))
        else Response_setStatus BadRequest Response_new)) #
     (if Headers_get (rq_headers rq) ''Connection'' = ''close'' then [Shutdown] else [])) \<and>
     buffer_contents b1 = rest"
  using Server_msgCallback_spec [OF assms, of routes] unfolding http_reply_def by blast

lemma msgCallback_routes_witness:
  "\<exists>b1. Server_msgCallback
      (Server_route GET ''/'' (\<lambda>rq rs. (Response_setBody ''Hello'' rs, None)) Map.empty)
      \<lparr>buf_idx = 0, buf_data = render_request GET ''/'' V11 [(''Connection'', ''close'')] [], buf_capacity = 99\<rparr> =
    Inr (b1, [Send (Response_toString (Response_setBody ''Hello'' Response_new)), Shutdown]) \<and>
    buffer_contents b1 = []"
proof -
  let ?b = "\<lparr>buf_idx = 0, buf_data = render_request GET ''/'' V11 [(''Connection'', ''close'')] [], buf_capacity = 99\<rparr>"
  have c: "buffer_contents ?b = render_request GET ''/'' V11 [(''Connection'', ''close'')] []"
    by (simp add: buffer_contents_def)
  have "length (buf_data ?b) < 99"
    by (simp add: render_request_def render_headers_def render_line_def crlf_def)
  then have wf: "buffer_wf ?b" and len: "length (buffer_contents ?b) < 9223372036854775808"
    by (simp_all add: buffer_wf_def buffer_contents_def)
  have "http_parse Request_new (buffer_contents ?b) = Some (\<lparr>rq_method = GET, rq_version = V11,
      rq_path = ''/'', rq_query = [], rq_headers = [(''Connection'', ''close'')], rq_body = []\<rparr>, [], None)"
    unfolding c by (rule http_parse_render) (simp_all add: path_ok_def header_ok_def)
  from msgCallback_routes [OF wf len this,
      of "Server_route GET ''/'' (\<lambda>rq rs. (Response_setBody ''Hello'' rs, None)) Map.empty"]
  show ?thesis by (simp add: Server_route_def)
qed

end
