(* ===== verification/Lotta_Http_Server.thy ===== *)
theory Lotta_Http_Server
  imports Lotta_Http Lotta_Tcp_Server
begin

text \<open>
  \<^verbatim>\<open>http::Server\<close> (\<^verbatim>\<open>src/http/server.cc\<close>) put together: its \<^verbatim>\<open>TcpServer\<close>, and its message
  callback on a real connection, with the response sent and the connection shut down through
  \<^verbatim>\<open>TcpConnection\<close>.
\<close>

section \<open>The server object\<close>

record 'l http_server =
  hs_tcp :: "'l server"
  hs_routes :: "http_method \<times> string \<rightharpoonup> route_func"

definition Server_new :: "'l \<Rightarrow> string \<Rightarrow> 'l http_server" where
  "Server_new loop name = \<lparr>hs_tcp = TcpServer_new loop name, hs_routes = Map.empty\<rparr>"

definition Server_run :: "(nat \<Rightarrow> 'l) \<Rightarrow> 'l http_server \<Rightarrow> 'l http_server res" where
  "Server_run mk s = bindR (TcpServer_start mk (hs_tcp s)) (\<lambda>t. Inr (s\<lparr>hs_tcp := t\<rparr>))"

definition Server_setThreadNum :: "32 word \<Rightarrow> 'l http_server \<Rightarrow> 'l http_server" where
  "Server_setThreadNum n s = s\<lparr>hs_tcp := TcpServer_setThreadNum n (hs_tcp s)\<rparr>"

text \<open>
  The hash function of \<^verbatim>\<open>routes_\<close>, over a hash of strings; \<^verbatim>\<open>std::hash<int>\<close> of libstdc++ is the
  identity. The two hashes are combined with \<^verbatim>\<open>&\<close>.
\<close>

fun method_int :: "http_method \<Rightarrow> int" where
  "method_int OPTIONS = 0"
| "method_int GET = 1"
| "method_int HEAD = 2"
| "method_int POST = 3"
| "method_int PUT = 4"
| "method_int DELETE = 5"
| "method_int TRACE = 6"
| "method_int CONNECT = 7"

definition route_hash :: "(string \<Rightarrow> 64 word) \<Rightarrow> http_method \<times> string \<Rightarrow> 64 word" where
  "route_hash hash_string key = and (word_of_int (method_int (fst key))) (hash_string (snd key))"

text \<open>Whatever the strings' hash, there are at most eight values, and two for all \<^verbatim>\<open>GET\<close> routes.\<close>

lemma route_hash_small: "route_hash h key < 8" "route_hash h (GET, path) \<in> {0, 1}"
proof -
  have "and (word_of_int (method_int (fst key))) (h (snd key)) \<le> word_of_int (method_int (fst key))"
    by (rule word_and_le2)
  also have "word_of_int (method_int (fst key)) < (8 :: 64 word)" by (cases "fst key") simp_all
  finally show "route_hash h key < 8" by (simp add: route_hash_def)
  show "route_hash h (GET, path) \<in> {0, 1}" by (auto simp: route_hash_def one_and_eq)
qed

section \<open>The message callback on a connection\<close>

fun conn_perform :: "conn_env \<Rightarrow> conn_action list \<Rightarrow> tcp_conn \<Rightarrow> tcp_conn res" where
  "conn_perform env [] c = Inr c"
| "conn_perform env (Send msg # acts) c = bindR (TcpConnection_send env True msg c) (conn_perform env acts)"
| "conn_perform env (Shutdown # acts) c = bindR (TcpConnection_shutdown True c) (conn_perform env acts)"

definition Server_msgCallback_conn ::
  "(http_method \<times> string \<rightharpoonup> route_func) \<Rightarrow> conn_env \<Rightarrow> tcp_conn \<Rightarrow> tcp_conn res" where
  "Server_msgCallback_conn routes env c =
     bindR (Server_msgCallback routes (cn_in c)) (\<lambda>(b, acts). conn_perform env acts (c\<lparr>cn_in := b\<rparr>))"

text \<open>The constructor replaces the callbacks of its \<^verbatim>\<open>TcpServer\<close>; two of its own only log.\<close>

definition Server_connCallback :: "tcp_conn \<Rightarrow> tcp_conn res" where
  "Server_connCallback c = Inr c"

definition Server_closeCallback :: "tcp_conn \<Rightarrow> tcp_conn res" where
  "Server_closeCallback c = Inr c"

definition Server_callbacks :: "(http_method \<times> string \<rightharpoonup> route_func) \<Rightarrow> conn_env \<Rightarrow> owner_callbacks" where
  "Server_callbacks routes env = TcpServer_setCloseCallback Server_closeCallback
     (TcpServer_setMsgCallback (Server_msgCallback_conn routes env)
       (TcpServer_setConnCallback Server_connCallback (TcpServer_callbacks env)))"

definition Server_env :: "(http_method \<times> string \<rightharpoonup> route_func) \<Rightarrow> conn_env \<Rightarrow> conn_env" where
  "Server_env routes env = TcpServer_setCallbacks Inr (Server_callbacks routes env) env"

text \<open>Sending the response and shutting down.\<close>

lemma conn_perform_reply:
  assumes opened: "conn_open c" and env: "env_ok env" and "cn_state c = Connected" "\<not> cn_fin c"
    and roomy: "\<not> buffer_exhausted (cn_out c)" and ret: "\<forall>k m. 0 \<le> env_write env k m"
    and len: "length msg < size_max1"
  shows "\<exists>c1. conn_perform env (Send msg # (if close then [Shutdown] else [])) c = Inr c1 \<and> conn_open c1 \<and>
     conn_stream c1 = conn_stream c @ msg \<and> cn_refs c1 = cn_refs c \<and> cn_in c1 = cn_in c \<and>
     cn_state c1 = (if close then Disconnecting else Connected) \<and>
     (cn_fin c1 \<longleftrightarrow> close \<and> buffer_contents (cn_out c1) = [])"
proof -
  obtain c2 where c2: "TcpConnection_sendTask env msg c = Inr c2" "conn_open c2"
    "conn_stream c2 = conn_stream c @ msg" "cn_state c2 = Connected" "cn_fin c2 = cn_fin c"
    "cn_refs c2 = cn_refs c" "cn_in c2 = cn_in c"
    using sendTask_stream [OF opened env roomy _ len] ret assms(3) by auto
  let ?c3 = "c2\<lparr>cn_state := Disconnecting\<rparr>"
  let ?c4 = "if buffer_contents (cn_out c2) = [] then ?c3\<lparr>cn_fin := True\<rparr> else ?c3"
  have open3: "conn_open ?c3" and open4: "conn_open ?c4"
    using c2(2) by (auto simp: conn_open_def conn_channel_def conn_mask_def)
  have stop: "TcpConnection_shutdown True c2 = Inr ?c4"
    using shutdownTask_open [OF open3] c2(4) by (simp add: TcpConnection_shutdown_def)
  show ?thesis
  proof (cases close)
    case True
    then show ?thesis
      using c2 stop open4 assms(3,4)
      by (intro exI [of _ ?c4]) (auto simp: TcpConnection_send_def conn_stream_def)
  next
    case False
    then show ?thesis using c2 assms(3,4) by (simp add: TcpConnection_send_def)
  qed
qed

lemma Server_env_simps [simp]:
  "env_grow (Server_env routes env) = env_grow env"
  "env_user (Server_env routes env) MsgCallback = Server_msgCallback_conn routes env"
  "env_user (Server_env routes env) ConnCallback = Inr"
  by (simp_all add: Server_env_def Server_callbacks_def TcpServer_setCloseCallback_def
      TcpServer_setMsgCallback_def TcpServer_setConnCallback_def Server_connCallback_def fun_eq_iff)

text \<open>One exchange, end to end.\<close>

lemma http_exchange_spec:
  assumes opened: "conn_open c" and env: "env_ok env" and state: "cn_state c = Connected" "\<not> cn_fin c" "cn_refs c \<noteq> 0"
    and roomy: "\<not> buffer_exhausted (cn_in c)" "\<not> buffer_exhausted (cn_out c)" and "buffer_contents (cn_in c) = []"
    and req: "bs = render_request m path v hs body" "path_ok path" "\<forall>h \<in> set hs. header_ok h"
    and ret: "\<forall>k m. 0 \<le> env_write env k m" and short: "length bs < 9223372036854775808"
    and rq: "rq = \<lparr>rq_method = m, rq_version = v, rq_path = path, rq_query = [], rq_headers = hs, rq_body = body\<rparr>"
    and reply: "msg = Response_toString (http_reply routes rq None)" "length msg < size_max1"
  shows "\<exists>c1. TcpConnection_handleRead (Server_env routes env) (length bs) (Some bs) c = Inr c1 \<and>
     conn_open c1 \<and> buffer_contents (cn_in c1) = [] \<and>
     cn_wire c1 @ buffer_contents (cn_out c1) = cn_wire c @ buffer_contents (cn_out c) @ msg \<and>
     cn_state c1 = (if Headers_get hs ''Connection'' = ''close'' then Disconnecting else Connected) \<and>
     (cn_fin c1 \<longleftrightarrow> Headers_get hs ''Connection'' = ''close'' \<and> buffer_contents (cn_out c1) = [])"
proof -
  let ?env = "Server_env routes env" and ?close = "Headers_get hs ''Connection'' = ''close''"
  have grow: "grow_ok (env_grow ?env)" using env by (simp add: env_ok_def)
  have "bs \<noteq> []" by (cases m) (simp_all add: req(1) render_request_def)
  then obtain b where b: "buffer_wf b" "buffer_contents b = buffer_contents (cn_in c) @ bs"
    "TcpConnection_handleRead ?env (length bs) (Some bs) c = conn_callback ?env MsgCallback (c\<lparr>cn_in := b\<rparr>)"
    using handleRead_message [OF opened grow] roomy(1) by (auto simp: buffer_reexposed_def)
  have contents: "buffer_contents b = render_request m path v hs body" using b(2) assms(8) req(1) by simp
  have parsed: "http_parse Request_new (buffer_contents b) = Some (rq, [], None)"
    using http_parse_render [OF req(2,3)] by (simp add: contents rq)
  have "length (buffer_contents b) < 9223372036854775808" using short contents req(1) by simp
  from Server_msgCallback_spec [OF b(1) this parsed, of routes] obtain b1 where b1:
    "Server_msgCallback routes b = Inr (b1, Send msg # (if ?close then [Shutdown] else []))"
    "buffer_wf b1" "buffer_contents b1 = []"
    using reply(1) rq by auto
  have open1: "conn_open (c\<lparr>cn_in := b1\<rparr>)" using conn_open_in [OF opened b1(2)] .
  obtain c1 where c1: "conn_perform env (Send msg # (if ?close then [Shutdown] else [])) (c\<lparr>cn_in := b1\<rparr>) = Inr c1"
    "conn_open c1" "conn_stream c1 = conn_stream (c\<lparr>cn_in := b1\<rparr>) @ msg" "cn_refs c1 = cn_refs (c\<lparr>cn_in := b1\<rparr>)"
    "cn_in c1 = cn_in (c\<lparr>cn_in := b1\<rparr>)" "cn_state c1 = (if ?close then Disconnecting else Connected)"
    "cn_fin c1 \<longleftrightarrow> ?close \<and> buffer_contents (cn_out c1) = []"
    using conn_perform_reply [OF open1 env _ _ _ ret reply(2), of ?close] state roomy(2) by auto
  have "env_user ?env MsgCallback (c\<lparr>cn_in := b\<rparr>) = Inr c1"
    using b1(1) c1(1) by (simp add: Server_msgCallback_conn_def del: conn_perform.simps)
  then have "conn_callback ?env MsgCallback (c\<lparr>cn_in := b\<rparr>) = Inr c1"
    using conn_callback_keeps [OF conn_open_in [OF opened b(1)]] c1(4) state(3) by simp
  then show ?thesis
    using b(3) c1 b1(3) by (intro exI [of _ c1]) (simp add: conn_stream_def)
qed

section \<open>Properties\<close>

text \<open>C6. One exchange, end to end: when a rendered well-formed request arrives in one piece on an open
  connection of an HTTP server, the bytes of exactly one response, the handler's or the 404, are
  appended to the outgoing stream, nothing of the request stays behind, and the connection is shut
  down (after its last byte) exactly when the request says \<^verbatim>\<open>Connection: close\<close>; provided no
  buffer is exhausted and the kernel does not fail the write.\<close>

theorem http_exchange:
  assumes opened: "conn_open c" and env: "env_ok env" and state: "cn_state c = Connected" "\<not> cn_fin c" "cn_refs c \<noteq> 0"
    and roomy: "\<not> buffer_exhausted (cn_in c)" "\<not> buffer_exhausted (cn_out c)" and "buffer_contents (cn_in c) = []"
    and req: "bs = render_request m path v hs body" "path_ok path" "\<forall>h \<in> set hs. header_ok h"
    and ret: "\<forall>k m. 0 \<le> env_write env k m" and short: "length bs < 9223372036854775808"
    and rq: "rq = \<lparr>rq_method = m, rq_version = v, rq_path = path, rq_query = [], rq_headers = hs, rq_body = body\<rparr>"
    and reply: "msg = Response_toString (http_reply routes rq None)" "length msg < size_max1"
  shows "\<exists>c1. TcpConnection_handleRead (Server_env routes env) (length bs) (Some bs) c = Inr c1 \<and>
     conn_open c1 \<and> buffer_contents (cn_in c1) = [] \<and>
     cn_wire c1 @ buffer_contents (cn_out c1) = cn_wire c @ buffer_contents (cn_out c) @ msg \<and>
     cn_state c1 = (if Headers_get hs ''Connection'' = ''close'' then Disconnecting else Connected) \<and>
     (cn_fin c1 \<longleftrightarrow> Headers_get hs ''Connection'' = ''close'' \<and> buffer_contents (cn_out c1) = [])"
  by (rule http_exchange_spec [OF assms])

lemma http_exchange_witness:
  "\<exists>c1. TcpConnection_handleRead (Server_env Map.empty (quiet_env (\<lambda>k n. int n)))
      (length (render_request GET ''/'' V11 [(''Connection'', ''close'')] []))
      (Some (render_request GET ''/'' V11 [(''Connection'', ''close'')] [])) (sample_conn (Buffer_new 8)) = Inr c1 \<and>
    cn_wire c1 @ buffer_contents (cn_out c1) = Response_toString (Response_setStatus NotFound Response_new) \<and>
    cn_state c1 = Disconnecting"
proof -
  let ?c = "sample_conn (Buffer_new 8)" and ?env = "quiet_env (\<lambda>k n. int n)"
  let ?bs = "render_request GET ''/'' V11 [(''Connection'', ''close'')] []"
  let ?rq = "\<lparr>rq_method = GET, rq_version = V11, rq_path = ''/'', rq_query = [],
    rq_headers = [(''Connection'', ''close'')], rq_body = []\<rparr>"
  have empty: "buffer_contents (Buffer_new k) = []" "\<not> buffer_exhausted (Buffer_new 8)"
    "\<not> buffer_exhausted (Buffer_new kInitLen)" for k
    by (simp_all add: buffer_contents_def buffer_exhausted_def Buffer_new_def kInitLen_def)
  have opened: "conn_open ?c" by (rule sample_conn_open) simp_all
  have env: "env_ok ?env" by (rule quiet_env_ok) simp
  have c: "cn_state ?c = Connected" "\<not> cn_fin ?c" "cn_refs ?c \<noteq> 0" "\<not> buffer_exhausted (cn_in ?c)"
    "\<not> buffer_exhausted (cn_out ?c)" "buffer_contents (cn_in ?c) = []" "cn_wire ?c = []" "cn_out ?c = Buffer_new 8"
    using empty by (simp_all add: sample_conn_def)
  have req: "path_ok ''/''" "\<forall>h \<in> set [(''Connection'', ''close'')]. header_ok h"
    by (simp_all add: path_ok_def header_ok_def)
  have wr: "\<forall>k m. 0 \<le> env_write ?env k m" by (simp add: quiet_env_def)
  have short: "length ?bs < 9223372036854775808"
    by (simp add: render_request_def render_headers_def render_line_def crlf_def)
  have reply: "http_reply Map.empty ?rq None = Response_setStatus NotFound Response_new"
    by (simp add: http_reply_def)
  have "length (Response_toString (Response_setStatus NotFound Response_new)) < 100" by code_simp
  then have len: "length (Response_toString (http_reply Map.empty ?rq None)) < size_max1"
    unfolding reply size_max1_def by simp
  have close: "Headers_get [(''Connection'', ''close'')] ''Connection'' = ''close''" by code_simp
  show ?thesis
    using http_exchange [OF opened env c(1-6) refl req wr short refl refl len] close c(7,8) empty(1)
    unfolding reply by auto
qed

end
