(* ===== verification/Lotta_Example.thy ===== *)
theory Lotta_Example
  imports Lotta_Http_Server
begin

text \<open>
  The program \<^verbatim>\<open>example/http_server.cc\<close>: an HTTP server with one route on a pool of eight threads,
  from its set-up to the bytes of its answers.
\<close>

section \<open>The program\<close>

text \<open>The handler of the route.\<close>

definition hello :: route_func where
  "hello req resp = (Response_setBody ''Hello world!'' resp, None)"

definition hello_routes :: "http_method \<times> string \<rightharpoonup> route_func" where
  "hello_routes = Server_route GET ''/'' hello Map.empty"

text \<open>\<^verbatim>\<open>main\<close> up to \<^verbatim>\<open>loop.loop()\<close>; \<open>mk\<close> gives the loops of the threads that the pool starts.\<close>

definition example_main :: "(nat \<Rightarrow> 'l) \<Rightarrow> 'l \<Rightarrow> 'l http_server res" where
  "example_main mk loop =
     (let server = Server_new loop ''LottaServer'';
          server1 = server\<lparr>hs_routes := Server_route GET ''/'' hello (hs_routes server)\<rparr>;
          server2 = Server_setThreadNum 8 server1
      in Server_run mk server2)"

section \<open>What it answers\<close>

definition hello_response :: string where
  "hello_response = ''HTTP/1.1 200 OK'' @ crlf @ ''Connection: Keep-Alive'' @ crlf @ ''Content-Length: 12'' @ crlf @ crlf @
     ''Hello world!''"

definition missing_response :: string where
  "missing_response = ''HTTP/1.1 404 Not Found'' @ crlf @ ''Connection: Keep-Alive'' @ crlf @ ''Content-Length: 0'' @ crlf @ crlf"

lemma hello_reply:
  "Response_toString (http_reply hello_routes rq None) =
     (if rq_method rq = GET \<and> rq_path rq = ''/'' then hello_response else missing_response)"
proof -
  have "Response_toString (Response_setBody ''Hello world!'' Response_new) = hello_response"
    "Response_toString (Response_setStatus NotFound Response_new) = missing_response"
    by code_simp+
  then show ?thesis by (simp add: http_reply_def hello_routes_def Server_route_def hello_def)
qed

lemma reply_length: "length (if b then hello_response else missing_response) < size_max1"
proof -
  have "length hello_response < 200" "length missing_response < 200" by code_simp+
  then show ?thesis by (simp add: size_max1_def)
qed

lemma example_main_runs:
  "\<exists>s. example_main mk loop = Inr s \<and> hs_routes s = hello_routes \<and>
     server_reach loop ''LottaServer'' mk 8 (hs_tcp s) \<and> sv_listening (hs_tcp s)"
proof -
  obtain t where t: "TcpServer_start mk (TcpServer_setThreadNum 8 (TcpServer_new loop ''LottaServer'')) = Inr t" "sv_listening t"
    using server_start_inv [of mk 8 loop "''LottaServer''"] by blast
  then show ?thesis
    using server_reach.start [OF t(1)]
    by (simp add: example_main_def Server_new_def Server_setThreadNum_def Server_run_def hello_routes_def)
qed

section \<open>Properties\<close>

text \<open>C25. The example program, from its start to the answer: \<^verbatim>\<open>main\<close> sets up a listening server over eight
  loops, and when a client's connection has been established on any of them, its first request is
  well formed and arrives in one piece, and no \<^verbatim>\<open>write\<close> fails, then what is handed to the kernel is
  exactly the response with the body \<^verbatim>\<open>Hello world!\<close> for \<^verbatim>\<open>GET /\<close> and the 404 response for every other
  such request, after which the connection waits for the next request or, when the client asked
  for it, shuts down.\<close>

theorem example_serves:
  assumes loop: "poller_rep w cs" "slots_live w" "d \<notin> set cs" and fd: "0 \<le> fd" "fd \<notin> dom (pw_map w)"
    and env: "env_ok env" and ret: "\<forall>k m. 0 \<le> env_write env k m"
    and req: "bs = render_request m path v hs body" "path_ok path" "\<forall>h \<in> set hs. header_ok h"
    and short: "length bs < 9223372036854775808"
  shows "\<exists>s c c1. example_main mk loop = Inr s \<and> server_reach loop ''LottaServer'' mk 8 (hs_tcp s) \<and> sv_listening (hs_tcp s) \<and>
     TcpConnection_connEstablished (Server_env (hs_routes s) env) (TcpConnection_new w d name fd) = Inr c \<and>
     TcpConnection_handleRead (Server_env (hs_routes s) env) (length bs) (Some bs) c = Inr c1 \<and>
     cn_wire c1 @ buffer_contents (cn_out c1) = (if m = GET \<and> path = ''/'' then hello_response else missing_response) \<and>
     buffer_contents (cn_in c1) = [] \<and>
     cn_state c1 = (if Headers_get hs ''Connection'' = ''close'' then Disconnecting else Connected)"
proof -
  let ?c = "TcpConnection_new w d name fd"
  obtain s where s: "example_main mk loop = Inr s" "hs_routes s = hello_routes"
    "server_reach loop ''LottaServer'' mk 8 (hs_tcp s)" "sv_listening (hs_tcp s)"
    using example_main_runs [of mk loop] by (elim exE conjE) (rule that)
  obtain w1 where c: "TcpConnection_connEstablished (Server_env hello_routes env) ?c =
      Inr (?c\<lparr>cn_state := Connected, cn_pw := w1\<rparr>)" "conn_open (?c\<lparr>cn_state := Connected, cn_pw := w1\<rparr>)"
    using connEstablished_spec [OF loop fd, of "Server_env hello_routes env" name] by auto
  let ?rq = "\<lparr>rq_method = m, rq_version = v, rq_path = path, rq_query = [], rq_headers = hs, rq_body = body\<rparr>"
  have fields: "cn_state (?c\<lparr>cn_state := Connected, cn_pw := w1\<rparr>) = Connected"
    "\<not> cn_fin (?c\<lparr>cn_state := Connected, cn_pw := w1\<rparr>)" "cn_refs (?c\<lparr>cn_state := Connected, cn_pw := w1\<rparr>) \<noteq> 0"
    "\<not> buffer_exhausted (cn_in (?c\<lparr>cn_state := Connected, cn_pw := w1\<rparr>))"
    "\<not> buffer_exhausted (cn_out (?c\<lparr>cn_state := Connected, cn_pw := w1\<rparr>))"
    "buffer_contents (cn_in (?c\<lparr>cn_state := Connected, cn_pw := w1\<rparr>)) = []"
    "cn_wire (?c\<lparr>cn_state := Connected, cn_pw := w1\<rparr>) = []"
    "buffer_contents (cn_out (?c\<lparr>cn_state := Connected, cn_pw := w1\<rparr>)) = []"
    by (simp_all add: TcpConnection_new_def Buffer_new_def buffer_exhausted_def buffer_contents_def kInitLen_def)
  have reply: "Response_toString (http_reply hello_routes ?rq None) =
      (if m = GET \<and> path = ''/'' then hello_response else missing_response)"
    by (simp add: hello_reply)
  have len: "length (Response_toString (http_reply hello_routes ?rq None)) < size_max1"
    unfolding reply by (rule reply_length)
  obtain c1 where c1:
    "TcpConnection_handleRead (Server_env hello_routes env) (length bs) (Some bs) (?c\<lparr>cn_state := Connected, cn_pw := w1\<rparr>) = Inr c1"
    "buffer_contents (cn_in c1) = []"
    "cn_wire c1 @ buffer_contents (cn_out c1) = (if m = GET \<and> path = ''/'' then hello_response else missing_response)"
    "cn_state c1 = (if Headers_get hs ''Connection'' = ''close'' then Disconnecting else Connected)"
    using http_exchange_spec [OF c(2) env fields(1-6) req ret short refl refl len]
    unfolding reply fields(7,8) append_Nil by blast
  show ?thesis
    by (rule exI [of _ s], rule exI [of _ "?c\<lparr>cn_state := Connected, cn_pw := w1\<rparr>"], rule exI [of _ c1])
      (intro conjI s(1,3,4) c(1) [folded s(2)] c1(1) [folded s(2)] c1(2-4))
qed


lemma example_serves_witness:
  "\<exists>s c c1. example_main id 9 = Inr s \<and>
     TcpConnection_connEstablished (Server_env (hs_routes s) (quiet_env (\<lambda>k n. int n)))
       (TcpConnection_new PollPoller_new 0 ''c'' 5) = Inr c \<and>
     TcpConnection_handleRead (Server_env (hs_routes s) (quiet_env (\<lambda>k n. int n)))
       (length (render_request GET ''/'' V11 [] [])) (Some (render_request GET ''/'' V11 [] [])) c = Inr c1 \<and>
     cn_wire c1 @ buffer_contents (cn_out c1) = hello_response"
proof -
  let ?bs = "render_request GET ''/'' V11 [] []" and ?env = "quiet_env (\<lambda>k n. int n)"
  have w: "slots_live (PollPoller_new :: io_handler pworld)" "(5 :: int) \<notin> dom (pw_map (PollPoller_new :: io_handler pworld))"
    by (simp_all add: slots_live_def PollPoller_new_def)
  have env: "env_ok ?env" "\<forall>k m. 0 \<le> env_write ?env k m" by (rule quiet_env_ok) (simp_all add: quiet_env_def)
  have req: "path_ok ''/''" "length ?bs < 9223372036854775808"
    by (simp_all add: path_ok_def render_request_def render_headers_def render_line_def crlf_def)
  show ?thesis
    using example_serves [OF poller_rep_new w(1) _ _ w(2) env refl req(1) _ req(2), of 0 id "9 :: nat" "''c''"] by auto
qed

end
