(* ===== verification/Lotta_Http_Loop.thy ===== *)
theory Lotta_Http_Loop
  imports Lotta_Io_Server Lotta_Example
begin

text \<open>
  The I/O loop of an HTTP server: \<^verbatim>\<open>http::Server\<close> (\<^verbatim>\<open>src/http/server.cc\<close>) as an application of
  \<open>io_app\<close>, so that requests that arrive through \<^verbatim>\<open>poll\<close> on many connections are answered by
  \<^verbatim>\<open>EventLoop::loop\<close> itself.
\<close>

section \<open>The HTTP server is an application\<close>

text \<open>It deals with what it can read as a request, malformed ones included, in one piece; on what it
  cannot, the parser runs into undefined behaviour.\<close>

definition http_accepts :: "buffer \<Rightarrow> string \<Rightarrow> bool" where
  "http_accepts b bs \<longleftrightarrow> length (buffer_reexposed b @ bs) < 9223372036854775808 \<and>
     http_parse Request_new (buffer_reexposed b @ bs) \<noteq> None"

text \<open>Each message gets the response to the request that the parser makes of what was left and what
  arrived; what the parser leaves waits for the next message. A request that says
  \<^verbatim>\<open>Connection: close\<close> ends the connection.\<close>

definition http_serve :: "(http_method \<times> string \<rightharpoonup> route_func) \<Rightarrow> string \<Rightarrow> string \<Rightarrow> (string \<times> string) option" where
  "http_serve routes l bs = (case http_parse Request_new (l @ bs) of
     None \<Rightarrow> None
   | Some (rq, rest, exn) \<Rightarrow> if Headers_get (rq_headers rq) ''Connection'' = ''close'' then None
       else Some (Response_toString (http_reply routes rq exn), rest))"

lemma others_kept_trans: "others_kept d w w1 \<Longrightarrow> others_kept d w1 w2 \<Longrightarrow> others_kept d w w2"
proof -
  assume first: "others_kept d w w1" and second: "others_kept d w1 w2"
  have "\<exists>i. pw_store w2 e = map_option (\<lambda>ch. ch\<lparr>ch_idxPoll := i\<rparr>) (pw_store w e)" if ne: "e \<noteq> d" for e
  proof -
    obtain i j where "pw_store w1 e = map_option (\<lambda>ch. ch\<lparr>ch_idxPoll := i\<rparr>) (pw_store w e)"
      "pw_store w2 e = map_option (\<lambda>ch. ch\<lparr>ch_idxPoll := j\<rparr>) (pw_store w1 e)"
      using first second ne unfolding others_kept_def by metis
    then show ?thesis by (intro exI [of _ j]) (simp add: option.map_comp comp_def)
  qed
  then show ?thesis using first second unfolding others_kept_def by auto
qed

lemma op_typed_bind:
  assumes "op_typed c r" and "\<And>c1. r = Inr c1 \<Longrightarrow> conn_typed (cn_pw c1) (cn_chan c1) c1 \<Longrightarrow> op_typed c1 (f c1)"
  shows "op_typed c (bindR r f)"
proof -
  obtain c1 where c1: "r = Inr c1" "conn_typed (cn_pw c1) (cn_chan c) c1" "others_kept (cn_chan c) (cn_pw c) (cn_pw c1)"
    using assms(1) by (auto simp: op_typed_def)
  have chan: "cn_chan c1 = cn_chan c" using c1(2) by (simp add: conn_typed_def)
  then obtain c2 where "f c1 = Inr c2" "conn_typed (cn_pw c2) (cn_chan c) c2" "others_kept (cn_chan c) (cn_pw c1) (cn_pw c2)"
    using assms(2) [OF c1(1)] c1(2) by (auto simp: op_typed_def)
  then show ?thesis using c1 others_kept_trans by (auto simp: op_typed_def)
qed

lemma op_typed_reps:
  assumes "op_typed c r" "r = Inr c1"
  shows "\<exists>cs. poller_rep (cn_pw c1) cs" and "slots_live (cn_pw c1)"
  using assms by (auto simp: op_typed_def others_kept_def)

lemma perform_typed:
  assumes env: "env_ok env"
  shows "conn_typed (cn_pw c) (cn_chan c) c \<Longrightarrow> poller_rep (cn_pw c) cs \<Longrightarrow> slots_live (cn_pw c) \<Longrightarrow>
    op_typed c (conn_perform env acts c)"
proof (induction acts arbitrary: c cs)
  case Nil
  then show ?case by (simp add: op_typed_skip)
next
  case (Cons act acts)
  have first: "op_typed c (case act of Send msg \<Rightarrow> TcpConnection_send env True msg c | Shutdown \<Rightarrow> TcpConnection_shutdown True c)"
    using send_typed [OF Cons.prems env] shutdown_typed [OF Cons.prems] by (cases act) simp_all
  have "op_typed c1 (conn_perform env acts c1)"
    if c1: "(case act of Send msg \<Rightarrow> TcpConnection_send env True msg c | Shutdown \<Rightarrow> TcpConnection_shutdown True c) = Inr c1"
      "conn_typed (cn_pw c1) (cn_chan c1) c1" for c1
  proof -
    obtain cs1 where "poller_rep (cn_pw c1) cs1" using op_typed_reps(1) [OF first c1(1)] by blast
    then show ?thesis using Cons.IH [OF c1(2)] op_typed_reps(2) [OF first c1(1)] by blast
  qed
  from op_typed_bind [OF first this] show ?case by (cases act) simp_all
qed

text \<open>What the message callback does with an accepted message.\<close>

lemma http_message:
  assumes opened: "conn_open c" and env: "env_ok env" and bs: "bs \<noteq> []" and acc: "http_accepts (cn_in c) bs"
  shows "\<exists>b b1 rq rest exn. http_parse Request_new (buffer_reexposed (cn_in c) @ bs) = Some (rq, rest, exn) \<and>
     buffer_wf b \<and> buffer_wf b1 \<and> buffer_contents b1 = rest \<and>
     TcpConnection_handleRead (Server_env routes env) (length bs) (Some bs) c =
       conn_callback (Server_env routes env) MsgCallback (c\<lparr>cn_in := b\<rparr>) \<and>
     env_user (Server_env routes env) MsgCallback (c\<lparr>cn_in := b\<rparr>) =
       conn_perform env (Send (Response_toString (http_reply routes rq exn)) #
         (if Headers_get (rq_headers rq) ''Connection'' = ''close'' then [Shutdown] else [])) (c\<lparr>cn_in := b1\<rparr>)"
proof -
  have grow: "grow_ok (env_grow (Server_env routes env))" using env by (simp add: env_ok_def)
  obtain b where b: "buffer_wf b" "buffer_contents b = buffer_reexposed (cn_in c) @ bs"
    "TcpConnection_handleRead (Server_env routes env) (length bs) (Some bs) c =
       conn_callback (Server_env routes env) MsgCallback (c\<lparr>cn_in := b\<rparr>)"
    using handleRead_message [OF opened grow bs] by blast
  obtain rq rest exn where parsed: "http_parse Request_new (buffer_contents b) = Some (rq, rest, exn)"
    using acc b(2) by (auto simp: http_accepts_def)
  have "length (buffer_contents b) < 9223372036854775808" using acc b(2) by (simp add: http_accepts_def)
  from Server_msgCallback_spec [OF b(1) this parsed, of routes] obtain b1 where
    "Server_msgCallback routes b = Inr (b1, Send (Response_toString (http_reply routes rq exn)) #
       (if Headers_get (rq_headers rq) ''Connection'' = ''close'' then [Shutdown] else []))"
    "buffer_wf b1" "buffer_contents b1 = rest" by blast
  then show ?thesis
    using b parsed
    by (intro exI [of _ b] exI [of _ b1] exI [of _ rq] exI [of _ rest] exI [of _ exn])
      (simp add: Server_msgCallback_conn_def del: conn_perform.simps)
qed

lemma http_typed:
  assumes opened: "conn_open c" and env: "env_ok env" and c: "cn_refs c = 1" "cn_state c \<in> {Connected, Disconnecting}"
    and bs: "bs \<noteq> []" and acc: "http_accepts (cn_in c) bs"
  shows "op_typed c (TcpConnection_handleRead (Server_env routes env) (length bs) (Some bs) c)"
proof -
  obtain b b1 acts where b: "buffer_wf b" "buffer_wf b1"
    "TcpConnection_handleRead (Server_env routes env) (length bs) (Some bs) c =
       conn_callback (Server_env routes env) MsgCallback (c\<lparr>cn_in := b\<rparr>)"
    "env_user (Server_env routes env) MsgCallback (c\<lparr>cn_in := b\<rparr>) = conn_perform env acts (c\<lparr>cn_in := b1\<rparr>)"
    using http_message [OF opened env bs acc, of routes] by blast
  have open1: "conn_open (c\<lparr>cn_in := b1\<rparr>)" by (rule conn_open_in [OF opened b(2)])
  obtain cs where rep: "poller_rep (cn_pw c) cs" "slots_live (cn_pw c)" using opened by (auto simp: conn_open_def)
  have "conn_typed (cn_pw c) (cn_chan c) (c\<lparr>cn_in := b1\<rparr>)"
    using open1 c by (auto simp: conn_typed_def)
  then have typed: "op_typed (c\<lparr>cn_in := b1\<rparr>) (conn_perform env acts (c\<lparr>cn_in := b1\<rparr>))"
    using perform_typed [OF env, of "c\<lparr>cn_in := b1\<rparr>" cs acts] rep by simp
  then obtain c1 where c1: "conn_perform env acts (c\<lparr>cn_in := b1\<rparr>) = Inr c1" "conn_typed (cn_pw c1) (cn_chan c) c1"
    "others_kept (cn_chan c) (cn_pw c) (cn_pw c1)"
    by (auto simp: op_typed_def)
  have "conn_callback (Server_env routes env) MsgCallback (c\<lparr>cn_in := b\<rparr>) = Inr c1"
    using conn_callback_keeps [OF conn_open_in [OF opened b(1)]] b(4) c1(1,2) by (simp add: conn_typed_def)
  then show ?thesis using b(3) c1(2,3) by (simp add: op_typed_def)
qed


lemma Server_env_write [simp]: "env_write (Server_env routes env) = env_write env"
  by (simp add: Server_env_def)

lemma http_answers:
  assumes opened: "conn_open c" and env: "env_ok env" and c: "cn_refs c = 1" "cn_state c = Connected"
    and bs: "bs \<noteq> []" "http_accepts (cn_in c) bs" and serve: "http_serve routes (buffer_contents (cn_in c)) bs = Some (msg, l)"
    and clean: "clean_send (Server_env routes env) msg c"
  shows "\<exists>c1. TcpConnection_handleRead (Server_env routes env) (length bs) (Some bs) c = Inr c1 \<and> cn_state c1 = Connected \<and>
     buffer_contents (cn_in c1) = l \<and> conn_stream c1 = conn_stream c @ msg"
proof -
  have all: "buffer_reexposed (cn_in c) = buffer_contents (cn_in c)" using clean by (simp add: clean_send_def buffer_reexposed_def)
  obtain b b1 rq rest exn where m: "http_parse Request_new (buffer_contents (cn_in c) @ bs) = Some (rq, rest, exn)"
    "buffer_wf b" "buffer_wf b1" "buffer_contents b1 = rest"
    "TcpConnection_handleRead (Server_env routes env) (length bs) (Some bs) c =
       conn_callback (Server_env routes env) MsgCallback (c\<lparr>cn_in := b\<rparr>)"
    "env_user (Server_env routes env) MsgCallback (c\<lparr>cn_in := b\<rparr>) =
       conn_perform env (Send (Response_toString (http_reply routes rq exn)) #
         (if Headers_get (rq_headers rq) ''Connection'' = ''close'' then [Shutdown] else [])) (c\<lparr>cn_in := b1\<rparr>)"
    using http_message [OF opened env bs, of routes] unfolding all by blast
  have kept: "rest = l" "Headers_get (rq_headers rq) ''Connection'' \<noteq> ''close''" "Response_toString (http_reply routes rq exn) = msg"
    using serve m(1) by (simp_all add: http_serve_def split: if_splits)
  obtain c1 where c1: "TcpConnection_sendTask env msg (c\<lparr>cn_in := b1\<rparr>) = Inr c1"
    "cn_state c1 = Connected" "cn_refs c1 = 1" "cn_in c1 = b1" "conn_stream c1 = conn_stream c @ msg"
    using sendTask_spec [OF conn_open_in [OF opened m(3)] env, of msg] clean c
    by (auto simp: clean_send_def conn_stream_def)
  have "conn_callback (Server_env routes env) MsgCallback (c\<lparr>cn_in := b\<rparr>) = Inr c1"
    using conn_callback_keeps [OF conn_open_in [OF opened m(2)]] m(6) c1(1,3) c(2) kept(2,3)
    by (simp add: TcpConnection_send_def)
  then show ?thesis using m(4,5) kept(1) c1 by simp
qed

lemma frames_perform [frame_intros]: "conn_frame c c0 \<Longrightarrow> frames c (conn_perform env acts c0)"
proof (induction acts arbitrary: c0)
  case (Cons act acts)
  have "frames c (case act of Send msg \<Rightarrow> TcpConnection_send env True msg c0 | Shutdown \<Rightarrow> TcpConnection_shutdown True c0)"
    using Cons.prems by (cases act) (simp_all add: frame_intros)
  from frames_seq [OF this Cons.IH] show ?case by (cases act) simp_all
qed (simp add: frames_simps)

lemma frames_http: "frames c (Server_msgCallback_conn routes env c)"
  unfolding Server_msgCallback_conn_def case_prod_unfold by (intro frame_intros frames_bind) simp

interpretation http_loop: io_app "Server_env routes" http_accepts "http_serve routes" for routes
proof
  show "env_ok env \<Longrightarrow> env_ok (Server_env routes env)" for env by (simp add: env_ok_def)
  show "cb \<noteq> MsgCallback \<Longrightarrow> env_user (Server_env routes env) cb = Inr" for cb env
    by (cases cb) (simp_all add: Server_env_def Server_callbacks_def TcpServer_setCloseCallback_def
        TcpServer_setMsgCallback_def TcpServer_setConnCallback_def Server_connCallback_def Server_closeCallback_def fun_eq_iff)
qed (simp_all add: http_typed http_answers frames_http)

section \<open>Properties\<close>

text \<open>C1. An HTTP server answers requests through the real loop. Let the loop run without undefined
  behaviour in the parser (\<open>http_accepts\<close>, on any connection) and in a world as \<open>io_loop_safe\<close> asks for,
  and follow a connected connection to which nothing happens that ends it (no request of it says
  \<^verbatim>\<open>Connection: close\<close>, its peer does not close, it is not closed or removed), while none of its messages
  meets an exhausted buffer or a failing \<^verbatim>\<open>write\<close>. Then \<^verbatim>\<open>EventLoop::loop\<close> succeeds, and what it hands
  to the kernel on the connection, with what is still buffered, is what it was followed by
  exactly one response for each message its reads find, in their order: the handler's, the 404 or,
  for a malformed request, the parser's error, to the request that the parser makes of the
  message and of what it left of the one before; whatever the other connections of the loop do
  in the same rounds.\<close>

theorem http_loop_serves:
  assumes "kl_typed (io_view s)" "kl_wired (io_view s)" "tq_timers s = []" and "world_ok W"
    and "io_rounds (io_answer_ok http_accepts (world_of (Server_env routes) W)) (world_of (Server_env routes) W) answers (loop_entered s)"
    and "io_rounds (io_clean (http_serve routes) (world_of (Server_env routes) W) d) (world_of (Server_env routes) W) answers (loop_entered s)"
    and "io_conns s d = Some c" "cn_state c = Connected"
    and "dialogue (http_serve routes) d (buffer_contents (cn_in c))
      (io_trace (world_of (Server_env routes) W) answers (loop_entered s)) = Some (out, l)"
  shows "\<exists>done s1 c1. EventLoop_loop (io_run (world_of (Server_env routes) W)) (io_call (world_of (Server_env routes) W)) answers s =
       Inr (done, s1) \<and> io_conns s1 d = Some c1 \<and> cn_state c1 = Connected \<and> buffer_contents (cn_in c1) = l \<and>
     cn_wire c1 @ buffer_contents (cn_out c1) = cn_wire c @ buffer_contents (cn_out c) @ out"
proof -
  have "io_inv s" using assms(1-3) by (simp add: io_inv_def)
  from http_loop.loop_answers [OF this assms(4-9)] show ?thesis .
qed

text \<open>One round: the first connection sends a request with an unknown method, the second one that is
  fine. The first gets the parser's error.\<close>

definition good_request :: string where
  "good_request = render_request GET ''/'' V11 [] []"

definition bad_request :: string where
  "bad_request = ''BREW / HTTP/1.1'' @ crlf @ crlf"

definition sample_requests_world :: io_world where
  "sample_requests_world = \<lparr>iw_conn = \<lambda>_. sample_env,
     iw_read = \<lambda>d n. if d = 2 then (length bad_request, Some bad_request) else (length good_request, Some good_request),
     iw_remove = \<lambda>_. [], iw_clock = int\<rparr>"

definition sample_http_round :: "io_task poll_answer list" where
  "sample_http_round = [([], 2, [0, 0, 1, 1])]"

abbreviation sample_http :: io_world where
  "sample_http \<equiv> world_of (Server_env hello_routes) sample_requests_world"

abbreviation sample_h0 :: io_loop where
  "sample_h0 \<equiv> io_sleep [] (loop_entered sample_io)"

lemma sample_requests_simps [simp]:
  "iw_conn sample_requests_world = (\<lambda>_. sample_env)" "iw_remove sample_requests_world t = []"
  "iw_read sample_requests_world d n =
     (if d = 2 then (length bad_request, Some bad_request) else (length good_request, Some good_request))"
  by (simp_all add: sample_requests_world_def)

lemma sample_requests_ok: "world_ok sample_requests_world"
  by (simp add: world_ok_def sample_env_ok read_whole_def)

lemma sample_h0_fields [simp]:
  "rc_pw sample_h0 = rc_pw sample_io" "io_reads sample_h0 = (\<lambda>_. 0)" "io_ticks sample_h0 = 0" "el_queue (rc_el sample_h0) = []"
  "el_counter (rc_el sample_h0) = 0" "io_view sample_h0 = io_view sample_io"
  by (simp_all add: io_sleep_def loop_entered_def rc_loop_def EventLoop_new_def loop_ops io_view_def)

lemma good_request_parsed:
  "http_parse Request_new good_request = Some (\<lparr>rq_method = GET, rq_version = V11, rq_path = ''/'', rq_query = [],
     rq_headers = [], rq_body = []\<rparr>, [], None)"
  "length good_request < 9223372036854775808" "good_request \<noteq> []"
  using http_parse_render [of "''/''" "[]" GET V11 "[]"]
  by (simp_all add: good_request_def path_ok_def render_request_def render_headers_def render_line_def crlf_def)

definition bad_response :: string where
  "bad_response = ''HTTP/1.1 400 Bad Request'' @ crlf @ ''Connection: Keep-Alive'' @ crlf @ ''Content-Length: 0'' @ crlf @ crlf"

lemma bad_response_text: "Response_toString (Response_setStatus BadRequest Response_new) = bad_response"
  by code_simp

lemma bad_response_short: "length bad_response < size_max1"
proof -
  have "length bad_response < 200" by code_simp
  then show ?thesis by (simp add: size_max1_def)
qed

lemma bad_request_parsed:
  "http_parse Request_new bad_request = Some (Request_new, ''/ HTTP/1.1'' @ crlf @ crlf, Some BadRequestException)"
  "length bad_request < 9223372036854775808" "bad_request \<noteq> []"
  by (simp_all add: bad_request_def http_parse_def take_token_def method_tests_def crlf_def)

lemma bad_request_served:
  "http_serve hello_routes [] bad_request = Some (bad_response, ''/ HTTP/1.1'' @ crlf @ crlf)"
proof -
  have "Headers_get (rq_headers Request_new) ''Connection'' \<noteq> ''close''" by code_simp
  moreover have "http_reply hello_routes Request_new (Some BadRequestException) = Response_setStatus BadRequest Response_new"
    by (simp add: http_reply_def)
  ultimately show ?thesis by (simp add: http_serve_def bad_request_parsed bad_response_text)
qed

lemma sample_http_ready:
  "ready_callbacks (rc_pw sample_io) [0, 0, 1, 1] = [OfConn 2 HandleRead, OfConn 3 HandleRead]"
  by (simp add: sample_io_pw ready_callbacks_def fired_callbacks_def sample_conn_channel_def sample_own_channel_def
      Channel_new_def revents_close_def revents_error_def revents_read_def revents_write_def event_defs)

lemma sample_http_events:
  "round_events sample_http sample_h0 [0, 0, 1, 1] = [Arrive 2 bad_request, Arrive 3 good_request]"
  using good_request_parsed(3) bad_request_parsed(3) by (simp add: round_events_def sample_http_ready read_event_def)

lemma sample_http_poll: "poll_answer_ok (OfLoop HandleWakeup) 2 [0, 0, 1, 1] sample_h0"
  unfolding poll_answer_ok_def sample_h0_fields sample_http_ready by (simp add: sample_io_pw)

lemma sample_http_polled: "kl_conns (io_polled sample_h0 num revs) = io_conns sample_io"
proof -
  have "io_conns sample_h0 = kl_conns (io_view sample_h0)" by (simp only: io_view_simps)
  then show ?thesis by (simp add: io_polled_def split: sum.split)
qed

lemma sample_input:
  "buffer_contents (cn_in (sample_conn b)) = []" "buffer_reexposed (cn_in (sample_conn b)) = []"
  by (simp_all add: sample_conn_def buffer_reexposed_def buffer_exhausted_def Buffer_new_def buffer_contents_def kInitLen_def)

lemma sample_http_answer: "io_answer_ok http_accepts sample_http 2 [0, 0, 1, 1] sample_h0"
proof -
  have acc: "http_accepts (cn_in (sample_conn b)) bad_request" "http_accepts (cn_in (sample_conn b)) good_request" for b
    using good_request_parsed bad_request_parsed sample_input(2) [of b] by (simp_all add: http_accepts_def)
  have "kl_conns k1 3 = Some ((sample_conn (Buffer_new 8))\<lparr>cn_chan := 3\<rparr>)"
    if "conn_loop_step (iw_conn sample_http) (Arrive 2 bad_request) (io_polled sample_h0 2 [0, 0, 1, 1]) = Inr k1" for k1
    using step_other [OF that, of 3] by (simp add: sample_http_polled)
  then have "all_accepted http_accepts (iw_conn sample_http) [Arrive 2 bad_request, Arrive 3 good_request] (io_polled sample_h0 2 [0, 0, 1, 1])"
    using acc by (auto simp: accepted_def sample_http_polled split: sum.split simp del: conn_loop_step.simps)
  moreover have "requests_ok (iw_conn sample_http) [Arrive 2 bad_request, Arrive 3 good_request] (io_polled sample_h0 2 [0, 0, 1, 1])"
    by (simp split: sum.split del: conn_loop_step.simps)
  ultimately show ?thesis
    unfolding io_answer_ok_def sample_http_events
    using sample_http_poll by (simp add: hangup_alone_def removals_wait_def del: requests_ok.simps all_accepted.simps)
qed

lemma sample_http_clean: "io_clean (http_serve hello_routes) sample_http 2 2 [0, 0, 1, 1] sample_h0"
proof -
  have "clean_send sample_env bad_response ((sample_conn (Buffer_new 8))\<lparr>cn_chan := 2\<rparr>)"
    using bad_response_short
    by (simp add: sample_conn_def clean_send_def buffer_exhausted_def Buffer_new_def kInitLen_def sample_env_def quiet_env_def)
  then have "clean_event (http_serve hello_routes) sample_env 2 (Arrive 2 bad_request) (io_polled sample_h0 2 [0, 0, 1, 1])"
    by (simp add: clean_event_def sample_http_polled sample_input bad_request_served)
  moreover have "clean_event serve (Server_env routes e) d ev k = clean_event serve e d ev k" for serve routes e d ev k
    by (rule clean_event_env) simp
  ultimately show ?thesis
    unfolding io_clean_def sample_http_events by (simp split: sum.split del: conn_loop_step.simps)
qed

lemma sample_http_round_ok: "P 2 [0, 0, 1, 1] sample_h0 \<Longrightarrow> io_rounds P W sample_http_round (loop_entered sample_io)"
  by (simp add: sample_http_round_def sample_entered split: sum.split)

lemma sample_http_trace:
  "io_trace sample_http sample_http_round (loop_entered sample_io) = [Arrive 2 bad_request, Arrive 3 good_request]"
proof -
  have "(case EventLoop_round (io_run sample_http) (io_call sample_http) 2 [0, 0, 1, 1] sample_h0 of
      Inl _ \<Rightarrow> [] | Inr s1 \<Rightarrow> io_trace sample_http [] s1) = []"
    by (simp split: sum.split)
  then show ?thesis
    unfolding sample_http_round_def io_trace.simps sample_entered if_False Let_def sample_http_events by simp
qed

lemma http_loop_serves_witness:
  "\<exists>done s1 c1. EventLoop_loop (io_run sample_http) (io_call sample_http) sample_http_round sample_io = Inr (done, s1) \<and>
     io_conns s1 2 = Some c1 \<and> cn_wire c1 @ buffer_contents (cn_out c1) = bad_response \<and>
     buffer_contents (cn_in c1) = ''/ HTTP/1.1'' @ crlf @ crlf"
proof -
  let ?c = "(sample_conn (Buffer_new 8))\<lparr>cn_chan := 2\<rparr>"
  have c: "io_conns sample_io 2 = Some ?c" "cn_state ?c = Connected"
    "dialogue (http_serve hello_routes) 2 (buffer_contents (cn_in ?c)) (io_trace sample_http sample_http_round (loop_entered sample_io)) =
      Some (bad_response, ''/ HTTP/1.1'' @ crlf @ crlf)"
    by (simp_all add: sample_http_trace sample_input bad_request_served) (simp add: sample_conn_def)
  have start: "cn_wire ?c @ buffer_contents (cn_out ?c) @ bad_response = bad_response"
    by (simp add: sample_conn_def Buffer_new_def buffer_contents_def kInitLen_def)
  show ?thesis
    using http_loop_serves [OF sample_io_typed sample_io_wired sample_io_fields(1) sample_requests_ok
        sample_http_round_ok [where P = "io_answer_ok http_accepts sample_http", OF sample_http_answer]
        sample_http_round_ok [where P = "io_clean (http_serve hello_routes) sample_http 2", OF sample_http_clean] c]
    unfolding start by blast
qed

end
