(* ===== verification/Spec2Isabelle.thy ===== *)
theory Spec2Isabelle
  imports Lotta_Timed_Loop Lotta_Socket Lotta_Http_Loop
begin

text \<open>
  Lotta, a small C++ network library in the reactor style: one event loop per thread polls the
  descriptors of its channels and runs their callbacks. This development models the library under
  \<^verbatim>\<open>src/\<close> (with the headers under \<^verbatim>\<open>include/lotta/\<close>) and proves what its components do.

  \<^bold>\<open>The program and the theories.\<close>

  \<^item> \<^verbatim>\<open>Buffer\<close> and \<^verbatim>\<open>Slice\<close> (\<^verbatim>\<open>buffer.h\<close>, \<^verbatim>\<open>buffer.cc\<close>): Lotta\_Buffer. A buffer is the vector
    \<^verbatim>\<open>data_\<close> with its capacity and \<^verbatim>\<open>idx_\<close>; how a vector grows is a parameter (\<open>grow_ok\<close>). Its
    abstraction is the byte list \<open>buffer_contents\<close>; operations refine it except for the case of an
    exhausted buffer (\<open>buffer_exhausted\<close>), where the code makes consumed bytes readable again.
  \<^item> \<^verbatim>\<open>Channel\<close> (\<^verbatim>\<open>channel.h\<close>, \<^verbatim>\<open>channel.cc\<close>): Lotta\_Channel, with the order of callbacks in
    \<^verbatim>\<open>handleEvent\<close>. Callbacks are values of a type parameter, run by an argument.
  \<^item> \<^verbatim>\<open>Poller\<close>, \<^verbatim>\<open>PollPoller\<close>, and the channel operations that reach them: Lotta\_Poller. The record
    \<open>pworld\<close> holds the live channel objects (an explicit store, since the poller writes through
    \<^verbatim>\<open>Channel *\<close>), \<^verbatim>\<open>channels_\<close> and \<^verbatim>\<open>pollFds_\<close>; \<open>poller_rep\<close> is its invariant and
    \<open>kernel_watch\<close> its abstraction, what \<^verbatim>\<open>poll(2)\<close> is asked to watch.
  \<^item> \<^verbatim>\<open>Timer\<close>, \<^verbatim>\<open>TimerQueue\<close> and \<^verbatim>\<open>EventLoop::runAfter\<close>, \<^verbatim>\<open>runEvery\<close>, \<^verbatim>\<open>cancel\<close>:
    Lotta\_Timer\_Queue. The multimap is a sorted list, the timerfd the time it is armed for; the
    clock is an argument.
  \<^item> \<^verbatim>\<open>EventLoop\<close>, \<^verbatim>\<open>EventLoopThread\<close>, \<^verbatim>\<open>EventLoopPool\<close>: Lotta\_Event\_Loop. The loop and the threads
    that hand it functions are a step function on atomic actions; reachability is inductive. What
    the constructors and destructors register with the poller: Lotta\_Loop\_Channels.
  \<^item> \<^verbatim>\<open>EventLoop::loop\<close> with everything it drives: Lotta\_Reactor. The record \<open>reactor\<close> extends the
    timer queue by the poller world, \<^verbatim>\<open>activeChannels_\<close> and the loop object; callbacks and functions
    act on all of it. The environment is the list of what happens at each \<^verbatim>\<open>poll\<close>: the actions of
    other threads, the return value and the reports. Lotta\_Loop\_Programs runs programs on it
    (callbacks that log, push functions, quit, change masks, add and cancel timers), and
    Lotta\_Timed\_Loop follows a timer from \<^verbatim>\<open>runAfter\<close> through the timerfd to its callback.
  \<^item> \<^verbatim>\<open>TcpConnection\<close>: Lotta\_Tcp\_Connection, over Lotta\_Buffer and Lotta\_Poller. \<^verbatim>\<open>shared_ptr\<close>
    ownership is a count, destruction removes the channel object from the store.
  \<^item> \<^verbatim>\<open>NetAddr\<close>, \<^verbatim>\<open>Connector\<close>, \<^verbatim>\<open>Acceptor\<close>: Lotta\_Net, with the results of system calls as arguments.
    The system calls themselves (\<^verbatim>\<open>socket.h\<close>, \<^verbatim>\<open>socket.cc\<close>: the free functions and the class
    \<^verbatim>\<open>Socket\<close>), and acceptor, connector and loop descriptors on top of them: Lotta\_Socket, over a
    kernel that answers each call from the history of calls.
  \<^item> \<^verbatim>\<open>TcpServer\<close>, \<^verbatim>\<open>TcpClient\<close> and their callbacks: Lotta\_Tcp\_Server. Loops are values; \<^verbatim>\<open>exec\<close> runs
    at once in the loop's own thread and is a task for it otherwise. Many connections of a server on
    the poller of one loop: Lotta\_Loop\_Connections.
  \<^item> \<^verbatim>\<open>http::\<close> \<^verbatim>\<open>Request\<close>, \<^verbatim>\<open>Response\<close>, \<^verbatim>\<open>Headers\<close> and the exceptions: Lotta\_Http, with a parser on
    strings as the specification; \<^verbatim>\<open>http::Server\<close> on a real connection: Lotta\_Http\_Server; the
    program \<^verbatim>\<open>example/http_server.cc\<close>: Lotta\_Example.
  \<^item> An I/O loop of a server, put together: Lotta\_Io\_Loop. The record \<open>io_loop\<close> extends \<open>reactor\<close> by the
    connections given to the loop; \<open>io_run\<close> runs the handlers the constructors bind (\<open>io_handler\<close>),
    \<open>io_call\<close> the functions other threads put on the queue (\<open>io_task\<close>: establish, send, shutdown,
    close). Reports of \<^verbatim>\<open>poll\<close> reach the connections through \<^verbatim>\<open>Channel::handleEvent\<close> of the real loop.
    The removal of a closed connection is not one of its functions: \<^verbatim>\<open>TcpServer::removeConn\<close> gives it to
    the server's loop, so the server's thread destroys connection and channel while the I/O loop
    runs; \<open>server_removals\<close> lets it do so after every single callback and function. The record
    \<open>io_world\<close> says when it does, what each read announces and returns (also failures), and what
    each write takes.
    Lotta\_Connection\_Frames shows what operations of a connection leave alone, so that channels
    stay bound to their owners; the servers on such a loop are Lotta\_Io\_Server (the default, echo)
    and Lotta\_Http\_Loop (HTTP). These loops set no timers.

  Results are \<open>'a res\<close>: \<open>AssertFail\<close> where an \<^verbatim>\<open>assert\<close> of the source is false, \<open>Undefined\<close> where
  the source runs into undefined behaviour (freed memory, a null channel, an invalid iterator, a
  wrapped length handed to an output stream). What system calls return, time, the text forms of
  addresses and the callbacks of users are arguments.

  \<^bold>\<open>What the lemmas show.\<close>

  Buffers: refinement of a byte list, splitting at delimiters, exact reads, decoding of integers.
  Poller: what is watched after any history of channel operations, what a poll reports, and the
  crash beside a masked channel. Timers: the queue's invariant under every operation, which timers
  fire and are restarted, when the descriptor stays armed and when a periodic timer stalls.
  Loops: functions run once and in order, no wakeup is lost, construction and
  destruction leave the poller as it was, one round terminates and drains the
  queue, a lost \<^verbatim>\<open>quit\<close>, round robin over the pool; the whole \<^verbatim>\<open>loop()\<close> refines the concurrent object, a
  round runs exactly the callbacks that are ready, \<^verbatim>\<open>quit\<close> of another thread wakes \<^verbatim>\<open>poll\<close> and ends
  \<^verbatim>\<open>loop()\<close>, a timer fires through the timerfd, and a callback that destroys another ready channel is fatal. Connections: the
  byte stream is preserved
  by sends and writability events in any order, except in two cases (an exhausted output buffer, a
  failing write) in which the code breaks it; \<^verbatim>\<open>shutdown\<close> closes the sending side exactly when the
  last byte is out; on a shared loop they stay well typed through every run of events that are possible in turn, and
  do not disturb one another; the real loop that polls, dispatches and runs the queue is safe and
  answers every connection, echo or HTTP, with its own stream, provided the threads around it keep to
  what the theorems ask (\<open>io_answer_ok\<close>, \<open>world_ok\<close>); where they need not, the program fails: a removal
  by the server's thread in the middle of a \<^verbatim>\<open>handleEvent\<close> is a use after free, a failing read stops
  at an assert, a second \<^verbatim>\<open>close\<close> aborts, and a queued \<^verbatim>\<open>send\<close> may dangle. Connecting: retries
  with back-off, the unnoticed error, the leaked descriptor.
  Sockets and acceptor: each operation is one call on the own descriptor, failures are reported
  exactly, no descriptor is lost over the life of an acceptor or a loop. Servers: the registry of connections is exact under every
  interleaving of arrivals, closes and tasks, loads are spread, the destructor is unsafe. HTTP:
  the parser refines its specification on strings, rendered requests are parsed back, responses
  have the right bytes, one request on a connection gets one response; the example program answers
  as it should from \<^verbatim>\<open>main\<close> on.

  \<^bold>\<open>Interfaces.\<close> \<open>byte_queue\<close> (what users of a buffer rely on; from \<open>vector_growth\<close>, interpreted
  on libstdc++'s growth), \<open>io_multiplexer\<close> (what owners of channels rely on; interpreted on the
  poller and used by connections and the connector), \<open>timer_callbacks\<close> (callbacks that keep the
  queue's invariant; interpreted on those that add and cancel timers), \<open>header_fields\<close> (a
  dictionary; interpreted on \<^verbatim>\<open>Headers\<close>), \<open>loop_source\<close> (loops given out in turn; interpreted on
  the pool and used by the server), \<open>loop_clients\<close> (what the loop relies on in the callbacks and
  functions it runs; interpreted on programs), \<open>conn_app\<close> and its extension \<open>io_app\<close> (what a loop of
  connections relies on in an application: which messages it \<open>accepts\<close>, how it is to \<open>serve\<close> a
  message behind what was left unread (its answer and the rest, or the end of the connection),
  and that it keeps to its own connection; interpreted on the echo server and on \<^verbatim>\<open>http::Server\<close>).

  \<^bold>\<open>Termination.\<close> No definition uses fuel. Loops over containers are structural recursion; the header
  loop of the parser terminates because every round consumes the buffer; \<^verbatim>\<open>EventLoop::loop\<close>,
  which need not end, is a step function and, in detail, a recursion on what happens at its calls of
  \<^verbatim>\<open>poll\<close>, with a flag that tells whether it has returned.

  \<^bold>\<open>Not modelled.\<close> The set-up and the format of the log (output only), the kernel behind the system
  calls (a parameter), class utilities (deleted copies, an unused singleton), tests and build files.
  Most components take the test for the loop's thread as a flag (\<open>same_thread_flag\<close> relates it to
  \<^verbatim>\<open>this_thread::id\<close>). Data races outside the mutexes are not modelled: actions are atomic, and the server's thread removes
  a connection between two callbacks of the I/O loop, never inside one. Points of time are unbounded
  integers of nanoseconds, where the source has 64 bits of them.
\<close>

end
